(* ===== verification/Prelude.thy ===== *)
theory Prelude
  imports Main "HOL-Library.Word" "HOL-Library.List_Lexorder" "HOL-Library.Char_ord"
    "HOL-Library.AList"
begin

text \<open>
  The vocabulary the component theories share.

  \<^item> Machine integers: a Rust \<open>u8\<close>, \<open>u16\<close>, \<open>u32\<close>, \<open>u64\<close> is a word of that width wherever its
    value is stored in a file, hashed, or can wrap. A \<open>usize\<close>, and a \<open>u64\<close> that only counts the
    bytes or the elements of something held in memory or on disk, is a \<open>nat\<close>.
  \<^item> Byte strings: \<open>bytes\<close> is a list of \<open>u8\<close>, ordered lexicographically as Rust orders slices.
    \<open>le_bytes\<close>, \<open>be_bytes\<close> and \<open>le_word\<close> are \<open>to_le_bytes\<close>, \<open>to_be_bytes\<close> and \<open>from_le_bytes\<close>.
    \<open>get_range\<close> is \<open>slice.get(a..b)\<close> and \<open>copy_at\<close> is \<open>copy_from_slice\<close> into a part of a buffer.
  \<^item> Fallible stateful code: a computation takes the state and returns an error or a value with
    the state it leaves, so an early return by \<open>?\<close> keeps the effects made before it.
    \<open>st_keeps P m\<close> says that \<open>m\<close> keeps \<open>P\<close> on every path, the failing ones included.
\<close>

unbundle bit_operations_syntax

section \<open>Machine integers and byte strings\<close>

type_synonym u8 = "8 word"
type_synonym u16 = "16 word"
type_synonym u32 = "32 word"
type_synonym u64 = "64 word"
type_synonym u128 = "128 word"
type_synonym bytes = "u8 list"

named_theorems codec_simps \<open>round trips and lengths of the byte encodings\<close>
named_theorems list_slices \<open>taking, dropping and overwriting parts of lists\<close>

definition le_bytes :: "nat \<Rightarrow> 'a::len word \<Rightarrow> bytes" where
  "le_bytes n w = map (\<lambda>i. ucast (drop_bit (8 * i) w)) [0..<n]"

definition be_bytes :: "nat \<Rightarrow> 'a::len word \<Rightarrow> bytes" where
  "be_bytes n w = rev (le_bytes n w)"

fun le_word :: "bytes \<Rightarrow> 'a::len word" where
  "le_word [] = 0"
| "le_word (b # bs) = ucast b OR push_bit 8 (le_word bs)"

lemma length_le_bytes [simp, codec_simps]: "length (le_bytes n w) = n"
  by (simp add: le_bytes_def)

lemma length_be_bytes [simp, codec_simps]: "length (be_bytes n w) = n"
  by (simp add: be_bytes_def)

lemma bit_le_word:
  "bit (le_word bs :: 'a::len word) i \<longleftrightarrow>
     i < LENGTH('a) \<and> i div 8 < length bs \<and> bit (bs ! (i div 8)) (i mod 8)"
proof (induction bs arbitrary: i)
  case Nil
  then show ?case by simp
next
  case (Cons b bs)
  show ?case
  proof (cases "i < 8")
    case True
    then show ?thesis
      by (auto simp: bit_or_iff bit_push_bit_iff bit_ucast_iff dest: bit_imp_le_length)
  next
    case False
    then obtain j where j: "i div 8 = Suc j" by (cases "i div 8") auto
    with False have "(i - 8) div 8 = j" "(i - 8) mod 8 = i mod 8"
      by (simp_all add: le_mod_geq le_div_geq)
    moreover have "\<not> bit b i"
      using False by (auto dest: bit_imp_le_length)
    ultimately show ?thesis
      using False j Cons.IH [of "i - 8"] bit_imp_le_length [of "le_word bs :: 'a word" "i - 8"]
      by (auto simp: bit_or_iff bit_push_bit_iff bit_ucast_iff nth_Cons' less_diff_conv)
  qed
qed

lemma nth_le_bytes: "i < n \<Longrightarrow> le_bytes n w ! i = ucast (drop_bit (8 * i) w)"
  by (simp add: le_bytes_def)

lemma le_word_le_bytes [simp, codec_simps]:
  fixes w :: "'a::len word"
  assumes "LENGTH('a) = 8 * n"
  shows "le_word (le_bytes n w) = w"
proof (rule bit_word_eqI)
  fix i assume i: "i < LENGTH('a)"
  then have "i div 8 < n" using assms by simp
  then show "bit (le_word (le_bytes n w) :: 'a word) i = bit w i"
    using i by (simp add: bit_le_word nth_le_bytes bit_ucast_iff bit_drop_bit_eq)
qed

lemma le_bytes_le_word:
  assumes "LENGTH('a::len) = 8 * length bs"
  shows "le_bytes (length bs) (le_word bs :: 'a word) = bs"
proof (rule nth_equalityI)
  fix i assume "i < length (le_bytes (length bs) (le_word bs :: 'a word))"
  then have i: "i < length bs" by simp
  show "le_bytes (length bs) (le_word bs :: 'a word) ! i = bs ! i"
  proof (rule bit_word_eqI)
    fix k assume k: "k < LENGTH(8)"
    then have "(8 * i + k) div 8 = i" "(8 * i + k) mod 8 = k" by simp_all
    then show "bit (le_bytes (length bs) (le_word bs :: 'a word) ! i) k = bit (bs ! i) k"
      using i k assms by (simp add: nth_le_bytes bit_ucast_iff bit_drop_bit_eq bit_le_word)
  qed
qed simp

lemma le_word_replicate [simp]: "le_word (replicate n 0) = 0"
  by (induction n) simp_all

lemma le_bytes_zero: "le_bytes n (0 :: 'a::len word) = replicate n 0"
  by (rule nth_equalityI) (simp_all add: nth_le_bytes)

lemma le_bytes_inject:
  fixes v w :: "'a::len word"
  assumes "LENGTH('a) = 8 * n"
  shows "le_bytes n v = le_bytes n w \<longleftrightarrow> v = w"
  using le_word_le_bytes [OF assms] by metis

lemma word_xor_eq_0: "(a :: 'a::len word) XOR b = 0 \<longleftrightarrow> a = b"
  by (auto simp: bit_eq_iff bit_xor_iff)

lemma word_xor_cancel:
  "(a :: 'a::len word) XOR c = b XOR c \<longleftrightarrow> a = b" "c XOR a = c XOR b \<longleftrightarrow> a = b"
  by (auto simp: bit_eq_iff bit_xor_iff)

lemma ucast_u8_inj: "(ucast a :: u32) = ucast b \<longleftrightarrow> a = (b :: u8)"
proof
  assume "(ucast a :: u32) = ucast b"
  then have "(ucast (ucast a :: u32) :: u8) = ucast (ucast b :: u32)" by simp
  then show "a = b" by (simp add: ucast_up_ucast_id is_up)
qed simp

lemma word_succ:
  assumes "a \<noteq> - 1"
  shows "t \<le> a + 1 \<longleftrightarrow> t \<le> a \<or> t = a + (1 :: 'a::len word)" and "a < a + 1"
proof -
  have "a + 1 \<noteq> 0" using assms by (simp add: eq_neg_iff_add_eq_0)
  then have "unat (a + 1) = Suc (unat a)" using unatSuc [of a] by (simp add: add.commute)
  then show "t \<le> a + 1 \<longleftrightarrow> t \<le> a \<or> t = a + 1" "a < a + 1"
    by (auto simp: word_le_nat_alt word_less_nat_alt word_unat_eq_iff)
qed

section \<open>Parts of lists\<close>

definition slice :: "'a list \<Rightarrow> nat \<Rightarrow> nat \<Rightarrow> 'a list" where
  "slice xs a b = take (b - a) (drop a xs)"

definition get_range :: "'a list \<Rightarrow> nat \<Rightarrow> nat \<Rightarrow> 'a list option" where
  "get_range xs a b = (if a \<le> b \<and> b \<le> length xs then Some (slice xs a b) else None)"

definition copy_at :: "'a list \<Rightarrow> nat \<Rightarrow> 'a list \<Rightarrow> 'a list" where
  "copy_at xs a ys = take a xs @ ys @ drop (a + length ys) xs"

lemma length_slice [simp, list_slices]: "length (slice xs a b) = min (b - a) (length xs - a)"
  by (simp add: slice_def)

lemma length_copy_at [list_slices]:
  "a + length ys \<le> length xs \<Longrightarrow> length (copy_at xs a ys) = length xs"
  by (simp add: copy_at_def)

lemma nth_copy_at [list_slices]:
  "a + length ys \<le> length xs \<Longrightarrow> i < length xs \<Longrightarrow>
     copy_at xs a ys ! i = (if a \<le> i \<and> i < a + length ys then ys ! (i - a) else xs ! i)"
  by (auto simp: copy_at_def nth_append min_def)

lemma take_copy_at [list_slices]:
  "n \<le> a \<Longrightarrow> a \<le> length xs \<Longrightarrow> take n (copy_at xs a ys) = take n xs"
  by (simp add: copy_at_def min_def)

lemma slice_append_left [list_slices]:
  "b \<le> length xs \<Longrightarrow> slice (xs @ ys) a b = slice xs a b"
  by (simp add: slice_def)

lemma slice_append_right [list_slices]:
  "length xs \<le> a \<Longrightarrow> slice (xs @ ys) a b = slice ys (a - length xs) (b - length xs)"
  by (simp add: slice_def)

lemma slice_all [simp]: "slice xs 0 (length xs) = xs"
  by (simp add: slice_def)

lemma slice_self [simp]: "slice xs a a = []"
  by (simp add: slice_def)

lemma get_range_eq_Some:
  "get_range xs a b = Some ys \<longleftrightarrow> a \<le> b \<and> b \<le> length xs \<and> ys = slice xs a b"
  by (auto simp: get_range_def)

lemma slice_split: "a \<le> b \<Longrightarrow> b \<le> c \<Longrightarrow> slice xs a c = slice xs a b @ slice xs b c"
proof -
  assume "a \<le> b" "b \<le> c"
  then have "take (c - a) (drop a xs) = take ((b - a) + (c - b)) (drop a xs)" by simp
  also have "\<dots> = take (b - a) (drop a xs) @ take (c - b) (drop (b - a) (drop a xs))"
    by (rule take_add)
  finally show ?thesis using \<open>a \<le> b\<close> by (simp add: slice_def)
qed

lemma slice_0 [simp]: "slice xs 0 n = take n xs"
  by (simp add: slice_def)

lemma slice_take [list_slices]: "b \<le> n \<Longrightarrow> slice (take n xs) a b = slice xs a b"
  by (simp add: slice_def drop_take)

lemma slice_one: "a < length xs \<Longrightarrow> slice xs a (Suc a) = [xs ! a]"
  by (simp add: slice_def take_Suc_conv_app_nth)

lemma nth_slice [list_slices]: "a + i < b \<Longrightarrow> b \<le> length xs \<Longrightarrow> slice xs a b ! i = xs ! (a + i)"
  by (simp add: slice_def)

lemma le_bytes_slice:
  assumes "a + n \<le> length bs" and "LENGTH('a::len) = 8 * n"
  shows "le_bytes n (le_word (slice bs a (a + n)) :: 'a word) = slice bs a (a + n)"
  using le_bytes_le_word [where 'a = 'a, of "slice bs a (a + n)"] assms by simp

text \<open>\<open>Vec::resize\<close>.\<close>

definition resize :: "'a list \<Rightarrow> nat \<Rightarrow> 'a \<Rightarrow> 'a list" where
  "resize xs n v = take n xs @ replicate (n - length xs) v"

lemma length_resize [simp]: "length (resize xs n v) = n"
  by (simp add: resize_def)

text \<open>\<open>usize::next_multiple_of\<close>.\<close>

definition next_multiple_of :: "nat \<Rightarrow> nat \<Rightarrow> nat" where
  "next_multiple_of x n = (if x mod n = 0 then x else x + (n - x mod n))"

lemma next_multiple_of_ge: "x \<le> next_multiple_of x n"
  by (simp add: next_multiple_of_def)

lemma next_multiple_of_lt: "0 < n \<Longrightarrow> next_multiple_of x n < x + n"
  by (simp add: next_multiple_of_def)

lemma next_multiple_of_dvd: "0 < n \<Longrightarrow> n dvd next_multiple_of x n"
proof -
  assume "0 < n"
  then have "x mod n \<le> n" by (simp add: less_imp_le)
  moreover have "x = n * (x div n) + x mod n" by simp
  ultimately have "x + (n - x mod n) = n * (x div n) + n" by linarith
  then have "n dvd x + (n - x mod n)" by simp
  then show ?thesis by (simp add: next_multiple_of_def mod_eq_0_iff_dvd)
qed

lemma all_zero_replicate: "(\<forall>x \<in> set xs. x = c) \<longleftrightarrow> xs = replicate (length xs) c"
  by (metis in_set_replicate replicate_length_same)

section \<open>Computations that may fail\<close>

type_synonym ('s, 'e, 'a) st = "'s \<Rightarrow> ('e + 'a) \<times> 's"

definition st_return :: "'a \<Rightarrow> ('s, 'e, 'a) st" where
  "st_return x s = (Inr x, s)"

definition st_throw :: "'e \<Rightarrow> ('s, 'e, 'a) st" where
  "st_throw e s = (Inl e, s)"

definition st_bind :: "('s, 'e, 'a) st \<Rightarrow> ('a \<Rightarrow> ('s, 'e, 'b) st) \<Rightarrow> ('s, 'e, 'b) st" where
  "st_bind m f s = (case m s of (Inl e, t) \<Rightarrow> (Inl e, t) | (Inr x, t) \<Rightarrow> f x t)"

definition st_keeps :: "('s \<Rightarrow> bool) \<Rightarrow> ('s, 'e, 'a) st \<Rightarrow> bool" where
  "st_keeps P m \<longleftrightarrow> (\<forall>s. P s \<longrightarrow> P (snd (m s)))"

named_theorems st_simps \<open>running computations\<close>
named_theorems st_rules \<open>properties computations keep\<close>

lemma st_return_run [st_simps]: "st_return x s = (Inr x, s)"
  by (simp add: st_return_def)

lemma st_throw_run [st_simps]: "st_throw e s = (Inl e, s)"
  by (simp add: st_throw_def)

lemma st_bind_run [st_simps]:
  "st_bind m f s = (case m s of (Inl e, t) \<Rightarrow> (Inl e, t) | (Inr x, t) \<Rightarrow> f x t)"
  by (simp add: st_bind_def)

lemma st_bind_return: "st_bind (st_return x) f = f x"
  by (rule ext) (simp add: st_bind_def st_return_def)

lemma st_bind_Inr:
  "st_bind m f s = (Inr y, t) \<longleftrightarrow> (\<exists>x u. m s = (Inr x, u) \<and> f x u = (Inr y, t))"
  by (auto simp: st_bind_def split: prod.splits sum.splits)

lemma st_keepsD: "st_keeps P m \<Longrightarrow> P s \<Longrightarrow> P (snd (m s))"
  by (simp add: st_keeps_def)

lemma st_keeps_return [st_rules, intro]: "st_keeps P (st_return x)"
  by (simp add: st_keeps_def st_return_def)

lemma st_keeps_throw [st_rules, intro]: "st_keeps P (st_throw e)"
  by (simp add: st_keeps_def st_throw_def)

lemma st_keeps_bind [st_rules, intro]:
  assumes "st_keeps P m" and "\<And>x. st_keeps P (f x)"
  shows "st_keeps P (st_bind m f)"
  using assms unfolding st_keeps_def st_bind_def
  by (auto split: prod.splits sum.splits)

text \<open>
  \<open>st_triple P m Q E\<close>: started in a state with \<open>P\<close>, \<open>m\<close> returns a value and a state with \<open>Q\<close>, or
  fails in a state with \<open>E\<close>.
\<close>

definition st_triple ::
  "('s \<Rightarrow> bool) \<Rightarrow> ('s, 'e, 'a) st \<Rightarrow> ('a \<Rightarrow> 's \<Rightarrow> bool) \<Rightarrow> ('s \<Rightarrow> bool) \<Rightarrow> bool" where
  "st_triple P m Q E \<longleftrightarrow>
     (\<forall>s x t. P s \<and> m s = (Inr x, t) \<longrightarrow> Q x t) \<and> (\<forall>s e t. P s \<and> m s = (Inl e, t) \<longrightarrow> E t)"

lemma st_tripleD_Inr: "st_triple P m Q E \<Longrightarrow> P s \<Longrightarrow> m s = (Inr x, t) \<Longrightarrow> Q x t"
  unfolding st_triple_def by blast

lemma st_tripleD_Inl: "st_triple P m Q E \<Longrightarrow> P s \<Longrightarrow> m s = (Inl e, t) \<Longrightarrow> E t"
  unfolding st_triple_def by blast

lemma st_tripleI:
  assumes "\<And>s x t. P s \<Longrightarrow> m s = (Inr x, t) \<Longrightarrow> Q x t" and "\<And>s e t. P s \<Longrightarrow> m s = (Inl e, t) \<Longrightarrow> E t"
  shows "st_triple P m Q E"
  unfolding st_triple_def using assms by blast

lemma st_bind_Inl:
  "st_bind m f s = (Inl e, t) \<longleftrightarrow> m s = (Inl e, t) \<or> (\<exists>x u. m s = (Inr x, u) \<and> f x u = (Inl e, t))"
  by (auto simp: st_bind_def split: prod.splits sum.splits)

lemma st_triple_bind:
  assumes m: "st_triple P m R E" and f: "\<And>x. st_triple (R x) (f x) Q E"
  shows "st_triple P (st_bind m f) Q E"
proof (rule st_tripleI)
  fix s x t assume "P s" "st_bind m f s = (Inr x, t)"
  then show "Q x t"
    unfolding st_bind_Inr using st_tripleD_Inr [OF m] st_tripleD_Inr [OF f] by blast
next
  fix s e t assume "P s" "st_bind m f s = (Inl e, t)"
  then show "E t"
    unfolding st_bind_Inl using st_tripleD_Inr [OF m] st_tripleD_Inl [OF m] st_tripleD_Inl [OF f] by blast
qed

lemma st_triple_return: "(\<And>s. P s \<Longrightarrow> Q x s) \<Longrightarrow> st_triple P (st_return x) Q E"
  by (simp add: st_triple_def st_return_def)

lemma st_triple_throw: "(\<And>s. P s \<Longrightarrow> E s) \<Longrightarrow> st_triple P (st_throw e) Q E"
  by (simp add: st_triple_def st_throw_def)

lemma st_triple_conseq:
  assumes "st_triple P' m Q' E'" and "\<And>s. P s \<Longrightarrow> P' s" and "\<And>x s. Q' x s \<Longrightarrow> Q x s" and "\<And>s. E' s \<Longrightarrow> E s"
  shows "st_triple P m Q E"
  using assms unfolding st_triple_def by blast

end
