(* ===== verification/Interfaces.thy ===== *)
theory Interfaces
  imports Prelude
begin

text \<open>
  The contracts one component relies on and another provides, as locales. A client's lemmas are
  proved under the locale, and the component that provides the operations interprets it on its own
  definitions.
\<close>

section \<open>Checksums\<close>

text \<open>
  What the log format relies on of a checksum: continuing it is checksumming the pieces joined, and
  neither two seeds nor two values of one byte can lead to the same checksum.
\<close>

locale checksum =
  fixes ext :: "u32 \<Rightarrow> bytes \<Rightarrow> u32"
  assumes ext_Nil: "ext c [] = c"
    and ext_append: "ext c (xs @ ys) = ext (ext c xs) ys"
    and ext_seed: "ext c xs = ext d xs \<Longrightarrow> c = d"
    and ext_byte: "ext c [a] = ext c [b] \<Longrightarrow> a = b"
begin

lemma ext_seed_iff [simp]: "ext c xs = ext d xs \<longleftrightarrow> c = d"
  by (auto dest: ext_seed)

text \<open>A change of one byte anywhere is detected.\<close>

lemma ext_one_byte:
  assumes "a \<noteq> b"
  shows "ext c (xs @ a # ys) \<noteq> ext c (xs @ b # ys)"
proof
  assume "ext c (xs @ a # ys) = ext c (xs @ b # ys)"
  then have "ext (ext (ext c xs) [a]) ys = ext (ext (ext c xs) [b]) ys"
    using ext_append [of "ext c xs" "[a]" ys] ext_append [of "ext c xs" "[b]" ys]
    by (simp add: ext_append)
  then have "ext (ext c xs) [a] = ext (ext c xs) [b]" by (rule ext_seed)
  then have "a = b" by (rule ext_byte)
  with assms show False by simp
qed

lemma ext_update:
  assumes "j < length xs" and "ext c (xs[j := b]) = ext c xs"
  shows "b = xs ! j"
  using assms ext_one_byte [of b "xs ! j" c "take j xs" "drop (Suc j) xs"]
  by (auto simp: upd_conv_take_nth_drop id_take_nth_drop [symmetric])

end

end
