(* ===== verification/Crc.thy ===== *)
theory Crc
  imports Interfaces
begin

text \<open>
  CRC-32C: \<open>rudb-txn/src/log/crc.rs\<close> and \<open>rudb-io/src/crc.rs\<close>. The code computes it in three
  ways: eight tables built at compile time (\<open>software\<close>), and the instructions of two processors
  (\<open>hardware_x86\<close>, \<open>hardware_arm\<close>). The reference is the checksum a bit at a time, \<open>crc_ref\<close>.
  Every way is shown to compute it, so a segment written on one machine verifies on any other,
  and \<open>extend\<close> is shown to be a \<^const>\<open>checksum\<close>.
\<close>

unbundle bit_operations_syntax

section \<open>The tables\<close>

definition POLY :: u32 where
  "POLY = 0x82F63B78"

definition crc_bit :: "u32 \<Rightarrow> u32" where
  "crc_bit crc = (if crc AND 1 = 0 then drop_bit 1 crc else drop_bit 1 crc XOR POLY)"

text \<open>The loop over the bits of a byte, \<open>n\<close> times round.\<close>

definition crc_bits :: "nat \<Rightarrow> u32 \<Rightarrow> u32" where
  "crc_bits n crc = (crc_bit ^^ n) crc"

fun table_row :: "nat \<Rightarrow> u32 list" where
  "table_row 0 = map (\<lambda>byte. crc_bits 8 (of_nat byte)) [0..<256]"
| "table_row (Suc k) =
     map (\<lambda>previous. drop_bit 8 previous XOR table_row 0 ! unat (previous AND 0xFF)) (table_row k)"

definition TABLES :: "u32 list list" where
  "TABLES = map table_row [0..<8]"

definition software_step :: "u32 \<Rightarrow> bytes \<Rightarrow> u32" where
  "software_step crc step =
     (let low = le_word (slice step 0 4) XOR crc;
          high = (le_word (slice step 4 8) :: u32)
      in TABLES ! 7 ! unat (low AND 0xFF)
         XOR TABLES ! 6 ! unat (drop_bit 8 low AND 0xFF)
         XOR TABLES ! 5 ! unat (drop_bit 16 low AND 0xFF)
         XOR TABLES ! 4 ! unat (drop_bit 24 low)
         XOR TABLES ! 3 ! unat (high AND 0xFF)
         XOR TABLES ! 2 ! unat (drop_bit 8 high AND 0xFF)
         XOR TABLES ! 1 ! unat (drop_bit 16 high AND 0xFF)
         XOR TABLES ! 0 ! unat (drop_bit 24 high))"

definition software_byte :: "u32 \<Rightarrow> u8 \<Rightarrow> u32" where
  "software_byte crc byte =
     TABLES ! 0 ! unat ((crc XOR ucast byte) AND 0xFF) XOR drop_bit 8 crc"

fun software_loop :: "u32 \<Rightarrow> bytes \<Rightarrow> u32" where
  "software_loop crc bs =
     (if 8 \<le> length bs then software_loop (software_step crc (take 8 bs)) (drop 8 bs)
      else foldl software_byte crc bs)"

declare software_loop.simps [simp del]

definition software :: "u32 \<Rightarrow> bytes \<Rightarrow> u32" where
  "software crc bs = NOT (software_loop (NOT crc) bs)"

section \<open>The instructions\<close>

text \<open>
  The processors' instructions accumulate the same checksum, without the inversion at either end: a
  byte at a time, or the eight bytes of a 64-bit operand from its low end, as their manuals define
  them. The 64-bit form on x86 has a 64-bit accumulator with the checksum in its low half.
\<close>

definition crc_byte :: "u32 \<Rightarrow> u8 \<Rightarrow> u32" where
  "crc_byte crc byte = crc_bits 8 (crc XOR ucast byte)"

definition mm_crc32_u64 :: "u64 \<Rightarrow> u64 \<Rightarrow> u64" where
  "mm_crc32_u64 crc v = ucast (foldl crc_byte (ucast crc) (le_bytes 8 v))"

definition arm_crc32cd :: "u32 \<Rightarrow> u64 \<Rightarrow> u32" where
  "arm_crc32cd crc v = foldl crc_byte crc (le_bytes 8 v)"

fun x86_loop :: "u64 \<Rightarrow> bytes \<Rightarrow> u32" where
  "x86_loop wide bs =
     (if 8 \<le> length bs then x86_loop (mm_crc32_u64 wide (le_word (take 8 bs))) (drop 8 bs)
      else foldl crc_byte (ucast wide) bs)"

fun arm_loop :: "u32 \<Rightarrow> bytes \<Rightarrow> u32" where
  "arm_loop crc bs =
     (if 8 \<le> length bs then arm_loop (arm_crc32cd crc (le_word (take 8 bs))) (drop 8 bs)
      else foldl crc_byte crc bs)"

declare x86_loop.simps [simp del] arm_loop.simps [simp del]

definition hardware_x86 :: "u32 \<Rightarrow> bytes \<Rightarrow> u32" where
  "hardware_x86 crc bs = NOT (x86_loop (ucast (NOT crc)) bs)"

definition hardware_arm :: "u32 \<Rightarrow> bytes \<Rightarrow> u32" where
  "hardware_arm crc bs = NOT (arm_loop (NOT crc) bs)"

text \<open>The machine the code runs on: its architecture and whether the feature check finds the
  instruction.\<close>

datatype machine = X86_64 bool | Aarch64 bool | Other_arch

definition crc32c_extend :: "machine \<Rightarrow> u32 \<Rightarrow> bytes \<Rightarrow> u32 option" where
  "crc32c_extend m crc bs =
     (case m of X86_64 sse42 \<Rightarrow> if sse42 then Some (hardware_x86 crc bs) else None
      | Aarch64 has_crc \<Rightarrow> if has_crc then Some (hardware_arm crc bs) else None
      | Other_arch \<Rightarrow> None)"

definition extend :: "machine \<Rightarrow> u32 \<Rightarrow> bytes \<Rightarrow> u32" where
  "extend m crc bs = (case crc32c_extend m crc bs of Some c \<Rightarrow> c | None \<Rightarrow> software crc bs)"

definition crc32c :: "machine \<Rightarrow> bytes \<Rightarrow> u32" where
  "crc32c m bs = extend m 0 bs"

section \<open>The reference\<close>

definition crc_ref :: "u32 \<Rightarrow> bytes \<Rightarrow> u32" where
  "crc_ref crc bs = NOT (foldl crc_byte (NOT crc) bs)"

subsection \<open>A step of one bit is linear and injective\<close>

lemma crc_bit_alt: "crc_bit c = drop_bit 1 c XOR (if bit c 0 then POLY else 0)"
  by (simp add: crc_bit_def and_one_eq bit_0 odd_iff_mod_2_eq_one)

lemma crc_bit_xor: "crc_bit (a XOR b) = crc_bit a XOR crc_bit b"
  by (rule bit_word_eqI)
    (auto simp: crc_bit_alt bit_xor_iff bit_drop_bit_eq)

lemma crc_bits_xor: "crc_bits n (a XOR b) = crc_bits n a XOR crc_bits n b"
  by (induction n) (simp_all add: crc_bits_def crc_bit_xor)

lemma crc_bit_zero [simp]: "crc_bit 0 = 0"
  by (simp add: crc_bit_def)

lemma crc_bit_eq_0: "crc_bit c = 0 \<Longrightarrow> c = 0"
proof (rule ccontr)
  assume "crc_bit c = 0" and "c \<noteq> 0"
  show False
  proof (cases "bit c 0")
    case True
    with \<open>crc_bit c = 0\<close> have "drop_bit 1 c XOR POLY = 0" by (simp add: crc_bit_alt)
    then have "drop_bit 1 c = POLY" by (simp add: word_xor_eq_0)
    moreover have "bit POLY 31" by (simp add: POLY_def)
    ultimately have "bit (drop_bit 1 c) 31" by (simp only:)
    then show False using bit_imp_le_length [of c 32] by (simp add: bit_drop_bit_eq)
  next
    case False
    with \<open>crc_bit c = 0\<close> have "drop_bit 1 c = 0" by (simp add: crc_bit_alt)
    then have "bit (drop_bit 1 c) i = bit (0 :: u32) i" for i by simp
    then have "\<not> bit c (Suc i)" for i by (simp add: bit_drop_bit_eq)
    with False have "\<not> bit c i" for i by (cases i) auto
    with \<open>c \<noteq> 0\<close> show False by (simp add: bit_eq_iff)
  qed
qed

lemma crc_bit_inj: "crc_bit a = crc_bit b \<Longrightarrow> a = b"
proof -
  assume "crc_bit a = crc_bit b"
  then have "crc_bit (a XOR b) = 0" by (simp add: crc_bit_xor)
  then have "a XOR b = 0" by (rule crc_bit_eq_0)
  then show ?thesis by (simp add: word_xor_eq_0)
qed

lemma crc_bits_inj: "crc_bits n a = crc_bits n b \<longleftrightarrow> a = b"
  by (induction n) (auto simp: crc_bits_def dest: crc_bit_inj)

subsection \<open>Shifting a byte out\<close>

lemma crc_bits_add: "crc_bits m (crc_bits n c) = crc_bits (m + n) c"
  by (simp add: crc_bits_def funpow_add)

lemma crc_bits_push:
  assumes "n \<le> m" and "n \<le> 32" and "take_bit (32 - n) c = c"
  shows "crc_bits m (push_bit n c) = crc_bits (m - n) c"
  using assms
proof (induction n arbitrary: m)
  case 0
  then show ?case by (simp add: crc_bits_def)
next
  case (Suc n)
  have top: "take_bit (32 - n) c = c"
  proof -
    have "take_bit (32 - n) (take_bit (32 - Suc n) c) = take_bit (32 - Suc n) c"
      by (simp add: take_bit_take_bit)
    then show ?thesis by (simp only: Suc.prems(3))
  qed
  have "drop_bit 1 (push_bit (Suc n) c) = push_bit n c"
  proof (rule bit_word_eqI)
    fix i assume "i < LENGTH(32)"
    have "\<not> bit c (32 - Suc n)"
      using arg_cong [OF Suc.prems(3), of "\<lambda>c. bit c (32 - Suc n)"] by (simp add: bit_take_bit_iff)
    then show "bit (drop_bit 1 (push_bit (Suc n) c)) i = bit (push_bit n c) i"
      using \<open>i < LENGTH(32)\<close> Suc.prems(2)
      by (cases "i = 31") (auto simp: bit_drop_bit_eq bit_push_bit_iff simp del: push_bit_Suc)
  qed
  moreover have "\<not> bit (push_bit (Suc n) c) 0" by (simp add: bit_push_bit_iff del: push_bit_Suc)
  ultimately have step: "crc_bit (push_bit (Suc n) c) = push_bit n c" by (simp add: crc_bit_alt)
  obtain k where k: "m = Suc k" using Suc.prems(1) by (cases m) auto
  have "crc_bits m (push_bit (Suc n) c) = crc_bits k (push_bit n c)"
    by (simp add: k crc_bits_def funpow_swap1 step del: push_bit_Suc)
  also have "\<dots> = crc_bits (k - n) c" using Suc k top by simp
  finally show ?case by (simp add: k)
qed

lemma bit_FF: "bit (0xFF :: int) i \<longleftrightarrow> i < 8"
proof -
  have "(0xFF :: int) = mask 8" by (simp add: mask_eq_exp_minus_1)
  then show ?thesis by (simp only: bit_mask_iff) simp
qed

lemma take_bit_drop_top: "take_bit (32 - n) (drop_bit n c) = drop_bit n (c :: u32)"
proof (rule bit_word_eqI)
  fix i assume "i < LENGTH(32)"
  have "bit c (n + i) \<Longrightarrow> n + i < 32" by (auto dest: bit_imp_le_length)
  then show "bit (take_bit (32 - n) (drop_bit n c)) i = bit (drop_bit n c) i"
    by (auto simp: bit_take_bit_iff bit_drop_bit_eq)
qed

lemma crc_bits_0 [simp]: "crc_bits 0 c = c"
  by (simp add: crc_bits_def)

lemma crc_byte_split: "crc_bits 8 c = crc_bits 8 (c AND 0xFF) XOR drop_bit 8 c"
proof -
  have "crc_bits 8 c = crc_bits 8 ((c AND 0xFF) XOR push_bit 8 (drop_bit 8 c))"
    by (rule arg_cong [where f = "crc_bits 8"], rule bit_word_eqI)
      (auto simp: bit_xor_iff bit_and_iff bit_push_bit_iff bit_drop_bit_eq bit_FF)
  also have "\<dots> = crc_bits 8 (c AND 0xFF) XOR drop_bit 8 c"
    using crc_bits_push [of 8 8 "drop_bit 8 c"] take_bit_drop_top [of 8 c]
    by (simp add: crc_bits_xor)
  finally show ?thesis .
qed

section \<open>The tables compute the reference\<close>

lemma unat_FF: "unat (c AND 0xFF :: u32) < 256"
proof -
  have "c AND 0xFF \<le> (0xFF :: u32)" by (rule word_and_le1)
  then have "unat (c AND 0xFF) \<le> unat (0xFF :: u32)" by (rule word_le_nat_alt [THEN iffD1])
  then show ?thesis by simp
qed

lemma unat_top: "unat (drop_bit 24 c :: u32) < 256"
proof -
  have "drop_bit 24 c = take_bit 8 (drop_bit 24 c)" using take_bit_drop_top [of 24 c] by simp
  then have "unat (drop_bit 24 c) = unat (take_bit 8 (drop_bit 24 c))" by (rule arg_cong)
  also have "\<dots> = take_bit 8 (unat (drop_bit 24 c))" by (rule unsigned_take_bit_eq)
  also have "\<dots> < 2 ^ 8" by (rule take_bit_nat_less_exp)
  finally show ?thesis by simp
qed

lemma length_table_row [simp]: "length (table_row k) = 256"
  by (induction k) simp_all

lemma table_row_0: "i < 256 \<Longrightarrow> table_row 0 ! i = crc_bits 8 (of_nat i)"
  by simp

lemma table_row_nth: "i < 256 \<Longrightarrow> table_row k ! i = crc_bits (8 * Suc k) (of_nat i)"
proof (induction k)
  case 0
  then show ?case using table_row_0 by simp
next
  case (Suc k)
  let ?p = "crc_bits (8 * Suc k) (of_nat i)"
  have "table_row (Suc k) ! i = drop_bit 8 ?p XOR table_row 0 ! unat (?p AND 0xFF)"
    using Suc by (simp del: table_row.simps(1) mult_Suc_right)
  also have "\<dots> = crc_bits 8 ?p"
    using crc_byte_split [of ?p] table_row_0 [OF unat_FF]
    by (simp add: xor.commute del: table_row.simps mult_Suc_right)
  also have "\<dots> = crc_bits (8 * Suc (Suc k)) (of_nat i)"
    by (simp add: crc_bits_add)
  finally show ?case .
qed

lemma TABLES_nth: "k < 8 \<Longrightarrow> i < 256 \<Longrightarrow> TABLES ! k ! i = crc_bits (8 * Suc k) (of_nat i)"
  by (simp add: TABLES_def table_row_nth del: mult_Suc_right)

lemma TABLES_low: "k < 8 \<Longrightarrow> TABLES ! k ! unat (c AND 0xFF) = crc_bits (8 * Suc k) (c AND 0xFF)"
  by (simp add: TABLES_nth unat_FF del: mult_Suc_right)

lemma TABLES_top: "k < 8 \<Longrightarrow> TABLES ! k ! unat (drop_bit 24 c) = crc_bits (8 * Suc k) (drop_bit 24 c)"
  by (simp add: TABLES_nth unat_top del: mult_Suc_right)

lemma software_byte_eq: "software_byte crc b = crc_byte crc b"
proof -
  have "drop_bit 8 (crc XOR ucast b) = drop_bit 8 crc"
    by (rule bit_word_eqI)
      (auto simp: bit_drop_bit_eq bit_xor_iff bit_ucast_iff dest: bit_imp_le_length)
  then show ?thesis
    using crc_byte_split [of "crc XOR ucast b"]
    by (simp add: software_byte_def crc_byte_def TABLES_low)
qed

text \<open>The four bytes of a word, taken apart and shifted out one after another.\<close>

lemma and_FF: "(c AND 0xFF :: u32) = take_bit 8 c"
  by (rule bit_word_eqI) (auto simp: bit_take_bit_iff bit_and_iff bit_FF)

lemma word_of_four:
  "c = (c AND 0xFF) XOR push_bit 8 (drop_bit 8 c AND 0xFF) XOR push_bit 16 (drop_bit 16 c AND 0xFF)
     XOR push_bit 24 (drop_bit 24 c :: u32)"
  unfolding and_FF
  by (rule bit_word_eqI)
    (auto simp: bit_xor_iff bit_take_bit_iff bit_push_bit_iff bit_drop_bit_eq)

lemma take_bit_FF: "8 \<le> n \<Longrightarrow> take_bit n (c AND 0xFF) = (c AND 0xFF :: u32)"
  unfolding and_FF by (simp add: min_def)

lemma crc_bits_four:
  assumes "32 \<le> n"
  shows "crc_bits n c = crc_bits n (c AND 0xFF) XOR crc_bits (n - 8) (drop_bit 8 c AND 0xFF)
    XOR crc_bits (n - 16) (drop_bit 16 c AND 0xFF) XOR crc_bits (n - 24) (drop_bit 24 c)"
proof -
  have "crc_bits n (push_bit 8 (drop_bit 8 c AND 0xFF)) = crc_bits (n - 8) (drop_bit 8 c AND 0xFF)"
    using assms by (intro crc_bits_push) (simp_all add: take_bit_FF del: take_bit_and)
  moreover have "crc_bits n (push_bit 16 (drop_bit 16 c AND 0xFF))
      = crc_bits (n - 16) (drop_bit 16 c AND 0xFF)"
    using assms by (intro crc_bits_push) (simp_all add: take_bit_FF del: take_bit_and)
  moreover have "crc_bits n (push_bit 24 (drop_bit 24 c)) = crc_bits (n - 24) (drop_bit 24 c)"
    using assms take_bit_drop_top [of 24 c] by (intro crc_bits_push) simp_all
  ultimately show ?thesis
    by (subst word_of_four) (simp only: crc_bits_xor)
qed

lemma le_word_Cons_xor: "(le_word (b # bs) :: u32) = ucast b XOR push_bit 8 (le_word bs)"
  by (rule bit_word_eqI)
    (auto simp: bit_or_iff bit_xor_iff bit_push_bit_iff bit_ucast_iff dest: bit_imp_le_length)

lemma take_bit_le_word:
  "8 * length bs \<le> n \<Longrightarrow> take_bit n (le_word bs :: u32) = le_word bs"
  by (rule bit_word_eqI) (auto simp: bit_take_bit_iff bit_le_word)

lemma foldl_crc_byte_word:
  "length bs \<le> 4 \<Longrightarrow> foldl crc_byte c bs = crc_bits (8 * length bs) (c XOR le_word bs)"
proof (induction bs arbitrary: c)
  case Nil
  then show ?case by simp
next
  case (Cons b bs)
  have "crc_bits 8 (push_bit 8 (le_word bs)) = (le_word bs :: u32)"
    using Cons.prems by (subst crc_bits_push) (simp_all add: take_bit_le_word)
  then have "crc_bits 8 (c XOR le_word (b # bs)) = crc_byte c b XOR le_word bs"
    by (simp add: le_word_Cons_xor crc_byte_def xor.assoc [symmetric] crc_bits_xor del: le_word.simps)
  then have "crc_bits (8 * length bs) (crc_byte c b XOR le_word bs)
      = crc_bits (8 * length bs + 8) (c XOR le_word (b # bs))"
    by (metis crc_bits_add)
  then show ?case using Cons by (simp add: add.commute del: le_word.simps)
qed

lemma software_step_eq:
  assumes "length bs = 8"
  shows "software_step c bs = foldl crc_byte c bs"
proof -
  define low where "low = le_word (slice bs 0 4) XOR c"
  define high where "high = (le_word (slice bs 4 8) :: u32)"
  have "bs = slice bs 0 4 @ slice bs 4 8" using assms by (simp add: slice_def)
  then have "foldl crc_byte c bs = foldl crc_byte (foldl crc_byte c (slice bs 0 4)) (slice bs 4 8)"
    by (metis foldl_append)
  also have "\<dots> = crc_bits 32 (crc_bits 32 low XOR high)"
    using assms by (simp add: foldl_crc_byte_word low_def high_def xor.commute [of c])
  also have "\<dots> = crc_bits 64 low XOR crc_bits 32 high"
    by (simp add: crc_bits_xor crc_bits_add)
  also have "\<dots> = software_step c bs"
    unfolding software_step_def Let_def low_def [symmetric] high_def [symmetric]
      crc_bits_four [of 64 low, simplified] crc_bits_four [of 32 high, simplified]
    by (simp only: TABLES_low [of 7, simplified] TABLES_low [of 6, simplified]
        TABLES_low [of 5, simplified] TABLES_top [of 4, simplified] TABLES_low [of 3, simplified]
        TABLES_low [of 2, simplified] TABLES_low [of 1, simplified] TABLES_top [of 0, simplified]
        xor.assoc One_nat_def)
  finally show ?thesis by simp
qed

lemma foldl_eight: "foldl f (foldl f c (take 8 bs)) (drop 8 bs) = foldl f c bs"
  by (metis append_take_drop_id foldl_append)

lemma software_loop_eq: "software_loop c bs = foldl crc_byte c bs"
proof (induction c bs rule: software_loop.induct)
  case (1 c bs)
  have "foldl software_byte c bs = foldl crc_byte c bs"
    by (rule foldl_cong) (simp_all add: software_byte_eq)
  with 1 show ?case
    by (cases "8 \<le> length bs"; subst software_loop.simps) (simp_all add: software_step_eq foldl_eight)
qed

section \<open>The instructions compute the reference\<close>

lemma le_bytes_eight: "length bs = 8 \<Longrightarrow> le_bytes 8 (le_word bs :: u64) = bs"
  using le_bytes_le_word [where 'a = 64, of bs] by simp

lemma ucast_up_down: "ucast (ucast (c :: u32) :: u64) = c"
  by (simp add: ucast_up_ucast_id is_up)

lemma arm_loop_eq: "arm_loop c bs = foldl crc_byte c bs"
proof (induction c bs rule: arm_loop.induct)
  case (1 c bs)
  then show ?case
    by (cases "8 \<le> length bs"; subst arm_loop.simps)
      (simp_all add: arm_crc32cd_def le_bytes_eight foldl_eight)
qed

lemma x86_loop_eq: "x86_loop w bs = foldl crc_byte (ucast w) bs"
proof (induction w bs rule: x86_loop.induct)
  case (1 w bs)
  then show ?case
    by (cases "8 \<le> length bs"; subst x86_loop.simps)
      (simp_all add: mm_crc32_u64_def le_bytes_eight foldl_eight ucast_up_down)
qed

section \<open>The checksum\<close>

lemma extend_ref: "extend m c bs = crc_ref c bs"
  by (cases m)
    (simp_all add: extend_def crc32c_extend_def software_def hardware_x86_def hardware_arm_def
      crc_ref_def software_loop_eq x86_loop_eq arm_loop_eq ucast_up_down)

lemma extend_machine: "extend m = extend m'"
  by (simp add: fun_eq_iff extend_ref)

lemma crc_byte_inj: "crc_byte c b = crc_byte d b \<longleftrightarrow> c = d"
  by (simp add: crc_byte_def crc_bits_inj word_xor_cancel)

lemma foldl_crc_byte_inj: "foldl crc_byte c bs = foldl crc_byte d bs \<longleftrightarrow> c = d"
  by (induction bs arbitrary: c d) (simp_all add: crc_byte_inj)

interpretation crc: checksum "extend m"
proof
  show "extend m c [] = c" for c by (simp add: extend_ref crc_ref_def)
  show "extend m c (xs @ ys) = extend m (extend m c xs) ys" for c xs ys
    by (simp add: extend_ref crc_ref_def)
  show "c = d" if "extend m c xs = extend m d xs" for c d xs
    using that by (simp add: extend_ref crc_ref_def foldl_crc_byte_inj)
  show "a = b" if "extend m c [a] = extend m c [b]" for c a b
    using that by (simp add: extend_ref crc_ref_def crc_byte_def crc_bits_inj word_xor_cancel ucast_u8_inj)
qed

end
