(* ===== verification/LogFormat.thy ===== *)
theory LogFormat
  imports Interfaces
begin

text \<open>
  The bytes of the log: \<open>rudb-txn/src/log/format.rs\<close>. A segment opens with a header of 4 KiB, and
  records follow it, each a header of 20 bytes, a payload, and zeros to the next 8 byte boundary.
  The checksum is an argument, \<open>ext\<close>: what it computes does not matter to the format, only that it
  is a \<^const>\<open>checksum\<close>. The central fact is that decoding accepts exactly what encoding writes
  (\<open>decode_record_iff\<close>, \<open>SegmentHeader_decode_iff\<close>, \<open>Commit_decode_iff\<close>); the round trips, that a
  record of another segment fails and that a damaged one fails are drawn from it.
\<close>

type_synonym sum32 = "u32 \<Rightarrow> bytes \<Rightarrow> u32"

section \<open>Definitions\<close>

definition SEGMENT_MAGIC :: bytes where
  "SEGMENT_MAGIC = [0x52, 0x55, 0x44, 0x42, 0x4C, 0x4F, 0x47, 0x31]"

definition SEGMENT_VERSION :: u32 where
  "SEGMENT_VERSION = 1"

definition SEGMENT_HEADER :: nat where
  "SEGMENT_HEADER = 4096"

definition RECORD_HEADER :: nat where
  "RECORD_HEADER = 20"

definition RECORD_ALIGN :: nat where
  "RECORD_ALIGN = 8"

definition SPILLED :: u16 where
  "SPILLED = 1"

definition RANGE :: u16 where
  "RANGE = push_bit 1 1"

definition LZ4 :: u16 where
  "LZ4 = push_bit 2 1"

datatype Kind = Insert | Update | Delta | Delete | Commit | Attach | Ddl | Checkpoint

fun Kind_byte :: "Kind \<Rightarrow> u8" where
  "Kind_byte Insert = 1"
| "Kind_byte Update = 2"
| "Kind_byte Delta = 3"
| "Kind_byte Delete = 4"
| "Kind_byte Commit = 5"
| "Kind_byte Attach = 6"
| "Kind_byte Ddl = 7"
| "Kind_byte Checkpoint = 8"

definition Kind_of :: "u8 \<Rightarrow> Kind option" where
  "Kind_of byte =
     (if byte = 1 then Some Insert else if byte = 2 then Some Update
      else if byte = 3 then Some Delta else if byte = 4 then Some Delete
      else if byte = 5 then Some Commit else if byte = 6 then Some Attach
      else if byte = 7 then Some Ddl else if byte = 8 then Some Checkpoint
      else None)"

definition seed :: "u64 \<Rightarrow> u32" where
  "seed sequence = ucast sequence XOR ucast (drop_bit 32 sequence)"

text \<open>\<open>word_at\<close> and \<open>half_at\<close>: every caller has checked that the bytes are there.\<close>

definition word_at :: "bytes \<Rightarrow> nat \<Rightarrow> u64" where
  "word_at bs at = le_word (slice bs at (at + 8))"

definition half_at :: "bytes \<Rightarrow> nat \<Rightarrow> u32" where
  "half_at bs at = le_word (slice bs at (at + 4))"

record SegmentHeader =
  sh_lane :: u8
  sh_sequence :: u64
  sh_database :: u64

definition SegmentHeader_encode :: "sum32 \<Rightarrow> SegmentHeader \<Rightarrow> bytes" where
  "SegmentHeader_encode ext h =
     (let bs = replicate SEGMENT_HEADER 0;
          bs = copy_at bs 0 SEGMENT_MAGIC;
          bs = copy_at bs 8 (le_bytes 4 SEGMENT_VERSION);
          bs = bs[12 := sh_lane h];
          bs = copy_at bs 16 (le_bytes 8 (sh_sequence h));
          bs = copy_at bs 24 (le_bytes 8 (sh_database h));
          crc = ext 0 (slice bs 0 40)
      in copy_at bs 40 (le_bytes 4 crc))"

definition SegmentHeader_decode :: "sum32 \<Rightarrow> bytes \<Rightarrow> SegmentHeader option" where
  "SegmentHeader_decode ext bs =
     (case get_range bs 0 SEGMENT_HEADER of
        None \<Rightarrow> None
      | Some bs \<Rightarrow>
          (let sound = slice bs 0 8 = SEGMENT_MAGIC
                 \<and> half_at bs 8 = SEGMENT_VERSION
                 \<and> slice bs 13 16 = replicate 3 0
                 \<and> word_at bs 32 = 0
                 \<and> half_at bs 40 = ext 0 (slice bs 0 40)
                 \<and> list_all (\<lambda>b. b = 0) (drop 44 bs)
           in if sound
              then Some \<lparr>sh_lane = bs ! 12, sh_sequence = word_at bs 16, sh_database = word_at bs 24\<rparr>
              else None))"

record RecordHeader =
  rh_kind :: Kind
  rh_lane :: u8
  rh_flags :: u16
  rh_gsn :: u64

definition record_bytes :: "nat \<Rightarrow> nat" where
  "record_bytes len = next_multiple_of (RECORD_HEADER + len) RECORD_ALIGN"

text \<open>\<open>None\<close> is the panic on a payload of 4 GiB or more.\<close>

definition encode_record ::
  "sum32 \<Rightarrow> bytes \<Rightarrow> RecordHeader \<Rightarrow> bytes \<Rightarrow> u32 \<Rightarrow> bytes option" where
  "encode_record ext out header payload sd =
     (if 2 ^ 32 \<le> length payload then None
      else
        (let len = (of_nat (length payload) :: u32);
             start = length out;
             out = out @ le_bytes 4 len;
             out = out @ [Kind_byte (rh_kind header)];
             out = out @ [rh_lane header];
             out = out @ le_bytes 2 (rh_flags header);
             out = out @ le_bytes 8 (rh_gsn header);
             crc = ext (ext sd (slice out start (start + 16))) payload;
             out = out @ le_bytes 4 crc;
             out = out @ payload
         in Some (resize out (start + record_bytes (length payload)) 0)))"

definition decode_record ::
  "sum32 \<Rightarrow> bytes \<Rightarrow> u32 \<Rightarrow> (RecordHeader \<times> bytes \<times> nat) option" where
  "decode_record ext bs sd =
     (case get_range bs 0 RECORD_HEADER of None \<Rightarrow> None
      | Some head \<Rightarrow>
     (let len = unat (half_at head 0) in
      case Kind_of (head ! 4) of None \<Rightarrow> None
      | Some kind \<Rightarrow>
     (let flags = le_word [head ! 6, head ! 7];
          gsn = word_at head 8;
          crc = half_at head 16;
          whole_len = record_bytes len in
      case get_range bs RECORD_HEADER (RECORD_HEADER + len) of None \<Rightarrow> None
      | Some payload \<Rightarrow>
     (case get_range bs (RECORD_HEADER + len) whole_len of None \<Rightarrow> None
      | Some padding \<Rightarrow>
          if list_ex (\<lambda>b. b \<noteq> 0) padding \<or> ext (ext sd (slice head 0 16)) payload \<noteq> crc
          then None
          else Some (\<lparr>rh_kind = kind, rh_lane = head ! 5, rh_flags = flags, rh_gsn = gsn\<rparr>,
                     payload, whole_len)))))"

record CommitPayload =
  c_txn :: u64
  c_commit_ts :: u64
  c_dep_ts :: u64
  c_records :: u32
  c_bytes :: u64

definition Commit_LEN :: nat where
  "Commit_LEN = 36"

definition Commit_encode :: "CommitPayload \<Rightarrow> bytes" where
  "Commit_encode c =
     (let out = replicate Commit_LEN 0;
          out = copy_at out 0 (le_bytes 8 (c_txn c));
          out = copy_at out 8 (le_bytes 8 (c_commit_ts c));
          out = copy_at out 16 (le_bytes 8 (c_dep_ts c));
          out = copy_at out 24 (le_bytes 4 (c_records c))
      in copy_at out 28 (le_bytes 8 (c_bytes c)))"

definition Commit_decode :: "bytes \<Rightarrow> CommitPayload option" where
  "Commit_decode bs =
     (if length bs \<noteq> Commit_LEN then None
      else Some \<lparr>c_txn = word_at bs 0, c_commit_ts = word_at bs 8, c_dep_ts = word_at bs 16,
                 c_records = half_at bs 24, c_bytes = word_at bs 28\<rparr>)"

record Checkpointed =
  ck_table :: u32
  ck_stripe :: u32
  ck_c_s :: u64
  ck_root :: u64
  ck_generation :: u64

definition Checkpointed_LEN :: nat where
  "Checkpointed_LEN = 32"

definition Checkpointed_entry :: "Checkpointed \<Rightarrow> bytes" where
  "Checkpointed_entry e =
     le_bytes 4 (ck_table e) @ le_bytes 4 (ck_stripe e) @ le_bytes 8 (ck_c_s e)
       @ le_bytes 8 (ck_root e) @ le_bytes 8 (ck_generation e)"

text \<open>\<open>None\<close> is the panic on more entries than a \<open>u32\<close> counts.\<close>

definition Checkpointed_encode :: "Checkpointed list \<Rightarrow> bytes option" where
  "Checkpointed_encode entries =
     (if 2 ^ 32 \<le> length entries then None
      else Some (le_bytes 4 (of_nat (length entries) :: u32) @ replicate 4 0
                 @ concat (map Checkpointed_entry entries)))"

text \<open>\<open>slice::chunks_exact\<close>: the remainder short of a chunk is left out.\<close>

function chunks_exact :: "nat \<Rightarrow> 'a list \<Rightarrow> 'a list list" where
  "chunks_exact n xs =
     (if n = 0 \<or> length xs < n then [] else take n xs # chunks_exact n (drop n xs))"
  by auto
termination by (relation "measure (\<lambda>(n, xs). length xs)") auto

declare chunks_exact.simps [simp del]

definition Checkpointed_of_entry :: "bytes \<Rightarrow> Checkpointed" where
  "Checkpointed_of_entry entry =
     \<lparr>ck_table = half_at entry 0, ck_stripe = half_at entry 4, ck_c_s = word_at entry 8,
      ck_root = word_at entry 16, ck_generation = word_at entry 24\<rparr>"

definition Checkpointed_decode :: "bytes \<Rightarrow> Checkpointed list option" where
  "Checkpointed_decode bs =
     (if length bs < 8 then None
      else
        (let count = unat (half_at bs 0) in
         if 2 ^ 64 \<le> count * Checkpointed_LEN then None
         else if length bs - 8 \<noteq> count * Checkpointed_LEN then None
         else Some (map Checkpointed_of_entry (chunks_exact Checkpointed_LEN (drop 8 bs)))))"

section \<open>Fields\<close>

lemma Kind_of_byte [simp]: "Kind_of (Kind_byte k) = Some k"
  by (cases k) (simp_all add: Kind_of_def)

lemma Kind_of_eq_Some: "Kind_of b = Some k \<longleftrightarrow> b = Kind_byte k"
  by (cases k) (auto simp: Kind_of_def split: if_splits)

lemma Kind_of_0 [simp]: "Kind_of 0 = None"
  by (simp add: Kind_of_def)

lemma record_bytes_ge: "RECORD_HEADER + len \<le> record_bytes len"
  by (simp add: record_bytes_def next_multiple_of_ge)

lemma record_bytes_aligned: "8 dvd record_bytes len"
  by (simp add: record_bytes_def RECORD_ALIGN_def next_multiple_of_dvd)

lemma record_bytes_lt: "record_bytes len < RECORD_HEADER + len + 8"
  using next_multiple_of_lt [of 8 "RECORD_HEADER + len"] by (simp add: record_bytes_def RECORD_ALIGN_def)

lemma word_at_field [codec_simps]:
  "length pre = at \<Longrightarrow> word_at (pre @ le_bytes 8 w @ post) at = w"
  by (simp add: word_at_def slice_def)

lemma half_at_field [codec_simps]:
  "length pre = at \<Longrightarrow> half_at (pre @ le_bytes 4 w @ post) at = w"
  by (simp add: half_at_def slice_def)

lemma le_bytes_word_at: "at + 8 \<le> length bs \<Longrightarrow> le_bytes 8 (word_at bs at) = slice bs at (at + 8)"
  by (simp add: word_at_def le_bytes_slice)

lemma le_bytes_half_at: "at + 4 \<le> length bs \<Longrightarrow> le_bytes 4 (half_at bs at) = slice bs at (at + 4)"
  by (simp add: half_at_def le_bytes_slice)

section \<open>Records\<close>

text \<open>The first 16 bytes of a record, which its checksum covers, and the record whole.\<close>

definition record_fields :: "RecordHeader \<Rightarrow> u32 \<Rightarrow> bytes" where
  "record_fields h len =
     le_bytes 4 len @ Kind_byte (rh_kind h) # rh_lane h # le_bytes 2 (rh_flags h) @ le_bytes 8 (rh_gsn h)"

definition record_image :: "sum32 \<Rightarrow> RecordHeader \<Rightarrow> bytes \<Rightarrow> u32 \<Rightarrow> bytes" where
  "record_image ext h p sd =
     (let fields = record_fields h (of_nat (length p))
      in fields @ le_bytes 4 (ext (ext sd fields) p) @ p
           @ replicate (record_bytes (length p) - (RECORD_HEADER + length p)) 0)"

lemma length_record_fields [simp]: "length (record_fields h len) = 16"
  by (simp add: record_fields_def)

lemma length_record_image [simp]: "length (record_image ext h p sd) = record_bytes (length p)"
  using record_bytes_ge [of "length p"] by (simp add: record_image_def RECORD_HEADER_def Let_def)

lemma encode_record_eq:
  "length p < 2 ^ 32 \<Longrightarrow> encode_record ext out h p sd = Some (out @ record_image ext h p sd)"
  using record_bytes_ge [of "length p"]
  by (simp add: encode_record_def record_image_def record_fields_def resize_def Let_def
      RECORD_HEADER_def slice_def)

text \<open>The parts of the header read back from a record with anything after it.\<close>

lemma record_head:
  assumes "length p < 2 ^ 32" and "head = take 20 (record_image ext h p sd @ rest)"
  shows "unat (half_at head 0) = length p" and "head ! 4 = Kind_byte (rh_kind h)"
    and "head ! 5 = rh_lane h" and "le_word [head ! 6, head ! 7] = rh_flags h"
    and "word_at head 8 = rh_gsn h"
    and "half_at head 16 = ext (ext sd (record_fields h (of_nat (length p)))) p"
    and "slice head 0 16 = record_fields h (of_nat (length p))"
proof -
  let ?f = "record_fields h (of_nat (length p))"
  have head: "head = ?f @ le_bytes 4 (ext (ext sd ?f) p)"
    by (simp add: assms(2) record_image_def Let_def)
  show "unat (half_at head 0) = length p"
    using assms(1) half_at_field [of "[]" 0 "of_nat (length p)"]
    by (simp add: head record_fields_def unat_of_nat)
  show "head ! 4 = Kind_byte (rh_kind h)" "head ! 5 = rh_lane h"
    by (simp_all add: head record_fields_def nth_append)
  have "[head ! 6, head ! 7] = le_bytes 2 (rh_flags h)"
    by (rule nth_equalityI) (auto simp: head record_fields_def nth_append less_Suc_eq numeral_2_eq_2)
  then show "le_word [head ! 6, head ! 7] = rh_flags h" by simp
  show "word_at head 8 = rh_gsn h"
    using word_at_field [of "take 8 ?f" 8 "rh_gsn h"] by (simp add: head record_fields_def)
  show "half_at head 16 = ext (ext sd ?f) p"
    using half_at_field [of ?f 16 _ "[]"] by (simp add: head)
  show "slice head 0 16 = ?f" by (simp add: head)
qed

lemma decode_record_image:
  assumes "length p < 2 ^ 32"
  shows "decode_record ext (record_image ext h p sd @ rest) sd = Some (h, p, record_bytes (length p))"
proof -
  let ?bs = "record_image ext h p sd @ rest"
  note parts = record_head [OF assms refl, where ext = ext and h = h and sd = sd and rest = rest]
  have ge: "20 + length p \<le> record_bytes (length p)"
    using record_bytes_ge [of "length p"] by (simp add: RECORD_HEADER_def)
  have payload: "slice ?bs 20 (20 + length p) = p"
    by (simp add: slice_def record_image_def Let_def)
  have padding: "set (slice ?bs (20 + length p) (record_bytes (length p))) \<subseteq> {0}"
    using ge by (auto simp: slice_def record_image_def Let_def RECORD_HEADER_def)
  have "take 20 ?bs = slice ?bs 0 20" by simp
  then show ?thesis
    using ge padding parts payload
    by (auto simp: decode_record_def get_range_def RECORD_HEADER_def Let_def list_ex_iff simp del: take_append)
qed

lemma image_of_head:
  assumes len: "20 \<le> length bs" and kind: "bs ! 4 = Kind_byte k"
    and h: "h = \<lparr>rh_kind = k, rh_lane = bs ! 5, rh_flags = le_word [bs ! 6, bs ! 7],
                rh_gsn = word_at bs 8\<rparr>"
  shows "record_fields h (half_at bs 0) = take 16 bs"
proof -
  have "le_bytes 2 (le_word [bs ! 6, bs ! 7] :: u16) = slice bs 6 8"
    using le_bytes_le_word [where 'a = 16, of "[bs ! 6, bs ! 7]"] len
    by (simp add: slice_def numeral_2_eq_2 take_Suc_conv_app_nth)
  moreover have "bs ! 4 # bs ! 5 # slice bs 6 8 = slice bs 4 8"
    using len slice_split [of 4 5 8 bs] slice_split [of 5 6 8 bs] slice_one [of 4 bs] slice_one [of 5 bs]
    by simp
  ultimately have "record_fields h (half_at bs 0) = slice bs 0 4 @ slice bs 4 8 @ slice bs 8 16"
    using len le_bytes_half_at [of 0 bs] le_bytes_word_at [of 8 bs]
    by (simp add: record_fields_def h kind [symmetric])
  then show ?thesis
    using slice_split [of 0 4 16 bs] slice_split [of 4 8 16 bs] by simp
qed

lemma decode_record_eq_Some:
  assumes "decode_record ext bs sd = Some (h, p, n)"
  shows "length p < 2 ^ 32" and "n = record_bytes (length p)" and "n \<le> length bs"
    and "take n bs = record_image ext h p sd"
proof -
  define len where "len = unat (half_at bs 0)"
  have cut: "half_at (take 20 bs) 0 = half_at bs 0" "word_at (take 20 bs) 8 = word_at bs 8"
    "half_at (take 20 bs) 16 = half_at bs 16"
    by (simp_all add: half_at_def word_at_def slice_take)
  note simps = decode_record_def get_range_def RECORD_HEADER_def Let_def cut len_def [symmetric]
    list_ex_iff
  obtain k where k: "bs ! 4 = Kind_byte k" and len20: "20 \<le> length bs"
    and total: "record_bytes len \<le> length bs" and p: "p = slice bs 20 (20 + len)"
    and n: "n = record_bytes len"
    and zero: "\<forall>b \<in> set (slice bs (20 + len) (record_bytes len)). b = 0"
    and crc: "ext (ext sd (take 16 bs)) p = half_at bs 16"
    and h: "h = \<lparr>rh_kind = k, rh_lane = bs ! 5, rh_flags = le_word [bs ! 6, bs ! 7],
                rh_gsn = word_at bs 8\<rparr>"
    using assms by (auto simp: simps Kind_of_eq_Some split: option.splits if_splits)
  have ge: "20 + len \<le> record_bytes len" using record_bytes_ge [of len] by (simp add: RECORD_HEADER_def)
  then have plen: "length p = len" using p total by simp
  have lt: "len < 2 ^ 32" using unsigned_less [of "half_at bs 0"] by (simp add: len_def)
  show "length p < 2 ^ 32" using lt plen by simp
  show "n = record_bytes (length p)" using n plen by simp
  show "n \<le> length bs" using n total by simp
  have fields: "record_fields h (of_nat len) = take 16 bs"
    using image_of_head [OF len20 k h] by (simp add: len_def)
  have "slice bs (20 + len) (record_bytes len) = replicate (record_bytes len - (20 + len)) 0"
    using zero all_zero_replicate [of "slice bs (20 + len) (record_bytes len)" 0] total by simp
  moreover have "take n bs = take 16 bs @ slice bs 16 20 @ slice bs 20 (20 + len)
      @ slice bs (20 + len) (record_bytes len)"
    using n ge slice_split [of 0 16 n bs] slice_split [of 16 20 n bs] slice_split [of 20 "20 + len" n bs]
    by simp
  ultimately show "take n bs = record_image ext h p sd"
    using le_bytes_half_at [of 16 bs] len20
    by (simp add: record_image_def Let_def fields crc plen RECORD_HEADER_def p [symmetric])
qed

lemma decode_record_iff:
  "decode_record ext bs sd = Some (h, p, n) \<longleftrightarrow>
     length p < 2 ^ 32 \<and> n = record_bytes (length p) \<and> n \<le> length bs
     \<and> take n bs = record_image ext h p sd"
proof
  assume "decode_record ext bs sd = Some (h, p, n)"
  then show "length p < 2 ^ 32 \<and> n = record_bytes (length p) \<and> n \<le> length bs
      \<and> take n bs = record_image ext h p sd"
    by (blast dest: decode_record_eq_Some)
next
  assume r: "length p < 2 ^ 32 \<and> n = record_bytes (length p) \<and> n \<le> length bs
      \<and> take n bs = record_image ext h p sd"
  then have "bs = record_image ext h p sd @ drop n bs" by (metis append_take_drop_id)
  then show "decode_record ext bs sd = Some (h, p, n)"
    using r decode_record_image by metis
qed

lemma decode_record_bounds:
  assumes "decode_record ext bs sd = Some (h, p, n)"
  shows "0 < n \<and> n \<le> length bs"
  using decode_record_eq_Some [OF assms] record_bytes_ge [of "length p"]
  by (simp_all add: RECORD_HEADER_def)

lemma decode_record_zero_kind: "bs ! 4 = 0 \<Longrightarrow> decode_record ext bs sd = None"
  by (simp add: decode_record_def get_range_def RECORD_HEADER_def Let_def)

lemma decode_record_crc:
  assumes "decode_record ext bs sd = Some r"
  shows "ext (ext sd (take 16 bs)) (slice bs 20 (20 + unat (half_at bs 0))) = half_at bs 16"
proof -
  have "half_at (take 20 bs) 0 = half_at bs 0" "half_at (take 20 bs) 16 = half_at bs 16"
    by (simp_all add: half_at_def slice_take)
  then show ?thesis
    using assms by (auto simp: decode_record_def get_range_def RECORD_HEADER_def Let_def
        split: option.splits if_splits)
qed

subsection \<open>What the checksum rules out\<close>

context checksum
begin

lemma decode_record_other_seed:
  assumes "decode_record ext bs sd = Some r" and "sd' \<noteq> sd"
  shows "decode_record ext bs sd' = None"
proof (rule ccontr)
  assume "decode_record ext bs sd' \<noteq> None"
  then obtain r' where r': "decode_record ext bs sd' = Some r'" by auto
  have "ext (ext sd (take 16 bs)) (slice bs 20 (20 + unat (half_at bs 0)))
      = ext (ext sd' (take 16 bs)) (slice bs 20 (20 + unat (half_at bs 0)))"
    using decode_record_crc [OF assms(1)] decode_record_crc [OF r'] by simp
  with assms(2) show False by simp
qed

lemma record_image_check:
  "ext sd (take 16 (record_image ext h p sd) @ take (length p) (drop 20 (record_image ext h p sd)))
     = half_at (record_image ext h p sd) 16"
  using half_at_field [of "record_fields h (of_nat (length p))" 16]
  by (simp add: record_image_def Let_def ext_append)

lemma record_image_one_byte_iff:
  assumes len: "length p' = length p" and i: "i < record_bytes (length p)"
    and upd: "record_image ext h' p' sd = (record_image ext h p sd)[i := b]"
  shows "b = record_image ext h p sd ! i"
proof -
  define img where "img = record_image ext h p sd"
  define data where "data = take 16 img @ take (length p) (drop 20 img)"
  have ge: "20 + length p \<le> record_bytes (length p)"
    using record_bytes_ge [of "length p"] by (simp add: RECORD_HEADER_def)
  have size: "length img = record_bytes (length p)" by (simp add: img_def)
  have sum: "ext sd data = half_at img 16"
    by (simp add: data_def img_def record_image_check)
  have sum': "ext sd (take 16 (img[i := b]) @ take (length p) (drop 20 (img[i := b])))
      = half_at (img[i := b]) 16"
    using record_image_check [of sd h' p'] by (simp add: upd img_def len)
  consider "i < 16" | "16 \<le> i" "i < 20" | "20 \<le> i" "i < 20 + length p" | "20 + length p \<le> i"
    by linarith
  then show ?thesis
  proof cases
    case 1
    then have "ext sd (data[i := b]) = ext sd data"
      using sum sum' ge size
      by (simp add: data_def half_at_def slice_def take_update_swap list_update_append)
    then have "b = data ! i" using 1 ge size by (intro ext_update) (simp_all add: data_def)
    then show ?thesis using 1 ge size by (simp add: data_def nth_append img_def [symmetric])
  next
    case 2
    then have "half_at (img[i := b]) 16 = half_at img 16"
      using sum sum' by (simp add: data_def)
    then have "slice (img[i := b]) 16 20 = slice img 16 20"
      using le_bytes_half_at [of 16 img] le_bytes_half_at [of 16 "img[i := b]"] ge size by simp
    then have "slice (img[i := b]) 16 20 ! (i - 16) = slice img 16 20 ! (i - 16)" by (rule arg_cong)
    then show ?thesis using 2 ge size by (simp add: nth_slice img_def [symmetric])
  next
    case 3
    then have "data[i - 4 := b] = take 16 (img[i := b]) @ take (length p) (drop 20 (img[i := b]))"
      using ge size
      by (simp add: data_def list_update_append drop_update_swap take_update_swap list_update_beyond)
    moreover have "half_at (img[i := b]) 16 = half_at img 16"
      using 3 by (simp add: half_at_def slice_def drop_update_swap take_update_swap list_update_beyond)
    ultimately have "ext sd (data[i - 4 := b]) = ext sd data" using sum sum' by simp
    then have "b = data ! (i - 4)" using 3 ge size by (intro ext_update) (simp_all add: data_def)
    moreover have "\<not> i - 4 < 16" using 3 by simp
    ultimately show ?thesis using 3 ge size by (simp add: data_def nth_append img_def [symmetric])
  next
    case 4
    have zero: "record_image ext g q sd ! i = 0" if "length q = length p" for g q
    proof -
      have "drop (20 + length p) (record_image ext g q sd)
          = replicate (record_bytes (length p) - (20 + length p)) 0"
        using that by (simp add: record_image_def Let_def RECORD_HEADER_def)
      then show ?thesis
        using 4 i that nth_drop [of "20 + length p" "record_image ext g q sd" "i - (20 + length p)"]
        by simp
    qed
    have "img[i := b] ! i = 0" using zero [OF len, of h'] by (simp add: upd img_def)
    then show ?thesis using zero [of p h] i size by (simp add: img_def)
  qed
qed

lemma record_image_one_byte:
  assumes "length p < 2 ^ 32" and "4 \<le> i" and "i < record_bytes (length p)"
    and "b \<noteq> record_image ext h p sd ! i"
  shows "decode_record ext ((record_image ext h p sd)[i := b] @ rest) sd = None"
proof (rule ccontr)
  let ?img = "record_image ext h p sd"
  let ?bs = "?img[i := b] @ rest"
  assume "decode_record ext ?bs sd \<noteq> None"
  then obtain h' p' n where dec: "decode_record ext ?bs sd = Some (h', p', n)"
    by (metis option.exhaust prod_cases3)
  note d = decode_record_eq_Some [OF dec]
  have ge: "20 + length q \<le> record_bytes (length q)" for q :: bytes
    using record_bytes_ge [of "length q"] by (simp add: RECORD_HEADER_def)
  have four: "take 4 (record_image ext h'' q s) = le_bytes 4 (of_nat (length q) :: u32)" for h'' q s
    by (simp add: record_image_def record_fields_def Let_def)
  have "take 4 (record_image ext h' p' sd) = take 4 ?bs"
    using d(2) ge [of p'] by (subst d(4) [symmetric]) (simp add: min_def del: take_append)
  also have "\<dots> = take 4 ?img" using assms(2) ge [of p] by simp
  finally have "(of_nat (length p') :: u32) = of_nat (length p)"
    by (simp add: four le_bytes_inject)
  then have "unat (of_nat (length p') :: u32) = unat (of_nat (length p) :: u32)" by (rule arg_cong)
  then have len: "length p' = length p" using assms(1) d(1) by (simp add: unat_of_nat)
  then have "record_image ext h' p' sd = ?img[i := b]" using d(2,4) by simp
  then show False using record_image_one_byte_iff [OF len assms(3)] assms(4) by blast
qed

end

section \<open>Segment headers\<close>

definition header_fields :: "SegmentHeader \<Rightarrow> bytes" where
  "header_fields h =
     SEGMENT_MAGIC @ le_bytes 4 SEGMENT_VERSION @ sh_lane h # replicate 3 0
       @ le_bytes 8 (sh_sequence h) @ le_bytes 8 (sh_database h) @ replicate 8 0"

lemma length_SEGMENT_MAGIC [simp]: "length SEGMENT_MAGIC = 8"
  by (simp add: SEGMENT_MAGIC_def)

lemma length_header_fields [simp]: "length (header_fields h) = 40"
  by (simp add: header_fields_def)

lemma SegmentHeader_encode_eq:
  "SegmentHeader_encode ext h =
     header_fields h @ le_bytes 4 (ext 0 (header_fields h)) @ replicate 4052 0"
proof -
  let ?bs0 = "SEGMENT_MAGIC @ le_bytes 4 SEGMENT_VERSION @ replicate 4084 0"
  have "copy_at (copy_at (replicate SEGMENT_HEADER 0) 0 SEGMENT_MAGIC) 8 (le_bytes 4 SEGMENT_VERSION)
      = ?bs0"
    by (simp add: copy_at_def SEGMENT_HEADER_def)
  moreover have "?bs0[12 := sh_lane h]
      = SEGMENT_MAGIC @ le_bytes 4 SEGMENT_VERSION @ sh_lane h # replicate 4083 0"
    using replicate_Suc [of 4083 "0 :: u8"] by (simp add: list_update_append)
  moreover have "copy_at (copy_at (SEGMENT_MAGIC @ le_bytes 4 SEGMENT_VERSION @ sh_lane h # replicate 4083 0)
        16 (le_bytes 8 (sh_sequence h))) 24 (le_bytes 8 (sh_database h))
      = header_fields h @ replicate 4056 0"
    by (simp add: copy_at_def header_fields_def replicate_add [symmetric])
  ultimately show ?thesis
    by (simp add: SegmentHeader_encode_def Let_def copy_at_def [of "header_fields h @ _"])
qed

lemma length_SegmentHeader_encode [simp]: "length (SegmentHeader_encode ext h) = SEGMENT_HEADER"
  by (simp add: SegmentHeader_encode_eq SEGMENT_HEADER_def)

lemma SegmentHeader_decode_encode:
  "SegmentHeader_decode ext (SegmentHeader_encode ext h @ rest) = Some h"
proof -
  let ?v = "le_bytes 4 SEGMENT_VERSION" and ?s = "le_bytes 8 (sh_sequence h)"
    and ?d = "le_bytes 8 (sh_database h)"
  define bs where "bs = SegmentHeader_encode ext h"
  have bs: "bs = SEGMENT_MAGIC @ ?v @ sh_lane h # replicate 3 0 @ ?s @ ?d @ replicate 8 0
      @ le_bytes 4 (ext 0 (header_fields h)) @ replicate 4052 0"
    by (simp add: bs_def SegmentHeader_encode_eq header_fields_def)
  have "half_at bs 8 = SEGMENT_VERSION" "word_at bs 16 = sh_sequence h" "word_at bs 24 = sh_database h"
    "word_at bs 32 = 0" "half_at bs 40 = ext 0 (header_fields h)" "bs ! 12 = sh_lane h"
    "slice bs 13 16 = replicate 3 0" "take 8 bs = SEGMENT_MAGIC"
    by (simp_all add: bs half_at_def word_at_def slice_def nth_append le_word_replicate)
  moreover have "take 40 bs = header_fields h" "drop 44 bs = replicate 4052 0" "length bs = SEGMENT_HEADER"
    by (simp_all add: bs_def SegmentHeader_encode_eq SEGMENT_HEADER_def)
  moreover have "list_all (\<lambda>b. b = 0) (replicate 4052 (0 :: u8))" by (simp add: list_all_iff)
  ultimately show ?thesis
    unfolding bs_def [symmetric] by (simp add: SegmentHeader_decode_def get_range_def)
qed

lemma SegmentHeader_decode_eq_Some:
  assumes "SegmentHeader_decode ext bs = Some h"
  shows "SEGMENT_HEADER \<le> length bs" and "take SEGMENT_HEADER bs = SegmentHeader_encode ext h"
proof -
  let ?b = "take SEGMENT_HEADER bs"
  from assms have len: "SEGMENT_HEADER \<le> length bs"
    and parts: "take 8 ?b = SEGMENT_MAGIC" "half_at ?b 8 = SEGMENT_VERSION"
      "slice ?b 13 16 = replicate 3 0" "word_at ?b 32 = 0" "half_at ?b 40 = ext 0 (take 40 ?b)"
      "list_all (\<lambda>b. b = 0) (drop 44 ?b)"
    and h: "h = \<lparr>sh_lane = ?b ! 12, sh_sequence = word_at ?b 16, sh_database = word_at ?b 24\<rparr>"
    by (auto simp: SegmentHeader_decode_def get_range_def Let_def split: if_splits
        simp del: take_take)
  have size: "length ?b = 4096" using len by (simp add: SEGMENT_HEADER_def)
  have "drop 44 ?b = replicate 4052 0"
    using parts(6) all_zero_replicate [of "drop 44 ?b" 0] size by (simp add: list_all_iff)
  moreover have "take 40 ?b = header_fields h"
  proof -
    have "take 40 ?b = slice ?b 0 8 @ slice ?b 8 12 @ slice ?b 12 13 @ slice ?b 13 16 @ slice ?b 16 24
        @ slice ?b 24 32 @ slice ?b 32 40"
      using slice_split [of 0 8 40 ?b] slice_split [of 8 12 40 ?b] slice_split [of 12 13 40 ?b]
        slice_split [of 13 16 40 ?b] slice_split [of 16 24 40 ?b] slice_split [of 24 32 40 ?b]
      by (simp del: take_take)
    moreover have "slice ?b 32 40 = le_bytes 8 (word_at ?b 32)" using size le_bytes_word_at [of 32 ?b] by simp
    ultimately show ?thesis
      using parts(1-4) size le_bytes_half_at [of 8 ?b] le_bytes_word_at [of 16 ?b]
        le_bytes_word_at [of 24 ?b] slice_one [of 12 ?b] le_bytes_zero [where 'a = 64, of 8]
      by (simp add: header_fields_def h del: take_take)
  qed
  moreover have "?b = take 40 ?b @ slice ?b 40 44 @ drop 44 ?b"
    using append_take_drop_id [of 44 ?b] slice_split [of 0 40 44 ?b] by (metis append_assoc slice_0
        zero_le numeral_le_iff semiring_norm(68,69,71,72,73,76))
  ultimately show "?b = SegmentHeader_encode ext h"
    using parts(5) le_bytes_half_at [of 40 ?b] len
    by (simp add: SegmentHeader_encode_eq SEGMENT_HEADER_def del: take_take)
  show "SEGMENT_HEADER \<le> length bs" by (rule len)
qed

lemma SegmentHeader_decode_iff:
  "SegmentHeader_decode ext bs = Some h \<longleftrightarrow>
     SEGMENT_HEADER \<le> length bs \<and> take SEGMENT_HEADER bs = SegmentHeader_encode ext h"
  using SegmentHeader_decode_eq_Some [of ext bs h] SegmentHeader_decode_encode [of ext h]
  by (metis append_take_drop_id)

section \<open>The payloads of Commit and Checkpoint records\<close>

lemma Commit_encode_eq:
  "Commit_encode c =
     le_bytes 8 (c_txn c) @ le_bytes 8 (c_commit_ts c) @ le_bytes 8 (c_dep_ts c)
       @ le_bytes 4 (c_records c) @ le_bytes 8 (c_bytes c)"
  by (simp add: Commit_encode_def Let_def copy_at_def Commit_LEN_def)

lemma Commit_decode_iff: "Commit_decode bs = Some c \<longleftrightarrow> bs = Commit_encode c"
proof
  assume "Commit_decode bs = Some c"
  then have len: "length bs = 36"
    and c: "c = \<lparr>c_txn = word_at bs 0, c_commit_ts = word_at bs 8, c_dep_ts = word_at bs 16,
                c_records = half_at bs 24, c_bytes = word_at bs 28\<rparr>"
    by (auto simp: Commit_decode_def Commit_LEN_def split: if_splits)
  have "bs = slice bs 0 8 @ slice bs 8 16 @ slice bs 16 24 @ slice bs 24 28 @ slice bs 28 36"
    using len slice_split [of 0 8 36 bs] slice_split [of 8 16 36 bs] slice_split [of 16 24 36 bs]
      slice_split [of 24 28 36 bs] by simp
  then show "bs = Commit_encode c"
    using len le_bytes_word_at [of 0 bs] le_bytes_word_at [of 8 bs] le_bytes_word_at [of 16 bs]
      le_bytes_half_at [of 24 bs] le_bytes_word_at [of 28 bs]
    by (simp add: Commit_encode_eq c)
next
  assume bs: "bs = Commit_encode c"
  have "word_at bs 0 = c_txn c" "word_at bs 8 = c_commit_ts c" "word_at bs 16 = c_dep_ts c"
    "half_at bs 24 = c_records c" "word_at bs 28 = c_bytes c" "length bs = 36"
    by (simp_all add: bs Commit_encode_eq word_at_def half_at_def slice_def)
  then show "Commit_decode bs = Some c" by (simp add: Commit_decode_def Commit_LEN_def)
qed

lemma length_Checkpointed_entry [simp]: "length (Checkpointed_entry e) = Checkpointed_LEN"
  by (simp add: Checkpointed_entry_def Checkpointed_LEN_def)

lemma Checkpointed_of_entry [simp]: "Checkpointed_of_entry (Checkpointed_entry e) = e"
  by (simp add: Checkpointed_of_entry_def Checkpointed_entry_def half_at_def word_at_def slice_def)

lemma chunks_exact_concat:
  assumes "0 < n" and "\<forall>x \<in> set xs. length x = n"
  shows "chunks_exact n (concat xs) = xs"
  using assms(2)
proof (induction xs)
  case Nil
  then show ?case using assms(1) by (simp add: chunks_exact.simps)
next
  case (Cons x xs)
  then show ?case using assms(1) by (simp add: chunks_exact.simps [of n "x @ _"])
qed

lemma length_concat_same: "\<forall>x \<in> set xs. length x = n \<Longrightarrow> length (concat xs) = length xs * n"
  by (induction xs) simp_all

lemma Checkpointed_round_trip:
  assumes "Checkpointed_encode es = Some bs"
  shows "Checkpointed_decode bs = Some es"
proof -
  let ?entries = "map Checkpointed_entry es"
  from assms have small: "length es < 2 ^ 32"
    and bs: "bs = le_bytes 4 (of_nat (length es) :: u32) @ replicate 4 0 @ concat ?entries"
    by (auto simp: Checkpointed_encode_def split: if_splits)
  have count: "unat (half_at bs 0) = length es"
    using small half_at_field [of "[]" 0 "of_nat (length es)"] by (simp add: bs unat_of_nat)
  have "chunks_exact Checkpointed_LEN (concat ?entries) = ?entries"
    by (rule chunks_exact_concat) (simp_all add: Checkpointed_LEN_def [symmetric], simp add: Checkpointed_LEN_def)
  moreover have "length (concat ?entries) = length es * Checkpointed_LEN"
    using length_concat_same [of ?entries Checkpointed_LEN] by simp
  moreover have "length es * Checkpointed_LEN < 2 ^ 64" using small by (simp add: Checkpointed_LEN_def)
  moreover have "drop 8 bs = concat ?entries" by (simp add: bs)
  ultimately show ?thesis
    using count by (simp add: Checkpointed_decode_def bs comp_def)
qed

end
