(* ===== verification/LogBlock.thy ===== *)
theory LogBlock
  imports LogFormat
begin

text \<open>
  A transaction's block: \<open>Block\<close> of \<open>rudb-txn/src/log/lane.rs\<close>, which encodes it, and the reader
  of a segment's blocks in \<open>rudb-txn/src/log/replay.rs\<close>. \<open>Block_ok\<close> is the invariant \<open>new\<close>
  establishes and \<open>push\<close> keeps. Reading a segment gives back the blocks written to it, whatever comes
  after them (\<open>read_blocks_images\<close>), and every block read is one that was written whole
  (\<open>read_blocks_sound\<close>).
\<close>

section \<open>Blocks\<close>

record Block =
  b_txn :: u64
  b_commit_ts :: u64
  b_dep_ts :: u64
  b_records :: "(Kind \<times> u16 \<times> nat) list"
  b_data :: bytes
  b_bytes :: nat

definition Block_new :: "u64 \<Rightarrow> u64 \<Rightarrow> u64 \<Rightarrow> Block" where
  "Block_new txn commit_ts dep_ts =
     \<lparr>b_txn = txn, b_commit_ts = commit_ts, b_dep_ts = dep_ts, b_records = [], b_data = [],
      b_bytes = 0\<rparr>"

datatype block_error = Commit_is_the_lanes | Payload_too_long

definition Block_push :: "Block \<Rightarrow> Kind \<Rightarrow> u16 \<Rightarrow> bytes \<Rightarrow> block_error + Block" where
  "Block_push b kind flags payload =
     (if kind = Commit then Inl Commit_is_the_lanes
      else if 2 ^ 32 \<le> length payload then Inl Payload_too_long
      else
        (let data = b_data b @ payload in
         Inr (b\<lparr>b_data := data,
                b_records := b_records b @ [(kind, flags, length data)],
                b_bytes := b_bytes b + record_bytes (length payload)\<rparr>)))"

definition Block_records :: "Block \<Rightarrow> nat" where
  "Block_records b = length (b_records b)"

definition Block_len :: "Block \<Rightarrow> nat" where
  "Block_len b = b_bytes b + record_bytes Commit_LEN"

definition Block_is_empty :: "Block \<Rightarrow> bool" where
  "Block_is_empty b \<longleftrightarrow> b_records b = []"

text \<open>The loop of \<open>Block::encode\<close>, from the record whose payload starts at \<open>start\<close>.\<close>

fun encode_records ::
  "sum32 \<Rightarrow> u8 \<Rightarrow> u64 \<Rightarrow> u32 \<Rightarrow> bytes \<Rightarrow> nat \<Rightarrow> (Kind \<times> u16 \<times> nat) list \<Rightarrow> bytes \<Rightarrow> bytes option"
where
  "encode_records ext lane gsn sd data start [] out = Some out"
| "encode_records ext lane gsn sd data start ((kind, flags, end) # rs) out =
     (case encode_record ext out \<lparr>rh_kind = kind, rh_lane = lane, rh_flags = flags, rh_gsn = gsn\<rparr>
             (slice data start end) sd of
        None \<Rightarrow> None
      | Some out \<Rightarrow> encode_records ext lane gsn sd data end rs out)"

definition Block_encode :: "sum32 \<Rightarrow> Block \<Rightarrow> u8 \<Rightarrow> u32 \<Rightarrow> bytes \<Rightarrow> bytes option" where
  "Block_encode ext b lane sd out =
     (case encode_records ext lane (b_commit_ts b) sd (b_data b) 0 (b_records b) out of
        None \<Rightarrow> None
      | Some out \<Rightarrow>
          (let commit = \<lparr>c_txn = b_txn b, c_commit_ts = b_commit_ts b, c_dep_ts = b_dep_ts b,
                         c_records = of_nat (length (b_records b)), c_bytes = of_nat (b_bytes b)\<rparr>;
               header = \<lparr>rh_kind = Commit, rh_lane = lane, rh_flags = 0, rh_gsn = b_commit_ts b\<rparr>
           in encode_record ext out header (Commit_encode commit) sd))"

section \<open>Reading blocks back\<close>

text \<open>
  A record holds its payload, which the code holds as a range of the segment's bytes. The lane
  position of a block is not part of what is read.
\<close>

record Record =
  r_header :: RecordHeader
  r_payload :: bytes

record Committed =
  cm_sequence :: u64
  cm_commit :: CommitPayload
  cm_records :: "Record list"

text \<open>One round of the loop of \<open>read_blocks\<close>: stop, or go on with the state of the loop.\<close>

record Reading =
  rd_at :: nat
  rd_records :: "Record list"
  rd_taken :: nat
  rd_out :: "Committed list"

definition read_blocks_step ::
  "sum32 \<Rightarrow> bytes \<Rightarrow> u8 \<Rightarrow> u64 \<Rightarrow> Reading \<Rightarrow> Reading option" where
  "read_blocks_step ext segment lane sequence s =
     (case (if rd_at s \<le> length segment
            then decode_record ext (drop (rd_at s) segment) (seed sequence) else None) of
        None \<Rightarrow> None
      | Some (header, payload, whole_len) \<Rightarrow>
          if rh_lane header \<noteq> lane then None
          else
            (let range = slice segment (rd_at s + RECORD_HEADER)
                           (rd_at s + RECORD_HEADER + length payload);
                 at = rd_at s + whole_len in
             if rh_kind header \<noteq> Commit
             then Some (s\<lparr>rd_at := at, rd_taken := rd_taken s + whole_len,
                          rd_records := rd_records s @ [\<lparr>r_header = header, r_payload = range\<rparr>]\<rparr>)
             else
               (case Commit_decode payload of
                  None \<Rightarrow> None
                | Some commit \<Rightarrow>
                    (let whole = unat (c_records commit) = length (rd_records s)
                           \<and> unat (c_bytes commit) = rd_taken s
                           \<and> c_commit_ts commit = rh_gsn header in
                     if \<not> whole then None
                     else Some \<lparr>rd_at = at, rd_records = [], rd_taken = 0,
                                rd_out = rd_out s @ [\<lparr>cm_sequence = sequence, cm_commit = commit,
                                                     cm_records = rd_records s\<rparr>]\<rparr>))))"

lemma read_blocks_step_at:
  assumes "read_blocks_step ext segment lane sequence s = Some t"
  shows "rd_at s < rd_at t \<and> rd_at t \<le> length segment"
  using assms
  by (auto simp: read_blocks_step_def Let_def split: if_splits option.splits prod.splits
      dest!: decode_record_bounds)

function read_blocks_loop ::
  "sum32 \<Rightarrow> bytes \<Rightarrow> u8 \<Rightarrow> u64 \<Rightarrow> Reading \<Rightarrow> Committed list" where
  "read_blocks_loop ext segment lane sequence s =
     (case read_blocks_step ext segment lane sequence s of
        None \<Rightarrow> rd_out s
      | Some t \<Rightarrow> read_blocks_loop ext segment lane sequence t)"
  by auto
termination
  by (relation "measure (\<lambda>(ext, segment, lane, sequence, s). length segment - rd_at s)")
    (auto dest!: read_blocks_step_at)

declare read_blocks_loop.simps [simp del]

definition read_blocks ::
  "sum32 \<Rightarrow> bytes \<Rightarrow> nat \<Rightarrow> u8 \<Rightarrow> u64 \<Rightarrow> Committed list \<Rightarrow> Committed list" where
  "read_blocks ext segment at lane sequence out =
     read_blocks_loop ext segment lane sequence
       \<lparr>rd_at = at, rd_records = [], rd_taken = 0, rd_out = out\<rparr>"

section \<open>A block is well formed\<close>

fun records_ok :: "bytes \<Rightarrow> nat \<Rightarrow> (Kind \<times> u16 \<times> nat) list \<Rightarrow> bool" where
  "records_ok data start [] \<longleftrightarrow> start = length data"
| "records_ok data start ((kind, flags, end) # rs) \<longleftrightarrow>
     kind \<noteq> Commit \<and> start \<le> end \<and> end \<le> length data \<and> end - start < 2 ^ 32 \<and> records_ok data end rs"

text \<open>The records of a block with their payloads.\<close>

fun payloads :: "bytes \<Rightarrow> nat \<Rightarrow> (Kind \<times> u16 \<times> nat) list \<Rightarrow> (Kind \<times> u16 \<times> bytes) list" where
  "payloads data start [] = []"
| "payloads data start ((kind, flags, end) # rs) =
     (kind, flags, slice data start end) # payloads data end rs"

definition Block_payloads :: "Block \<Rightarrow> (Kind \<times> u16 \<times> bytes) list" where
  "Block_payloads b = payloads (b_data b) 0 (b_records b)"

definition records_size :: "(Kind \<times> u16 \<times> bytes) list \<Rightarrow> nat" where
  "records_size ps = (\<Sum>(kind, flags, p) \<leftarrow> ps. record_bytes (length p))"

definition Block_ok :: "Block \<Rightarrow> bool" where
  "Block_ok b \<longleftrightarrow>
     records_ok (b_data b) 0 (b_records b) \<and> b_bytes b = records_size (Block_payloads b)"

lemma records_ok_le: "records_ok data start rs \<Longrightarrow> start \<le> length data"
  by (induction data start rs rule: records_ok.induct) auto

lemma records_ok_snoc:
  "records_ok data start rs \<Longrightarrow> kind \<noteq> Commit \<Longrightarrow> length p < 2 ^ 32 \<Longrightarrow>
     records_ok (data @ p) start (rs @ [(kind, flags, length data + length p)])"
  by (induction data start rs rule: records_ok.induct) auto

lemma payloads_snoc:
  "records_ok data start rs \<Longrightarrow>
     payloads (data @ p) start (rs @ [(kind, flags, length data + length p)])
       = payloads data start rs @ [(kind, flags, p)]"
  by (induction data start rs rule: records_ok.induct) (auto simp: slice_def)

lemma Block_ok_new: "Block_ok (Block_new txn commit_ts dep_ts)"
  by (simp add: Block_ok_def Block_new_def records_size_def Block_payloads_def)

lemma Block_push_payloads:
  assumes "Block_ok b" and "Block_push b kind flags payload = Inr b'"
  shows "Block_payloads b' = Block_payloads b @ [(kind, flags, payload)]"
  using assms
  by (auto simp: Block_ok_def Block_push_def Let_def Block_payloads_def payloads_snoc split: if_splits)

lemma Block_ok_push:
  assumes "Block_ok b" and "Block_push b kind flags payload = Inr b'"
  shows "Block_ok b'"
proof -
  have "records_ok (b_data b') 0 (b_records b')"
    using assms by (auto simp: Block_ok_def Block_push_def Let_def records_ok_snoc split: if_splits)
  moreover have "b_bytes b' = b_bytes b + record_bytes (length payload)"
    using assms by (auto simp: Block_push_def Let_def split: if_splits)
  ultimately show ?thesis
    using assms(1) Block_push_payloads [OF assms] by (simp add: Block_ok_def records_size_def)
qed

lemma length_payloads [simp]: "length (payloads data start rs) = length rs"
  by (induction data start rs rule: payloads.induct) auto

lemma payloads_ok:
  "records_ok data start rs \<Longrightarrow> (k, f, p) \<in> set (payloads data start rs) \<Longrightarrow>
     k \<noteq> Commit \<and> length p < 2 ^ 32"
  by (induction data start rs rule: records_ok.induct) (auto simp: slice_def)

section \<open>The bytes of a block\<close>

definition record_of :: "u8 \<Rightarrow> u64 \<Rightarrow> Kind \<times> u16 \<times> bytes \<Rightarrow> Record" where
  "record_of lane gsn r = (case r of (kind, flags, p) \<Rightarrow>
     \<lparr>r_header = \<lparr>rh_kind = kind, rh_lane = lane, rh_flags = flags, rh_gsn = gsn\<rparr>, r_payload = p\<rparr>)"

definition records_image :: "sum32 \<Rightarrow> u32 \<Rightarrow> Record list \<Rightarrow> bytes" where
  "records_image ext sd rs = concat (map (\<lambda>r. record_image ext (r_header r) (r_payload r) sd) rs)"

definition commit_image :: "sum32 \<Rightarrow> u8 \<Rightarrow> u16 \<Rightarrow> CommitPayload \<Rightarrow> u32 \<Rightarrow> bytes" where
  "commit_image ext lane flags c sd =
     record_image ext \<lparr>rh_kind = Commit, rh_lane = lane, rh_flags = flags, rh_gsn = c_commit_ts c\<rparr>
       (Commit_encode c) sd"

text \<open>What a reader of segment \<open>sequence\<close> of \<open>lane\<close> makes of a block.\<close>

definition Committed_of :: "u8 \<Rightarrow> u64 \<Rightarrow> Block \<Rightarrow> Committed" where
  "Committed_of lane sequence b =
     \<lparr>cm_sequence = sequence,
      cm_commit = \<lparr>c_txn = b_txn b, c_commit_ts = b_commit_ts b, c_dep_ts = b_dep_ts b,
                   c_records = of_nat (length (b_records b)), c_bytes = of_nat (b_bytes b)\<rparr>,
      cm_records = map (record_of lane (b_commit_ts b)) (Block_payloads b)\<rparr>"

definition Block_image :: "sum32 \<Rightarrow> u8 \<Rightarrow> u32 \<Rightarrow> Block \<Rightarrow> bytes" where
  "Block_image ext lane sd b =
     (let cm = Committed_of lane 0 b
      in records_image ext sd (cm_records cm) @ commit_image ext lane 0 (cm_commit cm) sd)"

lemma encode_records_eq:
  "records_ok data start rs \<Longrightarrow>
     encode_records ext lane gsn sd data start rs out
       = Some (out @ records_image ext sd (map (record_of lane gsn) (payloads data start rs)))"
  by (induction data start rs arbitrary: out rule: records_ok.induct)
    (auto simp: records_image_def record_of_def encode_record_eq)

lemma length_Commit_encode [simp]: "length (Commit_encode c) = 36"
  by (simp add: Commit_encode_eq)

lemma Block_encode_eq:
  "Block_ok b \<Longrightarrow> Block_encode ext b lane sd out = Some (out @ Block_image ext lane sd b)"
  by (simp add: Block_encode_def Block_ok_def encode_records_eq encode_record_eq Block_image_def
      Committed_of_def Block_payloads_def commit_image_def Let_def)

lemma length_records_image:
  "length (records_image ext sd (map (record_of lane gsn) ps)) = records_size ps"
  by (induction ps) (auto simp: records_image_def records_size_def record_of_def)

lemma length_commit_image [simp]: "length (commit_image ext lane flags c sd) = record_bytes Commit_LEN"
  by (simp add: commit_image_def Commit_LEN_def)

lemma length_Block_image: "Block_ok b \<Longrightarrow> length (Block_image ext lane sd b) = Block_len b"
  by (simp add: Block_image_def Committed_of_def Let_def length_records_image Block_ok_def Block_len_def)

lemma records_size_ge: "24 * length ps \<le> records_size ps"
proof (induction ps)
  case (Cons p ps)
  have "24 \<le> record_bytes n" for n
    using record_bytes_ge [of n] record_bytes_aligned [of n] by (auto simp: RECORD_HEADER_def dvd_def)
  then show ?case using Cons by (cases p) (simp add: records_size_def add_mono)
qed (simp add: records_size_def)

section \<open>Reading gives back what was written\<close>

lemma drop_append_length: "drop at xs = ys @ zs \<Longrightarrow> drop (at + length ys) xs = zs"
  by (metis append_eq_conv_conj drop_drop add.commute)

lemma drop_eq_le: "drop at xs = ys @ zs \<Longrightarrow> ys \<noteq> [] \<Longrightarrow> at \<le> length xs"
  by (metis append_is_Nil_conv drop_all nle_le)

lemma record_image_nonempty: "record_image ext h p sd \<noteq> []"
  using length_record_image [of ext h p sd] record_bytes_ge [of "length p"]
  by (auto simp: RECORD_HEADER_def simp del: length_record_image)

lemma record_image_payload:
  "drop at segment = record_image ext h p sd @ rest \<Longrightarrow>
     slice segment (at + RECORD_HEADER) (at + RECORD_HEADER + length p) = p"
proof -
  assume "drop at segment = record_image ext h p sd @ rest"
  then have "drop RECORD_HEADER (drop at segment) = drop RECORD_HEADER (record_image ext h p sd @ rest)"
    by (rule arg_cong)
  then show ?thesis
    by (simp add: slice_def add.commute record_image_def Let_def RECORD_HEADER_def)
qed

lemma read_blocks_step_record:
  assumes "drop (rd_at s) segment = record_image ext h p (seed sequence) @ rest"
    and "length p < 2 ^ 32" and "rh_lane h = lane" and "rh_kind h \<noteq> Commit"
  shows "read_blocks_step ext segment lane sequence s =
    Some (s\<lparr>rd_at := rd_at s + record_bytes (length p), rd_taken := rd_taken s + record_bytes (length p),
            rd_records := rd_records s @ [\<lparr>r_header = h, r_payload = p\<rparr>]\<rparr>)"
proof -
  have "rd_at s \<le> length segment"
    using drop_eq_le [OF assms(1) record_image_nonempty] .
  then show ?thesis
    using assms record_image_payload [OF assms(1)]
    by (simp add: read_blocks_step_def decode_record_image Let_def)
qed

lemma read_blocks_step_commit:
  assumes "drop (rd_at s) segment = commit_image ext lane flags c (seed sequence) @ rest"
    and "unat (c_records c) = length (rd_records s)" and "unat (c_bytes c) = rd_taken s"
  shows "read_blocks_step ext segment lane sequence s =
    Some \<lparr>rd_at = rd_at s + record_bytes Commit_LEN, rd_records = [], rd_taken = 0,
          rd_out = rd_out s @ [\<lparr>cm_sequence = sequence, cm_commit = c, cm_records = rd_records s\<rparr>]\<rparr>"
proof -
  have "rd_at s \<le> length segment"
    using drop_eq_le [OF assms(1)] by (simp add: commit_image_def record_image_nonempty)
  moreover have "Commit_decode (Commit_encode c) = Some c" by (simp add: Commit_decode_iff)
  ultimately show ?thesis
    using assms
    by (simp add: read_blocks_step_def commit_image_def decode_record_image Let_def Commit_LEN_def)
qed

lemma read_blocks_loop_records:
  assumes "drop (rd_at s) segment = records_image ext (seed sequence) rs @ rest"
    and "\<And>r. r \<in> set rs \<Longrightarrow>
      length (r_payload r) < 2 ^ 32 \<and> rh_lane (r_header r) = lane \<and> rh_kind (r_header r) \<noteq> Commit"
  shows "read_blocks_loop ext segment lane sequence s =
    read_blocks_loop ext segment lane sequence
      (s\<lparr>rd_at := rd_at s + length (records_image ext (seed sequence) rs),
         rd_taken := rd_taken s + length (records_image ext (seed sequence) rs),
         rd_records := rd_records s @ rs\<rparr>)"
  using assms
proof (induction rs arbitrary: s)
  case Nil
  then show ?case by (simp add: records_image_def)
next
  case (Cons r rs)
  let ?n = "record_bytes (length (r_payload r))"
  let ?t = "s\<lparr>rd_at := rd_at s + ?n, rd_taken := rd_taken s + ?n, rd_records := rd_records s @ [r]\<rparr>"
  have eq: "drop (rd_at s) segment = record_image ext (r_header r) (r_payload r) (seed sequence)
      @ records_image ext (seed sequence) rs @ rest"
    using Cons.prems(1) by (simp add: records_image_def)
  have "read_blocks_step ext segment lane sequence s = Some ?t"
    using read_blocks_step_record [OF eq] Cons.prems(2) [of r] by simp
  moreover have "drop (rd_at ?t) segment = records_image ext (seed sequence) rs @ rest"
    using drop_append_length [OF eq] by simp
  ultimately show ?case
    using Cons.IH [of ?t] Cons.prems(2)
    by (subst read_blocks_loop.simps) (simp add: records_image_def add.assoc)
qed

definition Block_small :: "Block \<Rightarrow> bool" where
  "Block_small b \<longleftrightarrow> length (b_records b) < 2 ^ 32 \<and> b_bytes b < 2 ^ 64"

lemma Block_image_eq:
  "Block_image ext lane sd b =
     records_image ext sd (cm_records (Committed_of lane sequence b))
       @ commit_image ext lane 0 (cm_commit (Committed_of lane sequence b)) sd"
  by (simp add: Block_image_def Let_def Committed_of_def)

lemma Committed_of_records:
  assumes "Block_ok b" and "r \<in> set (cm_records (Committed_of lane sequence b))"
  shows "length (r_payload r) < 2 ^ 32 \<and> rh_lane (r_header r) = lane \<and> rh_kind (r_header r) \<noteq> Commit"
  using assms payloads_ok
  by (fastforce simp: Committed_of_def Block_ok_def Block_payloads_def record_of_def)

lemma read_blocks_image:
  assumes "Block_ok b" and "Block_small b"
    and seg: "drop at segment = Block_image ext lane (seed sequence) b @ rest"
  shows "read_blocks ext segment at lane sequence out =
    read_blocks ext segment (at + Block_len b) lane sequence (out @ [Committed_of lane sequence b])"
proof -
  let ?cm = "Committed_of lane sequence b"
  let ?recs = "records_image ext (seed sequence) (cm_records ?cm)"
  let ?s = "\<lparr>rd_at = at, rd_records = [], rd_taken = 0, rd_out = out\<rparr>"
  let ?t = "\<lparr>rd_at = at + length ?recs, rd_records = cm_records ?cm, rd_taken = length ?recs, rd_out = out\<rparr>"
  have eq: "drop at segment = ?recs @ commit_image ext lane 0 (cm_commit ?cm) (seed sequence) @ rest"
    using seg by (simp add: Block_image_eq [where sequence = sequence])
  have size: "length ?recs = b_bytes b"
    using assms(1) by (simp add: Committed_of_def length_records_image Block_ok_def)
  have "read_blocks_loop ext segment lane sequence ?s = read_blocks_loop ext segment lane sequence ?t"
    using read_blocks_loop_records [of ?s segment ext sequence "cm_records ?cm" _ lane] eq
      Committed_of_records [OF assms(1)] by simp
  also have "read_blocks_step ext segment lane sequence ?t =
      Some \<lparr>rd_at = at + Block_len b, rd_records = [], rd_taken = 0, rd_out = out @ [?cm]\<rparr>"
  proof (subst read_blocks_step_commit)
    show "drop (rd_at ?t) segment = commit_image ext lane 0 (cm_commit ?cm) (seed sequence) @ rest"
      using drop_append_length [OF eq] by simp
    show "unat (c_records (cm_commit ?cm)) = length (rd_records ?t)"
      using assms(2) by (simp add: Committed_of_def unat_of_nat Block_payloads_def Block_small_def)
    show "unat (c_bytes (cm_commit ?cm)) = rd_taken ?t"
      using assms(2) by (simp add: size) (simp add: Committed_of_def unat_of_nat Block_small_def)
  qed (simp add: size Block_len_def, simp add: Committed_of_def)
  then have "read_blocks_loop ext segment lane sequence ?t =
      read_blocks ext segment (at + Block_len b) lane sequence (out @ [?cm])"
    by (subst read_blocks_loop.simps) (simp add: read_blocks_def)
  finally show ?thesis by (simp add: read_blocks_def)
qed

definition blocks_image :: "sum32 \<Rightarrow> u8 \<Rightarrow> u64 \<Rightarrow> Block list \<Rightarrow> bytes" where
  "blocks_image ext lane sequence bs = concat (map (Block_image ext lane (seed sequence)) bs)"

lemma read_blocks_images:
  assumes "\<forall>b \<in> set bs. Block_ok b \<and> Block_small b"
    and "drop at segment = blocks_image ext lane sequence bs @ rest"
  shows "read_blocks ext segment at lane sequence out =
    read_blocks ext segment (at + length (blocks_image ext lane sequence bs)) lane sequence
      (out @ map (Committed_of lane sequence) bs)"
  using assms
proof (induction bs arbitrary: at out)
  case Nil
  then show ?case by (simp add: blocks_image_def)
next
  case (Cons b bs)
  have b: "Block_ok b" "Block_small b" using Cons.prems(1) by auto
  have eq: "drop at segment = Block_image ext lane (seed sequence) b @ blocks_image ext lane sequence bs @ rest"
    using Cons.prems(2) by (simp add: blocks_image_def)
  have "drop (at + Block_len b) segment = blocks_image ext lane sequence bs @ rest"
    using drop_append_length [OF eq] b by (simp add: length_Block_image)
  then show ?case
    using Cons.IH [of "at + Block_len b" "out @ [Committed_of lane sequence b]"] Cons.prems(1) b
      read_blocks_image [OF b eq]
    by (simp add: blocks_image_def length_Block_image add.assoc)
qed

section \<open>Every block read was written whole\<close>

text \<open>
  \<open>holds_blocks\<close> says that bytes begin with the records of these blocks, each with its Commit after
  exactly the records and the bytes it counts. The flags of a Commit record are not looked at.
\<close>

definition Committed_whole :: "u8 \<Rightarrow> u64 \<Rightarrow> Committed \<Rightarrow> bool" where
  "Committed_whole lane sequence cm \<longleftrightarrow>
     cm_sequence cm = sequence
     \<and> unat (c_records (cm_commit cm)) = length (cm_records cm)
     \<and> (\<forall>r \<in> set (cm_records cm). rh_lane (r_header r) = lane \<and> rh_kind (r_header r) \<noteq> Commit)"

fun holds_blocks :: "sum32 \<Rightarrow> u8 \<Rightarrow> u64 \<Rightarrow> Committed list \<Rightarrow> bytes \<Rightarrow> bool" where
  "holds_blocks ext lane sequence [] bs \<longleftrightarrow> True"
| "holds_blocks ext lane sequence (cm # cms) bs \<longleftrightarrow>
     Committed_whole lane sequence cm
     \<and> (\<exists>flags rest.
          bs = records_image ext (seed sequence) (cm_records cm)
               @ commit_image ext lane flags (cm_commit cm) (seed sequence) @ rest
          \<and> unat (c_bytes (cm_commit cm)) = length (records_image ext (seed sequence) (cm_records cm))
          \<and> holds_blocks ext lane sequence cms rest)"

lemma read_blocks_step_cases:
  assumes "read_blocks_step ext segment lane sequence s = Some t"
  obtains
    (one) h p rest where "drop (rd_at s) segment = record_image ext h p (seed sequence) @ rest"
      "rh_lane h = lane" "rh_kind h \<noteq> Commit"
      "t = s\<lparr>rd_at := rd_at s + record_bytes (length p), rd_taken := rd_taken s + record_bytes (length p),
             rd_records := rd_records s @ [\<lparr>r_header = h, r_payload = p\<rparr>]\<rparr>"
  | (commit) c flags rest where
      "drop (rd_at s) segment = commit_image ext lane flags c (seed sequence) @ rest"
      "unat (c_records c) = length (rd_records s)" "unat (c_bytes c) = rd_taken s"
      "t = \<lparr>rd_at = rd_at s + record_bytes Commit_LEN, rd_records = [], rd_taken = 0,
            rd_out = rd_out s @ [\<lparr>cm_sequence = sequence, cm_commit = c, cm_records = rd_records s\<rparr>]\<rparr>"
proof -
  obtain h p n where dec: "decode_record ext (drop (rd_at s) segment) (seed sequence) = Some (h, p, n)"
    and lane: "rh_lane h = lane"
    using assms by (auto simp: read_blocks_step_def Let_def split: if_splits option.splits prod.splits)
  note d = decode_record_eq_Some [OF dec]
  obtain rest where drop: "drop (rd_at s) segment = record_image ext h p (seed sequence) @ rest"
    using d(4) by (metis append_take_drop_id)
  note payload = record_image_payload [OF drop]
  show thesis
  proof (cases "rh_kind h = Commit")
    case False
    then show thesis
      using assms dec d(2) lane drop payload
      by (intro one [of h p rest])
        (auto simp: read_blocks_step_def Let_def split: if_splits option.splits)
  next
    case True
    obtain c where c: "Commit_decode p = Some c" "unat (c_records c) = length (rd_records s)"
      "unat (c_bytes c) = rd_taken s" "c_commit_ts c = rh_gsn h"
      and t: "t = \<lparr>rd_at = rd_at s + n, rd_records = [], rd_taken = 0,
          rd_out = rd_out s @ [\<lparr>cm_sequence = sequence, cm_commit = c, cm_records = rd_records s\<rparr>]\<rparr>"
      using assms dec lane True
      by (auto simp: read_blocks_step_def Let_def split: if_splits option.splits)
    have p: "p = Commit_encode c" using c(1) by (simp add: Commit_decode_iff)
    have "h = \<lparr>rh_kind = Commit, rh_lane = lane, rh_flags = rh_flags h, rh_gsn = c_commit_ts c\<rparr>"
      using True lane c(4) by simp
    then have "drop (rd_at s) segment = commit_image ext lane (rh_flags h) c (seed sequence) @ rest"
      using drop p by (simp add: commit_image_def)
    then show thesis
      using c t d(2) p by (intro commit [of "rh_flags h" c rest]) (simp_all add: Commit_LEN_def)
  qed
qed

text \<open>What the loop has gone over since the last Commit, and what it makes of the rest.\<close>

lemma read_blocks_loop_sound:
  assumes "drop start segment = records_image ext (seed sequence) (rd_records s) @ drop (rd_at s) segment"
    and "rd_taken s = length (records_image ext (seed sequence) (rd_records s))"
    and "\<forall>r \<in> set (rd_records s). rh_lane (r_header r) = lane \<and> rh_kind (r_header r) \<noteq> Commit"
  shows "\<exists>cms. read_blocks_loop ext segment lane sequence s = rd_out s @ cms
           \<and> holds_blocks ext lane sequence cms (drop start segment)"
  using assms
proof (induction ext segment lane sequence s arbitrary: start rule: read_blocks_loop.induct)
  case (1 ext segment lane sequence s)
  show ?case
  proof (cases "read_blocks_step ext segment lane sequence s")
    case None
    then show ?thesis by (subst read_blocks_loop.simps) simp
  next
    case (Some t)
    have loop: "read_blocks_loop ext segment lane sequence s = read_blocks_loop ext segment lane sequence t"
      using Some by (subst read_blocks_loop.simps) simp
    from Some show ?thesis
    proof (cases rule: read_blocks_step_cases)
      case (one h p rest)
      have "drop (rd_at t) segment = rest" using drop_append_length [OF one(1)] one(4) by simp
      then have "\<exists>cms. read_blocks_loop ext segment lane sequence t = rd_out t @ cms
          \<and> holds_blocks ext lane sequence cms (drop start segment)"
        using one "1.prems" by (intro "1.IH" [OF Some]) (auto simp: records_image_def)
      then show ?thesis using loop one(4) by simp
    next
      case (commit c flags rest)
      let ?cm = "\<lparr>cm_sequence = sequence, cm_commit = c, cm_records = rd_records s\<rparr>"
      have rest: "drop (rd_at t) segment = rest" using drop_append_length [OF commit(1)] commit(4) by simp
      have "\<exists>cms. read_blocks_loop ext segment lane sequence t = rd_out t @ cms
          \<and> holds_blocks ext lane sequence cms (drop (rd_at t) segment)"
        using commit(4) by (intro "1.IH" [OF Some]) (simp_all add: records_image_def)
      then obtain cms where cms: "read_blocks_loop ext segment lane sequence t = rd_out t @ cms"
        "holds_blocks ext lane sequence cms rest" using rest by auto
      have "holds_blocks ext lane sequence (?cm # cms) (drop start segment)"
        using "1.prems" commit cms(2) by (auto simp: Committed_whole_def)
      then show ?thesis using loop cms(1) commit(4) by auto
    qed
  qed
qed

lemma read_blocks_sound:
  "\<exists>cms. read_blocks ext segment at lane sequence out = out @ cms
     \<and> holds_blocks ext lane sequence cms (drop at segment)"
  using read_blocks_loop_sound [of at segment ext sequence
      "\<lparr>rd_at = at, rd_records = [], rd_taken = 0, rd_out = out\<rparr>" lane]
  by (simp add: read_blocks_def records_image_def)

end
