(* ===== verification/Cut.thy ===== *)
theory Cut
  imports Prelude
begin

text \<open>
  The durable cut the lanes of a log share: \<open>rudb-txn/src/log/cut.rs\<close>. The state is what the mutex
  holds, and an operation is what a caller does under it; a \<open>wait\<close> looks once each time the
  condition variable wakes it, and parks when it finds neither the cut far enough nor a failure.

  The specification is a set: \<open>there s\<close>, the commits that are there. The operations refine adding
  one commit and adding all up to one, and in between the cut is the largest timestamp with nothing
  missing at or below it, which is the invariant \<open>Cut_ok\<close>.
\<close>

record Cut =
  ct_at :: u64
  ct_above :: "u64 set"
  ct_failed :: bool

definition Cut_new :: "u64 \<Rightarrow> Cut" where
  "Cut_new at = \<lparr>ct_at = at, ct_above = {}, ct_failed = False\<rparr>"

definition Cut_at :: "Cut \<Rightarrow> u64" where
  "Cut_at s = ct_at s"

text \<open>\<open>u64::checked_add\<close> of one.\<close>

definition checked_succ :: "u64 \<Rightarrow> u64 option" where
  "checked_succ at = (if at = - 1 then None else Some (at + 1))"

text \<open>The loop of \<open>reached\<close> and of \<open>raise\<close>: over every commit after the cut that is there.\<close>

function advance :: "u64 \<Rightarrow> u64 set \<Rightarrow> u64 \<times> u64 set" where
  "advance at later =
     (case checked_succ at of
        None \<Rightarrow> (at, later)
      | Some n \<Rightarrow> if n \<in> later then advance n (later - {n}) else (at, later))"
  by auto
termination
  by (relation "measure (\<lambda>(at, later). card later)") (auto intro: card_Diff1_less simp del: card_Diff_insert)

declare advance.simps [simp del]

definition Cut_reached :: "Cut \<Rightarrow> u64 \<Rightarrow> Cut" where
  "Cut_reached s ts =
     (if ts \<le> ct_at s then s
      else (case advance (ct_at s) (insert ts (ct_above s)) of
              (at, later) \<Rightarrow> s\<lparr>ct_at := at, ct_above := later\<rparr>))"

definition Cut_raise :: "Cut \<Rightarrow> u64 \<Rightarrow> Cut" where
  "Cut_raise s ts =
     (let s = s\<lparr>ct_failed := False\<rparr>;
          s = (if ct_at s < ts
               then s\<lparr>ct_at := ts, ct_above := {t \<in> ct_above s. ts \<le> t} - {ts}\<rparr> else s)
      in case advance (ct_at s) (ct_above s) of
           (at, later) \<Rightarrow> s\<lparr>ct_at := at, ct_above := later\<rparr>)"

definition Cut_fail :: "Cut \<Rightarrow> Cut" where
  "Cut_fail s = s\<lparr>ct_failed := True\<rparr>"

datatype cut_wait = Reached | Lane_failed | Parks

definition Cut_wait :: "Cut \<Rightarrow> u64 \<Rightarrow> cut_wait" where
  "Cut_wait s ts =
     (if ts \<le> ct_at s then Reached else if ct_failed s then Lane_failed else Parks)"

section \<open>The commits that are there\<close>

definition there :: "Cut \<Rightarrow> u64 set" where
  "there s = {..ct_at s} \<union> ct_above s"

definition Cut_ok :: "Cut \<Rightarrow> bool" where
  "Cut_ok s \<longleftrightarrow> (\<forall>t \<in> ct_above s. ct_at s < t) \<and> (ct_at s \<noteq> - 1 \<longrightarrow> ct_at s + 1 \<notin> ct_above s)"

lemma checked_succ_eq_Some: "checked_succ at = Some n \<longleftrightarrow> at < n \<and> {..n} = insert n {..at}"
proof (cases "at = - 1")
  case True
  then show ?thesis by (simp add: checked_succ_def)
next
  case False
  note lt = word_succ(2) [OF False]
  have set: "{..at + 1} = insert (at + 1) {..at}" using word_succ(1) [OF False] by auto
  have "n = at + 1" if "at < n" "{..n} = insert n {..at}"
  proof -
    have "at + 1 \<le> n" using that(1) by (simp add: inc_le)
    then have "at + 1 \<in> insert n {..at}" using that(2) by blast
    then show ?thesis using lt by auto
  qed
  then show ?thesis using False lt set by (auto simp: checked_succ_def)
qed

lemma advance_sound:
  assumes "advance at later = (at', later')" and "\<forall>t \<in> later. at < t"
  shows "{..at'} \<union> later' = {..at} \<union> later" and "at \<le> at'" and "\<forall>t \<in> later'. at' < t"
    and "at' \<noteq> - 1 \<longrightarrow> at' + 1 \<notin> later'"
proof -
  have "{..at'} \<union> later' = {..at} \<union> later \<and> at \<le> at' \<and> (\<forall>t \<in> later'. at' < t)
      \<and> (at' \<noteq> - 1 \<longrightarrow> at' + 1 \<notin> later')"
    using assms
  proof (induction at later rule: advance.induct)
    case (1 at later)
    show ?case
    proof (cases "\<exists>n. checked_succ at = Some n \<and> n \<in> later")
      case True
      then obtain n where n: "checked_succ at = Some n" "n \<in> later" by blast
      note sn = n(1) [unfolded checked_succ_eq_Some]
      have "advance n (later - {n}) = (at', later')"
        using "1.prems"(1) n by (subst (asm) advance.simps) simp
      moreover have "\<forall>t \<in> later - {n}. n < t"
      proof
        fix t assume t: "t \<in> later - {n}"
        then have "t \<notin> {..n}" using "1.prems"(2) sn by auto
        then show "n < t" by simp
      qed
      ultimately show ?thesis using "1.IH" [OF n] sn n(2) by auto
    next
      case False
      then have "at' = at" "later' = later"
        using "1.prems"(1) by (subst (asm) advance.simps; auto split: option.splits if_splits)+
      then show ?thesis using False "1.prems"(2) by (auto simp: checked_succ_def)
    qed
  qed
  then show "{..at'} \<union> later' = {..at} \<union> later" "at \<le> at'" "\<forall>t \<in> later'. at' < t"
    "at' \<noteq> - 1 \<longrightarrow> at' + 1 \<notin> later'" by blast+
qed

lemma Cut_ok_new: "Cut_ok (Cut_new at)" and there_new: "there (Cut_new at) = {..at}"
  by (simp_all add: Cut_ok_def Cut_new_def there_def)

lemma Cut_reached_refines:
  assumes "Cut_ok s"
  shows "Cut_ok (Cut_reached s ts)" and "there (Cut_reached s ts) = insert ts (there s)"
    and "ct_at s \<le> ct_at (Cut_reached s ts)"
proof -
  obtain at' later' where run: "advance (ct_at s) (insert ts (ct_above s)) = (at', later')"
    by (cases "advance (ct_at s) (insert ts (ct_above s))")
  show "Cut_ok (Cut_reached s ts)" "there (Cut_reached s ts) = insert ts (there s)"
    "ct_at s \<le> ct_at (Cut_reached s ts)"
    using advance_sound [OF run] run assms
    by (auto simp: Cut_reached_def Cut_ok_def there_def not_le)
qed

lemma Cut_raise_refines:
  assumes "Cut_ok s"
  shows "Cut_ok (Cut_raise s ts)" and "there (Cut_raise s ts) = {..ts} \<union> there s"
    and "ct_at s \<le> ct_at (Cut_raise s ts) \<and> ts \<le> ct_at (Cut_raise s ts)"
    and "\<not> ct_failed (Cut_raise s ts)"
proof -
  define at where "at = (if ct_at s < ts then ts else ct_at s)"
  define later where "later = (if ct_at s < ts then {t \<in> ct_above s. ts \<le> t} - {ts} else ct_above s)"
  obtain at' later' where run: "advance at later = (at', later')" by (cases "advance at later")
  have later: "\<forall>t \<in> later. at < t" using assms by (auto simp: later_def at_def Cut_ok_def)
  have raise: "Cut_raise s ts = s\<lparr>ct_failed := False, ct_at := at', ct_above := later'\<rparr>"
    using run by (auto simp: Cut_raise_def at_def later_def Let_def)
  have set: "{..at} \<union> later = {..ts} \<union> there s"
    using assms by (auto simp: at_def later_def there_def Cut_ok_def)
  show "Cut_ok (Cut_raise s ts)" "there (Cut_raise s ts) = {..ts} \<union> there s"
    "ct_at s \<le> ct_at (Cut_raise s ts) \<and> ts \<le> ct_at (Cut_raise s ts)" "\<not> ct_failed (Cut_raise s ts)"
    using advance_sound [OF run later] set
    by (auto simp: raise Cut_ok_def there_def at_def split: if_splits)
qed

lemma Cut_fail_refines: "Cut_ok s \<Longrightarrow> Cut_ok (Cut_fail s)" "there (Cut_fail s) = there s"
  by (simp_all add: Cut_fail_def Cut_ok_def there_def)

text \<open>The cut is the largest timestamp at or below which nothing is missing.\<close>

lemma Cut_at_iff:
  assumes "Cut_ok s"
  shows "t \<le> ct_at s \<longleftrightarrow> {..t} \<subseteq> there s"
proof
  assume "{..t} \<subseteq> there s"
  show "t \<le> ct_at s"
  proof (rule ccontr)
    assume "\<not> t \<le> ct_at s"
    then have lt: "ct_at s < t" by simp
    then have "ct_at s \<noteq> - 1" by (metis leD word_order.extremum)
    moreover have "ct_at s + 1 \<le> t" using lt by (simp add: inc_le)
    then have "ct_at s + 1 \<in> there s" using \<open>{..t} \<subseteq> there s\<close> by blast
    moreover have "\<not> ct_at s + 1 \<le> ct_at s"
      using word_succ(2) [OF \<open>ct_at s \<noteq> - 1\<close>] by simp
    ultimately show False using assms by (simp add: there_def Cut_ok_def)
  qed
qed (auto simp: there_def)

section \<open>Any sequence of notes\<close>

datatype cut_note = Reached_at u64 | Raised_to u64 | Lane_fails

fun note_cut :: "Cut \<Rightarrow> cut_note \<Rightarrow> Cut" where
  "note_cut s (Reached_at ts) = Cut_reached s ts"
| "note_cut s (Raised_to ts) = Cut_raise s ts"
| "note_cut s Lane_fails = Cut_fail s"

fun noted :: "cut_note \<Rightarrow> u64 set" where
  "noted (Reached_at ts) = {ts}"
| "noted (Raised_to ts) = {..ts}"
| "noted Lane_fails = {}"

lemma note_cut_refines:
  assumes "Cut_ok s"
  shows "Cut_ok (note_cut s n)" and "there (note_cut s n) = there s \<union> noted n"
  using assms Cut_reached_refines [OF assms] Cut_raise_refines [OF assms] Cut_fail_refines
  by (cases n; auto)+

lemma foldl_note_cut:
  "Cut_ok s \<Longrightarrow> Cut_ok (foldl note_cut s ns) \<and> there (foldl note_cut s ns) = there s \<union> (\<Union>n \<in> set ns. noted n)"
  by (induction ns arbitrary: s) (auto simp: note_cut_refines)

text \<open>
  C24. The cut is exact. However commits are noted, raised over and failed, in whatever order, the cut
  has reached a timestamp just when every timestamp up to it was at or below where the cut began, or
  noted, or raised over.
\<close>

theorem cut_exact:
  "t \<le> Cut_at (foldl note_cut (Cut_new start) ns) \<longleftrightarrow>
     {..t} \<subseteq> {..start} \<union> (\<Union>n \<in> set ns. noted n)"
  using Cut_at_iff [of "foldl note_cut (Cut_new start) ns" t]
    foldl_note_cut [OF Cut_ok_new [of start], of ns]
  by (simp add: there_new Cut_at_def)


end
