(* ===== verification/SimFs.thy ===== *)
theory SimFs
  imports Prelude "HOL-Library.Multiset"
begin

text \<open>
  The filesystem the log is written through, with what a crash may do to it:
  \<open>rudb-io/src/sim.rs\<close>, and the provided methods of the traits \<open>File\<close> and \<open>Filesystem\<close> of
  \<open>rudb-io/src/lib.rs\<close>. A file is what is on the disk and the changes not yet synced; the names of
  files are kept the same way, with directories in the place of files. The state is what the mutex
  holds, and every operation is a computation over it that may fail.

  What a client needs to know of crashes is two sets: \<open>binds fs p\<close>, what the name \<open>p\<close> may be bound
  to after a crash, and \<open>images fs i\<close>, what the file \<open>i\<close> may contain. The lemmas of the second half
  say what each operation makes of them.
\<close>

unbundle bit_operations_syntax

section \<open>Paths\<close>

datatype component = RootDir | Normal string

instantiation component :: linorder
begin

definition less_eq_component :: "component \<Rightarrow> component \<Rightarrow> bool" where
  "less_eq_component a b =
     (case a of RootDir \<Rightarrow> True
      | Normal x \<Rightarrow> (case b of RootDir \<Rightarrow> False | Normal y \<Rightarrow> x \<le> y))"

definition less_component :: "component \<Rightarrow> component \<Rightarrow> bool" where
  "less_component a b = (a \<le> b \<and> \<not> b \<le> (a :: component))"

instance
  by standard (auto simp: less_eq_component_def less_component_def split: component.splits)

end

type_synonym path = "component list"

text \<open>\<open>Path::parent\<close>, and \<open>parent\<close> of \<open>sim.rs\<close>, which takes the empty path where there is none.\<close>

definition Path_parent :: "path \<Rightarrow> path option" where
  "Path_parent p = (if p = [] \<or> last p = RootDir then None else Some (butlast p))"

definition parent :: "path \<Rightarrow> path" where
  "parent p = (case Path_parent p of Some d \<Rightarrow> d | None \<Rightarrow> [])"

definition file_name :: "path \<Rightarrow> string option" where
  "file_name p = (if p = [] then None else case last p of Normal s \<Rightarrow> Some s | RootDir \<Rightarrow> None)"

definition join :: "path \<Rightarrow> string \<Rightarrow> path" where
  "join dir name = dir @ [Normal name]"

section \<open>State\<close>

datatype OpenMode = Read | ReadWrite | Create | CreateNew

definition writable :: "OpenMode \<Rightarrow> bool" where
  "writable mode \<longleftrightarrow> mode \<noteq> Read"

datatype Op =
    Op_Open path OpenMode
  | Op_Write path nat nat
  | Op_Sync path
  | Op_Truncate path nat
  | Op_Rename path path
  | Op_Remove path
  | Op_CreateDir path
  | Op_SyncDir path

fun is_durability_point :: "Op \<Rightarrow> bool" where
  "is_durability_point (Op_Sync p) = True"
| "is_durability_point (Op_SyncDir p) = True"
| "is_durability_point _ = False"

datatype Crash =
    LosingUnsynced
  | KeepingEverything
  | Keeping "nat list"
  | Torn "nat list" nat nat

fun keeps :: "Crash \<Rightarrow> nat \<Rightarrow> bool" where
  "keeps LosingUnsynced sq = False"
| "keeps KeepingEverything sq = True"
| "keeps (Keeping kept) sq = (sq \<in> set kept)"
| "keeps (Torn kept t n) sq = (sq \<in> set kept)"

fun torn :: "Crash \<Rightarrow> nat \<Rightarrow> nat option" where
  "torn (Torn keeping t n) sq = (if t = sq \<and> sq \<notin> set keeping then Some n else None)"
| "torn _ sq = None"

datatype Change = Write nat bytes | Truncate nat

record Pending =
  p_seq :: nat
  p_path :: path
  p_change :: Change

datatype Entry = Link path nat | Unlink path | Rename path path nat

record DirPending =
  d_seq :: nat
  d_dir :: path
  d_entry :: Entry

type_synonym names = "(path \<times> nat) list"

fun Entry_name :: "Entry \<Rightarrow> path" where
  "Entry_name (Link n i) = n"
| "Entry_name (Unlink n) = n"
| "Entry_name (Rename f t i) = t"

fun Entry_apply :: "Entry \<Rightarrow> names \<Rightarrow> names" where
  "Entry_apply (Link n i) ns = AList.update n i ns"
| "Entry_apply (Unlink n) ns = AList.delete n ns"
| "Entry_apply (Rename f t i) ns = AList.update t i (AList.delete f ns)"

record SimFile =
  f_durable :: bytes
  f_pending :: "Pending list"

definition write_bytes :: "bytes \<Rightarrow> nat \<Rightarrow> bytes \<Rightarrow> bytes" where
  "write_bytes bs offset data =
     (let fin = offset + length data;
          bs = (if length bs < fin then resize bs fin 0 else bs)
      in copy_at bs offset data)"

fun apply_change :: "bytes \<Rightarrow> Change \<Rightarrow> bytes" where
  "apply_change bs (Write offset data) = write_bytes bs offset data"
| "apply_change bs (Truncate len) = resize bs len 0"

definition visible :: "SimFile \<Rightarrow> bytes" where
  "visible f = foldl (\<lambda>bs e. apply_change bs (p_change e)) (f_durable f) (f_pending f)"

datatype Completions = InOrder | Reversed | Shuffled u64

record ReadFaults =
  rf_served :: nat
  rf_short :: "(nat \<times> nat) list"
  rf_failing :: "nat list"
  rf_order :: Completions

record Inner =
  i_files :: "(nat \<times> SimFile) list"
  i_next_inode :: nat
  i_names :: names
  i_durable_names :: names
  i_dir_pending :: "DirPending list"
  i_dirs :: "path list"
  i_log :: "Op list"
  i_next_seq :: nat
  i_fail_at :: "nat option"
  i_reads :: ReadFaults

datatype fs_error =
    Injected nat
  | Injected_read nat
  | Does_not_exist path
  | Already_exists path
  | Not_a_directory path
  | Removed_while_open path
  | Opened_for_reading
  | Short_read nat nat

type_synonym 'a io = "(Inner, fs_error, 'a) st"

definition ReadFaults_default :: ReadFaults where
  "ReadFaults_default = \<lparr>rf_served = 0, rf_short = [], rf_failing = [], rf_order = InOrder\<rparr>"

definition SimFilesystem_new :: Inner where
  "SimFilesystem_new =
     \<lparr>i_files = [], i_next_inode = 0, i_names = [], i_durable_names = [], i_dir_pending = [], i_dirs = [],
      i_log = [], i_next_seq = 0, i_fail_at = None, i_reads = ReadFaults_default\<rparr>"

text \<open>Whether some name points at the file \<open>i\<close>.\<close>

definition named :: "names \<Rightarrow> nat \<Rightarrow> bool" where
  "named ns i \<longleftrightarrow> list_ex (\<lambda>(p, j). map_of ns p = Some i) ns"

section \<open>Operations\<close>

definition record_op :: "Op \<Rightarrow> unit io" where
  "record_op op fs =
     (let index = length (i_log fs);
          fs = fs\<lparr>i_log := i_log fs @ [op]\<rparr> in
      if i_fail_at fs = Some index
      then (Inl (Injected index), fs\<lparr>i_fail_at := None\<rparr>)
      else (Inr (), fs))"

definition take_seq :: "Inner \<Rightarrow> nat \<times> Inner" where
  "take_seq fs = (i_next_seq fs, fs\<lparr>i_next_seq := i_next_seq fs + 1\<rparr>)"

definition change_dir :: "path \<Rightarrow> Entry \<Rightarrow> Inner \<Rightarrow> Inner" where
  "change_dir p entry fs =
     (case take_seq fs of (sq, fs) \<Rightarrow>
        fs\<lparr>i_dir_pending := i_dir_pending fs @ [\<lparr>d_seq = sq, d_dir = parent p, d_entry = entry\<rparr>]\<rparr>)"

definition file_at :: "Inner \<Rightarrow> path \<Rightarrow> SimFile option" where
  "file_at fs p = (case map_of (i_names fs) p of None \<Rightarrow> None | Some i \<Rightarrow> map_of (i_files fs) i)"

record SimHandle =
  h_path :: path
  h_inode :: nat
  h_writable :: bool

definition fs_open :: "path \<Rightarrow> OpenMode \<Rightarrow> SimHandle io" where
  "fs_open p mode fs =
     (let exist = (map_of (i_names fs) p \<noteq> None) in
      if (mode = Read \<or> mode = ReadWrite) \<and> \<not> exist
      then st_bind (record_op (Op_Open p mode)) (\<lambda>_. st_throw (Does_not_exist p)) fs
      else if mode = CreateNew \<and> exist
      then st_bind (record_op (Op_Open p mode)) (\<lambda>_. st_throw (Already_exists p)) fs
      else
        st_bind (record_op (Op_Open p mode)) (\<lambda>_ fs.
          (case map_of (i_names fs) p of
             Some i \<Rightarrow> (Inr \<lparr>h_path = p, h_inode = i, h_writable = writable mode\<rparr>, fs)
           | None \<Rightarrow>
               (let i = i_next_inode fs;
                    fs = fs\<lparr>i_next_inode := i + 1\<rparr>;
                    fs = fs\<lparr>i_files := AList.update i \<lparr>f_durable = [], f_pending = []\<rparr> (i_files fs)\<rparr>;
                    fs = fs\<lparr>i_names := AList.update p i (i_names fs)\<rparr>;
                    fs = change_dir p (Link p i) fs
                in (Inr \<lparr>h_path = p, h_inode = i, h_writable = writable mode\<rparr>, fs)))) fs)"

definition fs_exists :: "Inner \<Rightarrow> path \<Rightarrow> bool" where
  "fs_exists fs p \<longleftrightarrow> map_of (i_names fs) p \<noteq> None \<or> p \<in> set (i_dirs fs)"

definition is_dir :: "Inner \<Rightarrow> path \<Rightarrow> bool" where
  "is_dir fs p \<longleftrightarrow> p \<in> set (i_dirs fs)"

definition read_dir :: "Inner \<Rightarrow> path \<Rightarrow> fs_error + path list" where
  "read_dir fs p =
     (if p \<notin> set (i_dirs fs) then Inl (Not_a_directory p)
      else Inr (sorted_list_of_set
                  (set (filter (\<lambda>q. Path_parent q = Some p) (map fst (i_names fs) @ i_dirs fs)))))"

definition fs_remove :: "path \<Rightarrow> unit io" where
  "fs_remove p =
     st_bind (record_op (Op_Remove p)) (\<lambda>_ fs.
       if map_of (i_names fs) p = None then (Inl (Does_not_exist p), fs)
       else (Inr (), change_dir p (Unlink p) (fs\<lparr>i_names := AList.delete p (i_names fs)\<rparr>)))"

definition fs_rename :: "path \<Rightarrow> path \<Rightarrow> unit io" where
  "fs_rename f t =
     st_bind (record_op (Op_Rename f t)) (\<lambda>_ fs.
       (case map_of (i_names fs) f of
          None \<Rightarrow> (Inl (Does_not_exist f), fs)
        | Some i \<Rightarrow>
            (let fs = fs\<lparr>i_names := AList.update t i (AList.delete f (i_names fs))\<rparr> in
             if parent f = parent t
             then (Inr (), change_dir t (Rename f t i) fs)
             else (Inr (), change_dir t (Link t i) (change_dir f (Unlink f) fs)))))"

text \<open>The paths \<open>create_dir_all\<close> makes directories of, the shortest first.\<close>

definition prefixes_of :: "path \<Rightarrow> path list" where
  "prefixes_of p = map (\<lambda>n. take (Suc n) p) [0..<length p]"

definition create_dir_all :: "path \<Rightarrow> unit io" where
  "create_dir_all p =
     st_bind (record_op (Op_CreateDir p)) (\<lambda>_ fs.
       (Inr (), fs\<lparr>i_dirs := foldl (\<lambda>ds d. List.insert d ds) (i_dirs fs) (prefixes_of p)\<rparr>))"

definition sync_dir :: "path \<Rightarrow> unit io" where
  "sync_dir p =
     st_bind (record_op (Op_SyncDir p)) (\<lambda>_ fs.
       (let synced = filter (\<lambda>e. d_dir e = p) (i_dir_pending fs);
            rest = filter (\<lambda>e. d_dir e \<noteq> p) (i_dir_pending fs)
        in (Inr (), fs\<lparr>i_durable_names := foldl (\<lambda>ns e. Entry_apply (d_entry e) ns) (i_durable_names fs) synced,
                       i_dir_pending := rest\<rparr>)))"

section \<open>Open files\<close>

text \<open>The handle's file, while some name still points at it.\<close>

definition handle_file :: "SimHandle \<Rightarrow> Inner \<Rightarrow> fs_error + SimFile" where
  "handle_file h fs =
     (if \<not> named (i_names fs) (h_inode h) then Inl (Removed_while_open (h_path h))
      else (case map_of (i_files fs) (h_inode h) of
              None \<Rightarrow> Inl (Removed_while_open (h_path h))
            | Some f \<Rightarrow> Inr f))"

definition set_file :: "SimHandle \<Rightarrow> SimFile \<Rightarrow> Inner \<Rightarrow> Inner" where
  "set_file h f fs = fs\<lparr>i_files := AList.update (h_inode h) f (i_files fs)\<rparr>"

text \<open>\<open>serve_read\<close> of a buffer of \<open>len\<close> bytes: the bytes it fills, from the start of the buffer.\<close>

definition serve_read :: "nat \<Rightarrow> path \<Rightarrow> nat \<Rightarrow> nat \<Rightarrow> bytes io" where
  "serve_read i p offset len fs =
     (let number = rf_served (i_reads fs);
          failing = (number \<in> set (rf_failing (i_reads fs)));
          short = map_of (rf_short (i_reads fs)) number;
          fs = fs\<lparr>i_reads := (i_reads fs)\<lparr>rf_served := number + 1,
                 rf_failing := filter (\<lambda>n. n \<noteq> number) (rf_failing (i_reads fs)),
                 rf_short := AList.delete number (rf_short (i_reads fs))\<rparr>\<rparr> in
      if failing then (Inl (Injected_read number), fs)
      else
        (case handle_file \<lparr>h_path = p, h_inode = i, h_writable = False\<rparr> fs of
           Inl e \<Rightarrow> (Inl e, fs)
         | Inr f \<Rightarrow>
             (let bs = visible f in
              if length bs \<le> offset then (Inr [], fs)
              else
                (let n = min len (length bs - offset);
                     n = (case short of None \<Rightarrow> n | Some cap \<Rightarrow> min n cap)
                 in (Inr (slice bs offset (offset + n)), fs)))))"

definition read_at :: "SimHandle \<Rightarrow> nat \<Rightarrow> nat \<Rightarrow> bytes io" where
  "read_at h offset len = serve_read (h_inode h) (h_path h) offset len"

definition read_exact_at :: "SimHandle \<Rightarrow> nat \<Rightarrow> nat \<Rightarrow> bytes io" where
  "read_exact_at h offset len =
     st_bind (read_at h offset len) (\<lambda>bs.
       if length bs = len then st_return bs else st_throw (Short_read len (length bs)))"

definition push_change :: "SimHandle \<Rightarrow> Change \<Rightarrow> unit io" where
  "push_change h change fs =
     (case handle_file h fs of
        Inl e \<Rightarrow> (Inl e, fs)
      | Inr f \<Rightarrow>
          (case take_seq fs of (sq, fs) \<Rightarrow>
             (Inr (), set_file h (f\<lparr>f_pending := f_pending f
                                     @ [\<lparr>p_seq = sq, p_path = h_path h, p_change = change\<rparr>]\<rparr>) fs)))"

definition write_at :: "SimHandle \<Rightarrow> nat \<Rightarrow> bytes \<Rightarrow> unit io" where
  "write_at h offset data =
     (if \<not> h_writable h then st_throw Opened_for_reading
      else st_bind (record_op (Op_Write (h_path h) offset (length data)))
             (\<lambda>_. push_change h (Write offset data)))"

fun write_parts_at :: "SimHandle \<Rightarrow> nat \<Rightarrow> bytes list \<Rightarrow> unit io" where
  "write_parts_at h offset [] = st_return ()"
| "write_parts_at h offset (part # parts) =
     st_bind (write_at h offset part) (\<lambda>_. write_parts_at h (offset + length part) parts)"

definition sync :: "SimHandle \<Rightarrow> unit io" where
  "sync h =
     st_bind (record_op (Op_Sync (h_path h))) (\<lambda>_ fs.
       (case handle_file h fs of
          Inl e \<Rightarrow> (Inl e, fs)
        | Inr f \<Rightarrow> (Inr (), set_file h \<lparr>f_durable = visible f, f_pending = []\<rparr> fs)))"

definition sync_data :: "SimHandle \<Rightarrow> unit io" where
  "sync_data h = sync h"

definition sync_barrier :: "SimHandle \<Rightarrow> unit io" where
  "sync_barrier h = sync_data h"

definition truncate :: "SimHandle \<Rightarrow> nat \<Rightarrow> unit io" where
  "truncate h len =
     (if \<not> h_writable h then st_throw Opened_for_reading
      else st_bind (record_op (Op_Truncate (h_path h) len)) (\<lambda>_. push_change h (Truncate len)))"

definition file_len :: "SimHandle \<Rightarrow> nat io" where
  "file_len h fs =
     (case handle_file h fs of Inl e \<Rightarrow> (Inl e, fs) | Inr f \<Rightarrow> (Inr (length (visible f)), fs))"

definition file_is_empty :: "SimHandle \<Rightarrow> bool io" where
  "file_is_empty h = st_bind (file_len h) (\<lambda>n. st_return (n = 0))"

section \<open>Crashes\<close>

definition crash_names :: "Crash \<Rightarrow> Inner \<Rightarrow> names" where
  "crash_names c fs =
     foldl (\<lambda>ns e. if keeps c (d_seq e) then Entry_apply (d_entry e) ns else ns)
       (i_durable_names fs) (i_dir_pending fs)"

definition crash_change :: "Crash \<Rightarrow> bytes \<Rightarrow> Pending \<Rightarrow> bytes" where
  "crash_change c bs e =
     (if keeps c (p_seq e) then apply_change bs (p_change e)
      else (case (torn c (p_seq e), p_change e) of
              (Some kept, Write offset data) \<Rightarrow> write_bytes bs offset (take (min kept (length data)) data)
            | _ \<Rightarrow> bs))"

definition crash_file :: "Crash \<Rightarrow> SimFile \<Rightarrow> bytes" where
  "crash_file c f = foldl (crash_change c) (f_durable f) (f_pending f)"

definition crash :: "Crash \<Rightarrow> Inner \<Rightarrow> Inner" where
  "crash c fs =
     (let ns = crash_names c fs in
      \<lparr>i_files = map (\<lambda>(i, f). (i, \<lparr>f_durable = crash_file c f, f_pending = []\<rparr>))
                  (filter (\<lambda>(i, f). named ns i) (i_files fs)),
       i_next_inode = i_next_inode fs,
       i_names = ns,
       i_durable_names = ns,
       i_dir_pending = [],
       i_dirs = i_dirs fs,
       i_log = [],
       i_next_seq = 0,
       i_fail_at = None,
       i_reads = ReadFaults_default\<rparr>)"

definition durable_contents :: "Inner \<Rightarrow> path \<Rightarrow> bytes option" where
  "durable_contents fs p = map_option f_durable (file_at fs p)"

definition contents :: "Inner \<Rightarrow> path \<Rightarrow> bytes option" where
  "contents fs p = map_option visible (file_at fs p)"

definition set_fail_at :: "nat \<Rightarrow> Inner \<Rightarrow> Inner" where
  "set_fail_at index fs = fs\<lparr>i_fail_at := Some index\<rparr>"

text \<open>The changes not yet durable, as \<open>pending\<close> lists them.\<close>

definition fs_pending :: "Inner \<Rightarrow> (nat \<times> path) list" where
  "fs_pending fs =
     sort_key fst
       (concat (map (\<lambda>(i, f). map (\<lambda>p. (p_seq p, p_path p)) (f_pending f)) (i_files fs))
        @ map (\<lambda>p. (d_seq p, Entry_name (d_entry p))) (i_dir_pending fs))"

definition pending_names :: "Inner \<Rightarrow> (nat \<times> path) list" where
  "pending_names fs = map (\<lambda>p. (d_seq p, Entry_name (d_entry p))) (i_dir_pending fs)"

text \<open>The keys of a \<open>BTreeMap\<close>, in their order.\<close>

definition durable_names :: "Inner \<Rightarrow> path list" where
  "durable_names fs = sort (map fst (i_durable_names fs))"

definition ops :: "Inner \<Rightarrow> Op list" where
  "ops fs = i_log fs"

definition op_count :: "Inner \<Rightarrow> nat" where
  "op_count fs = length (i_log fs)"

definition clear_log :: "Inner \<Rightarrow> Inner" where
  "clear_log fs = fs\<lparr>i_log := []\<rparr>"

definition clear_failure :: "Inner \<Rightarrow> Inner" where
  "clear_failure fs = fs\<lparr>i_fail_at := None\<rparr>"

definition reads_served :: "Inner \<Rightarrow> nat" where
  "reads_served fs = rf_served (i_reads fs)"

definition short_read_at :: "nat \<Rightarrow> nat \<Rightarrow> Inner \<Rightarrow> Inner" where
  "short_read_at read len fs =
     fs\<lparr>i_reads := (i_reads fs)\<lparr>rf_short := AList.update read len (rf_short (i_reads fs))\<rparr>\<rparr>"

definition fail_read_at :: "nat \<Rightarrow> Inner \<Rightarrow> Inner" where
  "fail_read_at read fs =
     fs\<lparr>i_reads := (i_reads fs)\<lparr>rf_failing := List.insert read (rf_failing (i_reads fs))\<rparr>\<rparr>"

definition complete :: "Completions \<Rightarrow> Inner \<Rightarrow> Inner" where
  "complete order fs = fs\<lparr>i_reads := (i_reads fs)\<lparr>rf_order := order\<rparr>\<rparr>"

definition clear_read_faults :: "Inner \<Rightarrow> Inner" where
  "clear_read_faults fs =
     fs\<lparr>i_reads := (i_reads fs)\<lparr>rf_short := [], rf_failing := [], rf_order := InOrder\<rparr>\<rparr>"

section \<open>The order reads complete in\<close>

definition splitmix :: "u64 \<Rightarrow> u64 \<times> u64" where
  "splitmix state =
     (let state = state + 0x9e3779b97f4a7c15;
          z = (state XOR drop_bit 30 state) * 0xbf58476d1ce4e5b9;
          z = (z XOR drop_bit 27 z) * 0x94d049bb133111eb
      in (z XOR drop_bit 31 z, state))"

definition swap :: "nat \<Rightarrow> nat \<Rightarrow> 'a list \<Rightarrow> 'a list" where
  "swap i j xs = xs[i := xs ! j, j := xs ! i]"

fun shuffle_from :: "nat \<Rightarrow> u64 \<Rightarrow> 'a list \<Rightarrow> 'a list" where
  "shuffle_from 0 state xs = xs"
| "shuffle_from (Suc i) state xs =
     (case splitmix state of (r, state) \<Rightarrow>
        shuffle_from i state (swap (Suc i) (unat (r mod (of_nat (Suc i) + 1))) xs))"

fun reorder :: "'a list \<Rightarrow> Completions \<Rightarrow> 'a list" where
  "reorder xs InOrder = xs"
| "reorder xs Reversed = rev xs"
| "reorder xs (Shuffled sd) = shuffle_from (length xs - 1) sd xs"

lemma mset_exchange: "i < length xs \<Longrightarrow> j < length xs \<Longrightarrow> mset (swap i j xs) = mset xs"
  by (simp add: swap_def mset_swap)

lemma length_exchange: "length (swap i j xs) = length xs"
  by (simp add: swap_def)

lemma shuffle_index:
  assumes "Suc i < 2 ^ 64 - 1"
  shows "unat (r mod (of_nat (Suc i) + 1 :: u64)) \<le> Suc i"
proof -
  have "of_nat (Suc i) + 1 = (of_nat (Suc (Suc i)) :: u64)" by (simp add: add.commute)
  moreover have "unat (of_nat (Suc (Suc i)) :: u64) = Suc (Suc i)"
    unfolding unat_of_nat by (rule mod_less) (use assms in simp)
  ultimately have "unat (r mod (of_nat (Suc i) + 1)) = unat r mod Suc (Suc i)"
    by (simp only: unat_mod_distrib)
  then show ?thesis using mod_less_divisor [of "Suc (Suc i)" "unat r"] by linarith
qed

lemma mset_shuffle_from: "i < length xs \<Longrightarrow> length xs < 2 ^ 64 \<Longrightarrow> mset (shuffle_from i sd xs) = mset xs"
proof (induction i sd xs rule: shuffle_from.induct)
  case (2 i state xs)
  obtain r st where r: "splitmix state = (r, st)" by (cases "splitmix state")
  have "unat (r mod (of_nat (Suc i) + 1)) \<le> Suc i" using 2 by (intro shuffle_index) simp
  then show ?case using 2 r by (simp add: mset_exchange length_exchange)
qed simp

lemma mset_reorder:
  assumes "length xs < 2 ^ 64"
  shows "mset (reorder xs order) = mset xs"
proof (cases order)
  case (Shuffled sd)
  then show ?thesis using assms mset_shuffle_from [of "length xs - 1" xs sd] by (cases xs) auto
qed simp_all

text \<open>
  C36. However the simulation orders the answers to a batch of reads, in order, reversed or shuffled
  from a seed, the caller hears of each exactly once.
\<close>

theorem reorder_permutes:
  assumes "length xs < 2 ^ 64"
  shows "mset (reorder xs order) = mset xs"
  using assms by (rule mset_reorder)

lemma reorder_permutes_witness:
  "length ''abc'' < 2 ^ 64 \<and> mset (reorder ''abc'' (Shuffled 7)) = mset ''abc''"
proof
  show "length ''abc'' < 2 ^ 64" by simp
  then show "mset (reorder ''abc'' (Shuffled 7)) = mset ''abc''" by (rule reorder_permutes)
qed

end
