(* ===== verification/Durability.thy ===== *)
theory Durability
  imports SimFs
begin

text \<open>
  What survives a crash of the filesystem of \<^theory_text>\<open>SimFs\<close>. \<open>binds fs p\<close> is the set of what the name
  \<open>p\<close> may be bound to afterwards and \<open>images fs i\<close> the set of what file \<open>i\<close> may contain. A write
  adds what it may leave to the images, a sync leaves the visible contents alone in them, and the
  same goes for the names and the sync of their directory. \<open>fs_ok\<close> is the invariant of the
  filesystem that every operation keeps.
\<close>

section \<open>Definitions\<close>

text \<open>
  A disk writes a sector of 512 bytes whole or not at all, so a torn write ends between two sectors
  of what it writes.
\<close>

fun sector_atomic :: "Crash \<Rightarrow> bool" where
  "sector_atomic (Torn keeping t n) = (512 dvd n)"
| "sector_atomic _ = True"

text \<open>What a change to a directory makes of one name: nothing, or a new binding.\<close>

fun effect :: "Entry \<Rightarrow> path \<Rightarrow> nat option option" where
  "effect (Link n i) p = (if p = n then Some (Some i) else None)"
| "effect (Unlink n) p = (if p = n then Some None else None)"
| "effect (Rename f t i) p = (if p = t then Some (Some i) else if p = f then Some None else None)"

definition bind_step :: "Crash \<Rightarrow> path \<Rightarrow> nat option \<Rightarrow> DirPending \<Rightarrow> nat option" where
  "bind_step c p v e =
     (if keeps c (d_seq e) then (case effect (d_entry e) p of None \<Rightarrow> v | Some w \<Rightarrow> w) else v)"

definition bind_at :: "Crash \<Rightarrow> Inner \<Rightarrow> path \<Rightarrow> nat option" where
  "bind_at c fs p = foldl (bind_step c p) (map_of (i_durable_names fs) p) (i_dir_pending fs)"

definition binds :: "Inner \<Rightarrow> path \<Rightarrow> nat option set" where
  "binds fs p = range (\<lambda>c. bind_at c fs p)"

definition images :: "Inner \<Rightarrow> nat \<Rightarrow> bytes set" where
  "images fs i = {crash_file c f | c f. sector_atomic c \<and> map_of (i_files fs) i = Some f}"

definition sees :: "Inner \<Rightarrow> path \<Rightarrow> nat option" where
  "sees fs p = map_of (i_names fs) p"

definition content :: "Inner \<Rightarrow> nat \<Rightarrow> bytes option" where
  "content fs i = map_option visible (map_of (i_files fs) i)"

fun entry_in :: "path \<Rightarrow> Entry \<Rightarrow> bool" where
  "entry_in d (Link n i) = (parent n = d)"
| "entry_in d (Unlink n) = (parent n = d)"
| "entry_in d (Rename f t i) = (parent f = d \<and> parent t = d)"

definition fs_ok :: "Inner \<Rightarrow> bool" where
  "fs_ok fs \<longleftrightarrow>
     (\<forall>e \<in> set (i_dir_pending fs). entry_in (d_dir e) (d_entry e))
     \<and> (\<forall>p. sees fs p = bind_at KeepingEverything fs p)
     \<and> (\<forall>p i. Some i \<in> binds fs p \<longrightarrow> map_of (i_files fs) i \<noteq> None)
     \<and> (\<forall>i. map_of (i_files fs) i \<noteq> None \<longrightarrow> i < i_next_inode fs)"

text \<open>The parts of the state a crash looks at, which recording an operation leaves alone.\<close>

definition same_disk :: "Inner \<Rightarrow> Inner \<Rightarrow> bool" where
  "same_disk fs fs' \<longleftrightarrow>
     i_files fs' = i_files fs \<and> i_next_inode fs' = i_next_inode fs \<and> i_names fs' = i_names fs
     \<and> i_durable_names fs' = i_durable_names fs \<and> i_dir_pending fs' = i_dir_pending fs
     \<and> i_dirs fs' = i_dirs fs"

section \<open>Names\<close>

lemma map_of_Entry_apply:
  "map_of (Entry_apply e ns) p = (case effect e p of None \<Rightarrow> map_of ns p | Some w \<Rightarrow> w)"
  by (cases e) (auto simp: update_conv' delete_conv')

lemma map_of_crash_names: "map_of (crash_names c fs) p = bind_at c fs p"
proof -
  have "map_of (foldl (\<lambda>ns e. if keeps c (d_seq e) then Entry_apply (d_entry e) ns else ns) ns es) p
      = foldl (bind_step c p) (map_of ns p) es" for ns es
    by (induction es arbitrary: ns) (auto simp: bind_step_def map_of_Entry_apply)
  then show ?thesis by (simp add: crash_names_def bind_at_def)
qed

lemma bind_at_snoc:
  "bind_at c (fs\<lparr>i_dir_pending := i_dir_pending fs @ [e]\<rparr>) p = bind_step c p (bind_at c fs p) e"
  by (simp add: bind_at_def)

lemma sees_binds: "fs_ok fs \<Longrightarrow> sees fs p \<in> binds fs p"
  by (auto simp: fs_ok_def binds_def)

lemma effect_other_dir: "entry_in d e \<Longrightarrow> parent p \<noteq> d \<Longrightarrow> effect e p = None"
  by (cases e) auto

lemma same_disk_facts:
  assumes "same_disk fs fs'"
  shows "binds fs' = binds fs" and "images fs' = images fs" and "sees fs' = sees fs"
    and "content fs' = content fs" and "fs_ok fs' = fs_ok fs" and "i_files fs' = i_files fs"
    and "i_names fs' = i_names fs" and "i_dirs fs' = i_dirs fs" and "i_next_inode fs' = i_next_inode fs"
    and "bind_at c fs' = bind_at c fs"
proof -
  note f = assms [unfolded same_disk_def]
  show bind: "bind_at c fs' = bind_at c fs" for c using f by (simp add: bind_at_def fun_eq_iff)
  show binds: "binds fs' = binds fs" by (simp add: binds_def fun_eq_iff bind)
  show sees: "sees fs' = sees fs" using f by (simp add: sees_def fun_eq_iff)
  show "images fs' = images fs" "content fs' = content fs"
    using f by (simp_all add: images_def content_def fun_eq_iff)
  show "fs_ok fs' = fs_ok fs" using f by (simp only: fs_ok_def binds sees bind)
  show "i_files fs' = i_files fs" "i_names fs' = i_names fs" "i_dirs fs' = i_dirs fs"
    "i_next_inode fs' = i_next_inode fs" using f by simp_all
qed

lemma same_disk_refl [simp]: "same_disk fs fs"
  by (simp add: same_disk_def)

lemma same_disk_trans: "same_disk a b \<Longrightarrow> same_disk b c \<Longrightarrow> same_disk a c"
  by (simp add: same_disk_def)

lemma record_op_same_disk: "same_disk fs (snd (record_op op fs))"
  by (simp add: record_op_def same_disk_def Let_def)

lemma record_op_cases:
  obtains (ok) fs' where "record_op op fs = (Inr (), fs')" "same_disk fs fs'"
  | (failed) e fs' where "record_op op fs = (Inl e, fs')" "same_disk fs fs'"
proof (cases "record_op op fs")
  case (Pair r fs')
  then have "same_disk fs fs'" using record_op_same_disk [of fs op] by simp
  then show thesis using Pair ok failed by (cases r) auto
qed

lemma named_iff: "named ns i \<longleftrightarrow> (\<exists>p. map_of ns p = Some i)"
proof
  assume "\<exists>p. map_of ns p = Some i"
  then obtain p where "map_of ns p = Some i" by blast
  then show "named ns i" using map_of_SomeD [of ns p i] by (force simp: named_def list_ex_iff)
qed (auto simp: named_def list_ex_iff)

section \<open>Files\<close>

lemma visible_crash_file: "visible f = crash_file KeepingEverything f"
proof -
  have "crash_change KeepingEverything = (\<lambda>bs e. apply_change bs (p_change e))"
    by (simp add: crash_change_def fun_eq_iff)
  then show ?thesis by (simp add: visible_def crash_file_def)
qed

lemma content_image: "content fs i = Some b \<Longrightarrow> b \<in> images fs i"
  by (force simp: content_def images_def visible_crash_file intro: exI [of _ KeepingEverything])

text \<open>What a write may leave of a file that held \<open>b\<close>.\<close>

definition after_write :: "nat \<Rightarrow> bytes \<Rightarrow> bytes \<Rightarrow> bytes set" where
  "after_write off data b =
     insert b {write_bytes b off (take n data) | n. 512 dvd n \<or> length data \<le> n}"

lemma crash_change_after_write:
  assumes "sector_atomic c" and "p_change e = Write off data"
  shows "crash_change c b e \<in> after_write off data b"
proof -
  consider "keeps c (p_seq e)" | n where "\<not> keeps c (p_seq e)" "torn c (p_seq e) = Some n"
    | "\<not> keeps c (p_seq e)" "torn c (p_seq e) = None" by (cases "torn c (p_seq e)") auto
  then show ?thesis
  proof cases
    case 1
    then have "crash_change c b e = write_bytes b off (take (length data) data)"
      using assms by (simp add: crash_change_def)
    then show ?thesis unfolding after_write_def by blast
  next
    case 2
    then have "512 dvd n" using assms(1) by (cases c) (auto split: if_splits)
    moreover have "take (min n (length data)) data = take n data" by (simp add: min_def)
    ultimately show ?thesis using 2 assms(2) by (auto simp: crash_change_def after_write_def)
  next
    case 3
    then show ?thesis using assms(2) by (simp add: crash_change_def after_write_def)
  qed
qed

text \<open>The names are as they were, in the process and on the disk.\<close>

definition names_same :: "Inner \<Rightarrow> Inner \<Rightarrow> bool" where
  "names_same fs fs' \<longleftrightarrow> (\<forall>c. bind_at c fs' = bind_at c fs) \<and> sees fs' = sees fs \<and> i_dirs fs' = i_dirs fs"

definition files_same :: "Inner \<Rightarrow> Inner \<Rightarrow> bool" where
  "files_same fs fs' \<longleftrightarrow> content fs' = content fs \<and> images fs' = images fs"

lemma names_same_binds: "names_same fs fs' \<Longrightarrow> binds fs' = binds fs"
  by (simp add: names_same_def binds_def fun_eq_iff)

lemma same_disk_same: "same_disk fs fs' \<Longrightarrow> names_same fs fs' \<and> files_same fs fs'"
  by (simp add: names_same_def files_same_def same_disk_facts)

lemma handle_file_same_disk: "same_disk fs fs' \<Longrightarrow> handle_file h fs' = handle_file h fs"
  by (simp add: handle_file_def same_disk_def)

lemma set_file_facts:
  assumes "map_of (i_files fs) (h_inode h) = Some f0"
  shows "names_same fs (set_file h f fs)"
    and "content (set_file h f fs) = (content fs)(h_inode h \<mapsto> visible f)"
    and "images (set_file h f fs) = (images fs)(h_inode h := {crash_file c f | c. sector_atomic c})"
    and "fs_ok fs \<Longrightarrow> fs_ok (set_file h f fs)"
proof -
  let ?fs = "set_file h f fs"
  have files: "map_of (i_files ?fs) = (map_of (i_files fs))(h_inode h \<mapsto> f)"
    by (simp add: set_file_def update_conv')
  have bind: "bind_at c ?fs = bind_at c fs" for c by (simp add: bind_at_def set_file_def fun_eq_iff)
  have sees: "sees ?fs = sees fs" by (simp add: sees_def set_file_def fun_eq_iff)
  show names: "names_same fs ?fs" using bind sees by (simp add: names_same_def set_file_def)
  show "content ?fs = (content fs)(h_inode h \<mapsto> visible f)"
    by (simp add: content_def files fun_eq_iff)
  show "images ?fs = (images fs)(h_inode h := {crash_file c f | c. sector_atomic c})"
    by (auto simp: images_def files fun_eq_iff)
  assume "fs_ok fs"
  moreover have "(map_of (i_files ?fs) i \<noteq> None) = (map_of (i_files fs) i \<noteq> None)" for i
    using assms by (auto simp: files)
  moreover have "i_dir_pending ?fs = i_dir_pending fs" "i_next_inode ?fs = i_next_inode fs"
    by (simp_all add: set_file_def)
  ultimately show "fs_ok ?fs"
    by (simp only: fs_ok_def names_same_binds [OF names] sees bind) simp
qed

lemma handle_file_Inr:
  "handle_file h fs = Inr f \<longleftrightarrow>
     (\<exists>p. sees fs p = Some (h_inode h)) \<and> map_of (i_files fs) (h_inode h) = Some f"
  by (auto simp: handle_file_def named_iff sees_def split: option.splits)

lemma push_change_cases:
  obtains (ok) fs' v where "push_change h (Write off data) fs = (Inr (), fs')" "names_same fs fs'"
      "\<exists>p. sees fs p = Some (h_inode h)"
      "content fs (h_inode h) = Some v"
      "content fs' = (content fs)(h_inode h \<mapsto> write_bytes v off data)"
      "\<And>j. j \<noteq> h_inode h \<Longrightarrow> images fs' j = images fs j"
      "images fs' (h_inode h) \<subseteq> (\<Union>b \<in> images fs (h_inode h). after_write off data b)"
      "fs_ok fs \<Longrightarrow> fs_ok fs'"
  | (failed) e where "push_change h (Write off data) fs = (Inl e, fs)"
proof (cases "handle_file h fs")
  case (Inl e)
  then show thesis by (intro failed) (simp add: push_change_def)
next
  case (Inr f)
  then have f: "map_of (i_files fs) (h_inode h) = Some f" by (simp add: handle_file_Inr)
  define e where "e = \<lparr>p_seq = i_next_seq fs, p_path = h_path h, p_change = Write off data\<rparr>"
  define g where "g = f\<lparr>f_pending := f_pending f @ [e]\<rparr>"
  define fs1 where "fs1 = fs\<lparr>i_next_seq := i_next_seq fs + 1\<rparr>"
  have run: "push_change h (Write off data) fs = (Inr (), set_file h g fs1)"
    using Inr by (simp add: push_change_def take_seq_def g_def e_def fs1_def)
  have sd: "same_disk fs fs1" by (simp add: same_disk_def fs1_def)
  have f1: "map_of (i_files fs1) (h_inode h) = Some f" using f sd by (simp add: same_disk_def)
  note facts = set_file_facts [OF f1, of g]
  have vis: "visible g = write_bytes (visible f) off data" by (simp add: visible_def g_def e_def)
  have crash: "crash_file c g = crash_change c (crash_file c f) e" for c
    by (simp add: crash_file_def g_def)
  show thesis
  proof (rule ok [OF run])
    show "names_same fs (set_file h g fs1)"
      using facts(1) same_disk_same [OF sd] by (simp add: names_same_def)
    show "\<exists>p. sees fs p = Some (h_inode h)" using Inr by (simp add: handle_file_Inr)
    show "content fs (h_inode h) = Some (visible f)" using f by (simp add: content_def)
    show "content (set_file h g fs1) = (content fs)(h_inode h \<mapsto> write_bytes (visible f) off data)"
      using facts(2) vis same_disk_facts(4) [OF sd] by simp
    show "images (set_file h g fs1) j = images fs j" if "j \<noteq> h_inode h" for j
      using that facts(3) same_disk_facts(2) [OF sd] by simp
    show "images (set_file h g fs1) (h_inode h) \<subseteq> (\<Union>b \<in> images fs (h_inode h). after_write off data b)"
    proof -
      have "crash_change c (crash_file c f) e \<in> after_write off data (crash_file c f)"
        if "sector_atomic c" for c
        using crash_change_after_write [OF that] by (simp add: e_def)
      then show ?thesis using f by (auto simp: facts(3) crash images_def)
    qed
    show "fs_ok (set_file h g fs1)" if "fs_ok fs" using facts(4) that same_disk_facts(5) [OF sd] by simp
  qed
qed

lemma write_at_cases:
  obtains (ok) fs' v where "write_at h off data fs = (Inr (), fs')" "names_same fs fs'"
      "\<exists>p. sees fs p = Some (h_inode h)"
      "content fs (h_inode h) = Some v"
      "content fs' = (content fs)(h_inode h \<mapsto> write_bytes v off data)"
      "\<And>j. j \<noteq> h_inode h \<Longrightarrow> images fs' j = images fs j"
      "images fs' (h_inode h) \<subseteq> (\<Union>b \<in> images fs (h_inode h). after_write off data b)"
      "fs_ok fs \<Longrightarrow> fs_ok fs'"
  | (failed) e fs' where "write_at h off data fs = (Inl e, fs')" "same_disk fs fs'"
proof (cases "h_writable h")
  case False
  then show thesis by (intro failed [of Opened_for_reading fs]) (simp_all add: write_at_def st_throw_def)
next
  case True
  show thesis
  proof (cases rule: record_op_cases [of "Op_Write (h_path h) off (length data)" fs])
    case (failed e fs')
    then show thesis using True that(2) by (simp add: write_at_def st_bind_def)
  next
    case (ok fs1)
    then have run: "write_at h off data fs = push_change h (Write off data) fs1"
      using True by (simp add: write_at_def st_bind_def)
    note sd = same_disk_facts [OF ok(2)]
    show thesis
    proof (cases rule: push_change_cases [of h off data fs1])
      case (ok fs' v)
      then show thesis
        using run that(1) [of fs' v] sd by (simp add: names_same_def)
    next
      case (failed e)
      then show thesis using run that(2) [of e fs1] \<open>same_disk fs fs1\<close> by simp
    qed
  qed
qed

lemma sync_cases:
  obtains (ok) fs' v where "sync h fs = (Inr (), fs')" "names_same fs fs'"
      "content fs (h_inode h) = Some v" "content fs' = content fs"
      "images fs' = (images fs)(h_inode h := {v})" "fs_ok fs \<Longrightarrow> fs_ok fs'"
  | (failed) e fs' where "sync h fs = (Inl e, fs')" "same_disk fs fs'"
proof (cases rule: record_op_cases [of "Op_Sync (h_path h)" fs])
  case (failed e fs')
  then show thesis using that(2) by (simp add: sync_def st_bind_def)
next
  case (ok fs1)
  note sd = same_disk_facts [OF ok(2)]
  show thesis
  proof (cases "handle_file h fs1")
    case (Inl e)
    then show thesis using ok that(2) [of e fs1] by (simp add: sync_def st_bind_def)
  next
    case (Inr f)
    then have f: "map_of (i_files fs1) (h_inode h) = Some f" by (simp add: handle_file_Inr)
    let ?g = "\<lparr>f_durable = visible f, f_pending = []\<rparr>"
    have run: "sync h fs = (Inr (), set_file h ?g fs1)"
      using ok Inr by (simp add: sync_def st_bind_def)
    note facts = set_file_facts [OF f, of ?g]
    have vis: "visible ?g = visible f" by (simp add: visible_def)
    have img: "{crash_file c ?g | c. sector_atomic c} = {visible f}"
      by (auto simp: crash_file_def intro: exI [of _ LosingUnsynced])
    have val: "content fs1 (h_inode h) = Some (visible f)" using f by (simp add: content_def)
    show thesis
    proof (rule that(1) [OF run])
      show "names_same fs (set_file h ?g fs1)" using facts(1) sd by (simp add: names_same_def)
      show "content fs (h_inode h) = Some (visible f)" using val sd by simp
      show "content (set_file h ?g fs1) = content fs"
        using facts(2) val sd by (simp add: vis fun_eq_iff)
      show "images (set_file h ?g fs1) = (images fs)(h_inode h := {visible f})"
        using facts(3) img sd by simp
      show "fs_ok (set_file h ?g fs1)" if "fs_ok fs" using facts(4) that sd by simp
    qed
  qed
qed

section \<open>Directories\<close>

text \<open>
  A change to a directory is kept by some crashes, \<open>K\<close>, and lost by the others. \<open>moved\<close> says what
  a change with this effect does to the names.
\<close>

definition moved :: "(path \<Rightarrow> nat option option) \<Rightarrow> Inner \<Rightarrow> Inner \<Rightarrow> bool" where
  "moved ef fs fs' \<longleftrightarrow>
     (\<exists>K. \<forall>c p. bind_at c fs' p = (if K c then (case ef p of None \<Rightarrow> bind_at c fs p | Some w \<Rightarrow> w)
                                 else bind_at c fs p))
     \<and> (\<forall>p. sees fs' p = (case ef p of None \<Rightarrow> sees fs p | Some w \<Rightarrow> w))
     \<and> i_dirs fs' = i_dirs fs"

lemma moved_binds: "moved ef fs fs' \<Longrightarrow> ef p = None \<Longrightarrow> binds fs' p = binds fs p"
  by (auto simp: moved_def binds_def)

lemma moved_bind_at: "moved ef fs fs' \<Longrightarrow> bind_at c fs' p = bind_at c fs p \<or> ef p = Some (bind_at c fs' p)"
  by (auto simp: moved_def split: option.splits)

lemma moved_binds_subset: "moved ef fs fs' \<Longrightarrow> v \<in> binds fs' p \<Longrightarrow> v \<in> binds fs p \<or> ef p = Some v"
  using moved_bind_at [of ef fs fs'] by (fastforce simp: binds_def)

lemma change_dir_moved:
  assumes "\<And>p. sees fs1 p = (case effect entry p of None \<Rightarrow> sees fs p | Some w \<Rightarrow> w)"
    and "i_durable_names fs1 = i_durable_names fs" "i_dir_pending fs1 = i_dir_pending fs"
      "i_dirs fs1 = i_dirs fs"
  shows "moved (effect entry) fs (change_dir q entry fs1)"
  unfolding moved_def
  by (intro conjI exI [of _ "\<lambda>c. keeps c (i_next_seq fs1)"])
    (use assms in \<open>simp_all add: change_dir_def take_seq_def sees_def bind_at_def bind_step_def
      split: option.split\<close>)

lemma change_dir_ok:
  assumes mv: "moved (effect entry) fs (change_dir q entry fs1)" and ok: "fs_ok fs"
    and entry: "entry_in (parent q) entry"
    and same: "i_durable_names fs1 = i_durable_names fs" "i_dir_pending fs1 = i_dir_pending fs"
    and inodes: "\<And>i. map_of (i_files fs) i \<noteq> None \<Longrightarrow> map_of (i_files fs1) i \<noteq> None"
      "\<And>p i. effect entry p = Some (Some i) \<Longrightarrow> map_of (i_files fs1) i \<noteq> None"
      "\<And>i. map_of (i_files fs1) i \<noteq> None \<Longrightarrow> i < i_next_inode fs1"
  shows "fs_ok (change_dir q entry fs1)"
  unfolding fs_ok_def
proof (intro conjI ballI allI impI)
  let ?fs = "change_dir q entry fs1"
  let ?e = "\<lparr>d_seq = i_next_seq fs1, d_dir = parent q, d_entry = entry\<rparr>"
  have pend: "i_dir_pending ?fs = i_dir_pending fs @ [?e]" "i_durable_names ?fs = i_durable_names fs"
    "i_files ?fs = i_files fs1" "i_next_inode ?fs = i_next_inode fs1"
    by (simp_all add: change_dir_def take_seq_def same)
  show "entry_in (d_dir e) (d_entry e)" if "e \<in> set (i_dir_pending ?fs)" for e
    using that ok entry by (auto simp: pend fs_ok_def)
  show "sees ?fs p = bind_at KeepingEverything ?fs p" for p
  proof -
    have "sees fs p = bind_at KeepingEverything fs p" using ok by (simp add: fs_ok_def)
    moreover have "bind_at KeepingEverything ?fs p = bind_step KeepingEverything p (bind_at KeepingEverything fs p) ?e"
      by (simp add: bind_at_def pend)
    ultimately show ?thesis using mv by (cases "effect entry p") (auto simp: moved_def bind_step_def)
  qed
  show "map_of (i_files ?fs) i \<noteq> None" if "Some i \<in> binds ?fs p" for p i
    using moved_binds_subset [OF mv that] ok inodes(1,2) by (auto simp: fs_ok_def pend)
  show "i < i_next_inode ?fs" if "map_of (i_files ?fs) i \<noteq> None" for i
    using that inodes(3) by (simp add: pend)
qed

lemma open_existing_cases:
  assumes "mode = Read \<or> mode = ReadWrite"
  obtains (ok) fs' i where "fs_open p mode fs = (Inr \<lparr>h_path = p, h_inode = i, h_writable = writable mode\<rparr>, fs')"
      "sees fs p = Some i" "same_disk fs fs'"
  | (failed) e fs' where "fs_open p mode fs = (Inl e, fs')" "same_disk fs fs'"
proof (cases rule: record_op_cases [of "Op_Open p mode" fs])
  case (failed e fs')
  then show thesis
    using assms that(2) [of e fs'] by (auto simp: fs_open_def st_bind_def Let_def)
next
  case (ok fs1)
  note sd = same_disk_facts [OF ok(2)]
  show thesis
  proof (cases "map_of (i_names fs) p")
    case None
    then show thesis
      using assms ok that(2) [of "Does_not_exist p" fs1]
      by (auto simp: fs_open_def st_bind_def Let_def st_throw_def)
  next
    case (Some i)
    then show thesis
      using assms ok sd that(1) [of i fs1]
      by (auto simp: fs_open_def st_bind_def Let_def sees_def)
  qed
qed

lemma open_new_cases:
  obtains (ok) fs' i where
      "fs_open p CreateNew fs = (Inr \<lparr>h_path = p, h_inode = i, h_writable = True\<rparr>, fs')"
      "sees fs p = None" "fs_ok fs \<Longrightarrow> content fs i = None" "moved (effect (Link p i)) fs fs'"
      "content fs' = (content fs)(i \<mapsto> [])" "images fs' = (images fs)(i := {[]})"
      "fs_ok fs \<Longrightarrow> fs_ok fs'"
  | (failed) e fs' where "fs_open p CreateNew fs = (Inl e, fs')" "same_disk fs fs'"
proof (cases rule: record_op_cases [of "Op_Open p CreateNew" fs])
  case (failed e fs')
  then show thesis
    using that(2) [of e fs'] by (auto simp: fs_open_def st_bind_def Let_def)
next
  case (ok fs1)
  note sd = same_disk_facts [OF ok(2)]
  show thesis
  proof (cases "map_of (i_names fs) p")
    case (Some i)
    then show thesis
      using ok that(2) [of "Already_exists p" fs1]
      by (auto simp: fs_open_def st_bind_def Let_def st_throw_def)
  next
    case None
    define i where "i = i_next_inode fs1"
    define f where "f = \<lparr>f_durable = [], f_pending = []\<rparr>"
    define fs2 where "fs2 = fs1\<lparr>i_next_inode := Suc i, i_files := AList.update i f (i_files fs1),
                  i_names := AList.update p i (i_names fs1)\<rparr>"
    define fs' where "fs' = change_dir p (Link p i) fs2"
    have run: "fs_open p CreateNew fs = (Inr \<lparr>h_path = p, h_inode = i, h_writable = True\<rparr>, fs')"
      using ok None sd by (simp add: fs_open_def st_bind_def Let_def writable_def fs'_def fs2_def i_def f_def)
    have files: "map_of (i_files fs2) = (map_of (i_files fs))(i \<mapsto> f)"
      using sd by (simp add: fs2_def update_conv')
    have files': "map_of (i_files fs') = (map_of (i_files fs))(i \<mapsto> f)"
      using files by (simp add: fs'_def change_dir_def take_seq_def)
    have same: "i_durable_names fs2 = i_durable_names fs" "i_dir_pending fs2 = i_dir_pending fs"
      "i_dirs fs2 = i_dirs fs"
      using ok(2) by (simp_all add: fs2_def same_disk_def)
    have mv: "moved (effect (Link p i)) fs fs'"
      unfolding fs'_def
      by (rule change_dir_moved) (use sd same in \<open>simp_all add: fs2_def sees_def update_conv'\<close>)
    show thesis
    proof (rule that(1) [OF run _ _ mv])
      show "sees fs p = None" using None by (simp add: sees_def)
      show "content fs i = None" if "fs_ok fs" using that sd by (auto simp: content_def fs_ok_def i_def)
      show "content fs' = (content fs)(i \<mapsto> [])"
        by (simp add: content_def files' visible_def f_def fun_eq_iff)
      show "images fs' = (images fs)(i := {[]})"
        by (auto simp: images_def files' f_def crash_file_def fun_eq_iff intro: exI [of _ LosingUnsynced])
      show "fs_ok fs'" if "fs_ok fs"
        unfolding fs'_def
      proof (rule change_dir_ok [OF _ that _ same(1,2)])
        show "moved (effect (Link p i)) fs (change_dir p (Link p i) fs2)" using mv by (simp add: fs'_def)
        show "j < i_next_inode fs2" if "map_of (i_files fs2) j \<noteq> None" for j
          using that \<open>fs_ok fs\<close> sd by (auto simp: fs2_def update_conv' i_def fs_ok_def less_Suc_eq split: if_splits)
      qed (auto simp: files split: if_splits)
    qed
  qed
qed

lemma rename_cases:
  assumes "parent f = parent t"
  obtains (ok) fs' i where "fs_rename f t fs = (Inr (), fs')" "sees fs f = Some i"
      "moved (effect (Rename f t i)) fs fs'" "files_same fs fs'" "fs_ok fs \<Longrightarrow> fs_ok fs'"
  | (failed) e fs' where "fs_rename f t fs = (Inl e, fs')" "same_disk fs fs'"
proof (cases rule: record_op_cases [of "Op_Rename f t" fs])
  case (failed e fs')
  then show thesis using that(2) by (simp add: fs_rename_def st_bind_def)
next
  case (ok fs1)
  note sd = same_disk_facts [OF ok(2)]
  show thesis
  proof (cases "map_of (i_names fs1) f")
    case None
    then show thesis using ok that(2) [of "Does_not_exist f" fs1] by (simp add: fs_rename_def st_bind_def)
  next
    case (Some i)
    define fs2 where "fs2 = fs1\<lparr>i_names := AList.update t i (AList.delete f (i_names fs1))\<rparr>"
    define fs' where "fs' = change_dir t (Rename f t i) fs2"
    have run: "fs_rename f t fs = (Inr (), fs')"
      using ok Some assms by (simp add: fs_rename_def st_bind_def fs2_def fs'_def)
    have same: "i_durable_names fs2 = i_durable_names fs" "i_dir_pending fs2 = i_dir_pending fs"
      "i_dirs fs2 = i_dirs fs" "i_files fs2 = i_files fs" "i_next_inode fs2 = i_next_inode fs"
      using ok(2) by (simp_all add: fs2_def same_disk_def)
    have see: "sees fs f = Some i" using Some sd by (simp add: sees_def)
    have mv: "moved (effect (Rename f t i)) fs fs'"
      unfolding fs'_def
      by (rule change_dir_moved)
        (use sd same in \<open>simp_all add: fs2_def sees_def update_conv' delete_conv'\<close>)
    have files: "i_files fs' = i_files fs" by (simp add: fs'_def change_dir_def take_seq_def same)
    show thesis
    proof (rule that(1) [OF run see mv])
      show "files_same fs fs'" by (simp add: files_same_def content_def images_def files fun_eq_iff)
      show "fs_ok fs'" if "fs_ok fs"
        unfolding fs'_def
      proof (rule change_dir_ok [OF _ that _ same(1,2)])
        show "moved (effect (Rename f t i)) fs (change_dir t (Rename f t i) fs2)" using mv by (simp add: fs'_def)
        show "map_of (i_files fs2) j \<noteq> None" if "effect (Rename f t i) p = Some (Some j)" for p j
          using that see sees_binds [OF \<open>fs_ok fs\<close>, of f] \<open>fs_ok fs\<close> by (auto simp: fs_ok_def same split: if_splits)
      qed (use \<open>fs_ok fs\<close> assms in \<open>auto simp: same fs_ok_def\<close>)
    qed
  qed
qed

lemma remove_cases:
  obtains (ok) fs' i where "fs_remove p fs = (Inr (), fs')" "sees fs p = Some i"
      "moved (effect (Unlink p)) fs fs'" "files_same fs fs'" "fs_ok fs \<Longrightarrow> fs_ok fs'"
  | (failed) e fs' where "fs_remove p fs = (Inl e, fs')" "same_disk fs fs'"
proof (cases rule: record_op_cases [of "Op_Remove p" fs])
  case (failed e fs')
  then show thesis using that(2) by (simp add: fs_remove_def st_bind_def)
next
  case (ok fs1)
  note sd = same_disk_facts [OF ok(2)]
  show thesis
  proof (cases "map_of (i_names fs1) p")
    case None
    then show thesis using ok that(2) [of "Does_not_exist p" fs1] by (simp add: fs_remove_def st_bind_def)
  next
    case (Some i)
    define fs2 where "fs2 = fs1\<lparr>i_names := AList.delete p (i_names fs1)\<rparr>"
    define fs' where "fs' = change_dir p (Unlink p) fs2"
    have run: "fs_remove p fs = (Inr (), fs')"
      using ok Some by (simp add: fs_remove_def st_bind_def fs2_def fs'_def)
    have same: "i_durable_names fs2 = i_durable_names fs" "i_dir_pending fs2 = i_dir_pending fs"
      "i_dirs fs2 = i_dirs fs" "i_files fs2 = i_files fs" "i_next_inode fs2 = i_next_inode fs"
      using ok(2) by (simp_all add: fs2_def same_disk_def)
    have see: "sees fs p = Some i" using Some sd by (simp add: sees_def)
    have mv: "moved (effect (Unlink p)) fs fs'"
      unfolding fs'_def
      by (rule change_dir_moved) (use sd same in \<open>simp_all add: fs2_def sees_def delete_conv'\<close>)
    have files: "i_files fs' = i_files fs" by (simp add: fs'_def change_dir_def take_seq_def same)
    show thesis
    proof (rule that(1) [OF run see mv])
      show "files_same fs fs'" by (simp add: files_same_def content_def images_def files fun_eq_iff)
      show "fs_ok fs'" if "fs_ok fs"
        unfolding fs'_def
        by (rule change_dir_ok [OF _ that _ same(1,2)])
          (use mv that in \<open>auto simp: fs'_def same fs_ok_def split: if_splits\<close>)
    qed
  qed
qed

lemma foldl_bind_step_other:
  assumes "\<And>e. e \<in> set es \<Longrightarrow> \<not> P e \<Longrightarrow> effect (d_entry e) p = None"
  shows "foldl (bind_step c p) v (filter P es) = foldl (bind_step c p) v es"
  using assms by (induction es arbitrary: v) (auto simp: bind_step_def)

lemma foldl_bind_step_none:
  assumes "\<And>e. e \<in> set es \<Longrightarrow> effect (d_entry e) p = None"
  shows "foldl (bind_step c p) v es = v"
  using assms by (induction es arbitrary: v) (auto simp: bind_step_def)

text \<open>Syncing a directory settles its names and leaves those of the others as they were.\<close>

definition dir_synced :: "path \<Rightarrow> Inner \<Rightarrow> Inner \<Rightarrow> bool" where
  "dir_synced d fs fs' \<longleftrightarrow>
     (\<forall>c p. bind_at c fs' p = (if parent p = d then sees fs p else bind_at c fs p))
     \<and> sees fs' = sees fs \<and> i_dirs fs' = i_dirs fs"

lemma sync_dir_cases:
  assumes "fs_ok fs"
  obtains (ok) fs' where "sync_dir d fs = (Inr (), fs')" "dir_synced d fs fs'" "files_same fs fs'" "fs_ok fs'"
  | (failed) e fs' where "sync_dir d fs = (Inl e, fs')" "same_disk fs fs'"
proof (cases rule: record_op_cases [of "Op_SyncDir d" fs])
  case (failed e fs')
  then show thesis using that(2) by (simp add: sync_dir_def st_bind_def)
next
  case (ok fs1)
  note sd = same_disk_facts [OF ok(2)]
  define synced where "synced = filter (\<lambda>e. d_dir e = d) (i_dir_pending fs)"
  define rest where "rest = filter (\<lambda>e. d_dir e \<noteq> d) (i_dir_pending fs)"
  define fs' where "fs' = fs1\<lparr>i_durable_names := foldl (\<lambda>ns e. Entry_apply (d_entry e) ns) (i_durable_names fs) synced,
                       i_dir_pending := rest\<rparr>"
  have same: "i_durable_names fs1 = i_durable_names fs" "i_dir_pending fs1 = i_dir_pending fs"
    using ok(2) by (simp_all add: same_disk_def)
  have run: "sync_dir d fs = (Inr (), fs')"
    using ok same by (simp add: sync_dir_def st_bind_def fs'_def synced_def rest_def Let_def)
  have inn: "entry_in (d_dir e) (d_entry e)" if "e \<in> set (i_dir_pending fs)" for e
    using assms that by (simp add: fs_ok_def)
  have "map_of (foldl (\<lambda>ns e. Entry_apply (d_entry e) ns) ns es) p
      = foldl (bind_step KeepingEverything p) (map_of ns p) es" for ns es p
    by (induction es arbitrary: ns) (auto simp: bind_step_def map_of_Entry_apply)
  then have bind: "bind_at c fs' p = foldl (bind_step c p)
      (foldl (bind_step KeepingEverything p) (map_of (i_durable_names fs) p) synced) rest" for c p
    by (simp add: bind_at_def fs'_def)
  have mine: "bind_at c fs' p = sees fs p" if "parent p = d" for c p
  proof -
    have "effect (d_entry e) p = None" if "e \<in> set (i_dir_pending fs)" "d_dir e \<noteq> d" for e
      using effect_other_dir [OF inn [OF that(1)], of p] that(2) \<open>parent p = d\<close> by auto
    then have "foldl (bind_step KeepingEverything p) (map_of (i_durable_names fs) p) synced
        = bind_at KeepingEverything fs p" "\<And>v. foldl (bind_step c p) v rest = v"
      by (auto simp: bind_at_def synced_def rest_def intro!: foldl_bind_step_other foldl_bind_step_none)
    then show ?thesis using assms by (simp add: bind fs_ok_def)
  qed
  have other: "bind_at c fs' p = bind_at c fs p" if "parent p \<noteq> d" for c p
  proof -
    have "effect (d_entry e) p = None" if "e \<in> set (i_dir_pending fs)" "d_dir e = d" for e
      using effect_other_dir [OF inn [OF that(1)], of p] that(2) \<open>parent p \<noteq> d\<close> by auto
    then have "foldl (bind_step KeepingEverything p) (map_of (i_durable_names fs) p) synced
        = map_of (i_durable_names fs) p"
      "foldl (bind_step c p) (map_of (i_durable_names fs) p) rest = bind_at c fs p"
      by (auto simp: bind_at_def synced_def rest_def intro!: foldl_bind_step_other foldl_bind_step_none)
    then show ?thesis by (simp add: bind)
  qed
  have sees: "sees fs' = sees fs" using sd by (simp add: fs'_def sees_def fun_eq_iff)
  have files: "i_files fs' = i_files fs" "i_next_inode fs' = i_next_inode fs" "i_dirs fs' = i_dirs fs"
    using sd by (simp_all add: fs'_def)
  have synced: "dir_synced d fs fs'" using mine other sees files by (simp add: dir_synced_def)
  show thesis
  proof (rule that(1) [OF run synced])
    show "files_same fs fs'" by (simp add: files_same_def content_def images_def files fun_eq_iff)
    show "fs_ok fs'"
      unfolding fs_ok_def
    proof (intro conjI ballI allI impI)
      show "entry_in (d_dir e) (d_entry e)" if "e \<in> set (i_dir_pending fs')" for e
        using that inn by (auto simp: fs'_def rest_def)
      show "sees fs' p = bind_at KeepingEverything fs' p" for p
        using mine other sees assms by (cases "parent p = d") (auto simp: fs_ok_def)
      show "map_of (i_files fs') i \<noteq> None" if "Some i \<in> binds fs' p" for p i
      proof -
        have "Some i \<in> binds fs p"
          using that mine other sees_binds [OF assms, of p] by (cases "parent p = d") (auto simp: binds_def)
        then show ?thesis using assms by (simp add: fs_ok_def files)
      qed
      show "i < i_next_inode fs'" if "map_of (i_files fs') i \<noteq> None" for i
        using that assms by (simp add: fs_ok_def files)
    qed
  qed
qed

lemma create_dir_all_cases:
  obtains (ok) fs' where "create_dir_all d fs = (Inr (), fs')" "\<forall>c. bind_at c fs' = bind_at c fs"
      "sees fs' = sees fs" "files_same fs fs'" "fs_ok fs \<Longrightarrow> fs_ok fs'" "d \<noteq> [] \<Longrightarrow> is_dir fs' d"
  | (failed) e fs' where "create_dir_all d fs = (Inl e, fs')" "same_disk fs fs'"
proof (cases rule: record_op_cases [of "Op_CreateDir d" fs])
  case (failed e fs')
  then show thesis using that(2) by (simp add: create_dir_all_def st_bind_def)
next
  case (ok fs1)
  note sd = same_disk_facts [OF ok(2)]
  define fs' where "fs' = fs1\<lparr>i_dirs := foldl (\<lambda>ds d. List.insert d ds) (i_dirs fs1) (prefixes_of d)\<rparr>"
  have run: "create_dir_all d fs = (Inr (), fs')" using ok by (simp add: create_dir_all_def st_bind_def fs'_def)
  have bind: "bind_at c fs' = bind_at c fs" for c using sd(10) [of c] by (simp add: bind_at_def fs'_def fun_eq_iff)
  have sees: "sees fs' = sees fs" using sd by (simp add: fs'_def sees_def fun_eq_iff)
  have files: "i_files fs' = i_files fs" "i_next_inode fs' = i_next_inode fs"
    "i_dir_pending fs' = i_dir_pending fs"
    using ok(2) by (simp_all add: fs'_def same_disk_def)
  have mono: "x \<in> set ds \<or> x \<in> set ps \<Longrightarrow> x \<in> set (foldl (\<lambda>ds d. List.insert d ds) ds ps)" for x ds and ps :: "path list"
    by (induction ps arbitrary: ds) auto
  show thesis
  proof (rule that(1) [OF run])
    show "files_same fs fs'" by (simp add: files_same_def content_def images_def files fun_eq_iff)
    show "is_dir fs' d" if "d \<noteq> []"
      using that by (auto simp: is_dir_def fs'_def prefixes_of_def intro!: mono image_eqI [of _ _ "length d - 1"])
    show "fs_ok fs'" if "fs_ok fs" using that by (simp add: fs_ok_def files sees bind binds_def)
  qed (simp_all add: bind sees)
qed

section \<open>After a crash\<close>

lemma map_of_map_filter:
  "map_of (map (\<lambda>(i, f). (i, g f)) (filter (\<lambda>(i, f). P i) xs)) j
     = (if P j then map_option g (map_of xs j) else None)"
  by (induction xs) auto

lemma files_crash:
  "map_of (i_files (crash c fs)) i =
     (if named (crash_names c fs) i
      then map_option (\<lambda>f. \<lparr>f_durable = crash_file c f, f_pending = []\<rparr>) (map_of (i_files fs) i)
      else None)"
  by (simp add: crash_def Let_def map_of_map_filter)

lemma sees_crash: "sees (crash c fs) p = bind_at c fs p"
  by (simp add: sees_def crash_def Let_def map_of_crash_names)

lemma bind_at_crash: "bind_at c' (crash c fs) p = bind_at c fs p"
  by (simp add: bind_at_def [of c'] crash_def Let_def map_of_crash_names)

lemma binds_crash: "binds (crash c fs) p = {bind_at c fs p}"
  by (auto simp: binds_def bind_at_crash)

lemma dirs_crash: "i_dirs (crash c fs) = i_dirs fs"
  by (simp add: crash_def Let_def)

lemma bind_at_binds: "bind_at c fs p \<in> binds fs p"
  by (simp add: binds_def)

lemma fs_ok_crash:
  assumes "fs_ok fs"
  shows "fs_ok (crash c fs)"
  unfolding fs_ok_def
proof (intro conjI ballI allI impI)
  show "sees (crash c fs) p = bind_at KeepingEverything (crash c fs) p" for p
    by (simp add: sees_crash bind_at_crash)
  show "map_of (i_files (crash c fs)) i \<noteq> None" if "Some i \<in> binds (crash c fs) p" for p i
  proof -
    have bound: "bind_at c fs p = Some i" using that by (simp add: binds_crash)
    then have "map_of (i_files fs) i \<noteq> None"
      using assms bind_at_binds [of c fs p] by (simp add: fs_ok_def)
    moreover have "named (crash_names c fs) i" using bound by (auto simp: named_iff map_of_crash_names)
    ultimately show ?thesis by (simp add: files_crash)
  qed
  show "i < i_next_inode (crash c fs)" if "map_of (i_files (crash c fs)) i \<noteq> None" for i
  proof -
    have "i_next_inode (crash c fs) = i_next_inode fs" by (simp add: crash_def Let_def)
    moreover have "map_of (i_files fs) i \<noteq> None" using that by (auto simp: files_crash split: if_splits)
    ultimately show ?thesis using assms by (simp add: fs_ok_def)
  qed
qed (simp add: crash_def Let_def)

text \<open>A file with a name left holds one of its images, and that for good.\<close>

lemma content_crash:
  assumes "fs_ok fs" and "sector_atomic c" and "bind_at c fs p = Some i"
  obtains b where "b \<in> images fs i" "content (crash c fs) i = Some b" "images (crash c fs) i = {b}"
proof -
  obtain f where f: "map_of (i_files fs) i = Some f"
    using assms bind_at_binds [of c fs p] by (force simp: fs_ok_def)
  have "named (crash_names c fs) i" using assms(3) by (auto simp: named_iff map_of_crash_names)
  then have left: "map_of (i_files (crash c fs)) i = Some \<lparr>f_durable = crash_file c f, f_pending = []\<rparr>"
    using f by (simp add: files_crash)
  show thesis
  proof (rule that [of "crash_file c f"])
    show "crash_file c f \<in> images fs i" using f assms(2) by (auto simp: images_def)
    show "content (crash c fs) i = Some (crash_file c f)" by (simp add: content_def left visible_def)
    show "images (crash c fs) i = {crash_file c f}"
      using assms(2) by (auto simp: images_def left crash_file_def [of _ "\<lparr>f_durable = _, f_pending = _\<rparr>"])
  qed
qed

section \<open>Reading\<close>

lemma file_len_run:
  "file_len h fs = (r, fs') \<Longrightarrow> fs' = fs \<and> (\<forall>n. r = Inr n \<longrightarrow> (\<exists>v. content fs (h_inode h) = Some v \<and> n = length v))"
  by (auto simp: file_len_def handle_file_Inr content_def split: sum.splits)

lemma file_len_ok:
  "sees fs p = Some (h_inode h) \<Longrightarrow> content fs (h_inode h) = Some v \<Longrightarrow> file_len h fs = (Inr (length v), fs)"
  by (auto simp: file_len_def handle_file_def named_iff sees_def content_def)

lemma read_exact_at_ok:
  assumes "sees fs p = Some (h_inode h)" and "content fs (h_inode h) = Some v"
    and "i_reads fs = ReadFaults_default\<lparr>rf_served := n\<rparr>"
  shows "\<exists>fs'. read_exact_at h 0 (length v) fs = (Inr v, fs') \<and> same_disk fs fs'
           \<and> i_reads fs' = ReadFaults_default\<lparr>rf_served := Suc n\<rparr> \<and> i_fail_at fs' = i_fail_at fs"
proof -
  obtain f where "map_of (i_files fs) (h_inode h) = Some f" "v = visible f"
    using assms(2) by (auto simp: content_def)
  moreover have "named (i_names fs) (h_inode h)" using assms(1) by (auto simp: named_iff sees_def)
  ultimately show ?thesis
    using assms(3)
    by (cases v) (auto simp: read_exact_at_def st_bind_def read_at_def serve_read_def Let_def handle_file_def
        ReadFaults_default_def st_return_def same_disk_def)
qed

section \<open>What a program can count on\<close>

lemma fs_ok_new: "fs_ok SimFilesystem_new"
  by (simp add: fs_ok_def SimFilesystem_new_def sees_def binds_def bind_at_def)

lemma contents_sees: "contents fs p = Option.bind (sees fs p) (content fs)"
  by (simp add: contents_def file_at_def sees_def content_def split: option.splits)


definition example_path :: path where
  "example_path = [Normal ''d'', Normal ''f'']"

definition example_handle :: SimHandle where
  "example_handle = \<lparr>h_path = example_path, h_inode = 0, h_writable = True\<rparr>"

definition example_fs :: Inner where
  "example_fs = snd (write_at example_handle 0 [1, 2, 3] (snd (fs_open example_path CreateNew SimFilesystem_new)))"

lemma fs_ok_example: "fs_ok example_fs"
proof -
  have "fs_ok (snd (fs_open example_path CreateNew SimFilesystem_new))"
    by (cases rule: open_new_cases [of example_path SimFilesystem_new])
      (simp_all add: fs_ok_new same_disk_facts(5))
  then show ?thesis
    unfolding example_fs_def
    by (cases rule: write_at_cases [of example_handle 0 "[1, 2, 3]" "snd (fs_open example_path CreateNew SimFilesystem_new)"])
      (simp_all add: same_disk_facts(5))
qed

lemmas example_run =
  example_fs_def example_handle_def example_path_def SimFilesystem_new_def fs_open_def write_at_def
  push_change_def sync_def sync_dir_def record_op_def take_seq_def change_dir_def handle_file_def
  set_file_def named_def st_bind_def st_return_def st_throw_def Let_def contents_def file_at_def
  visible_def write_bytes_def copy_at_def resize_def Path_parent_def parent_def crash_file_def


end
