(* ===== verification/Segments.thy ===== *)
theory Segments
  imports LogBlock Durability
begin

text \<open>
  The files of the log: how segments and spares are named and listed
  (\<open>rudb-txn/src/log/lane.rs\<close>), and how a lane is read back (\<open>rudb-txn/src/log/replay.rs\<close>).
  A segment's name is read back as what it was written for, and no spare's name is a segment's.
\<close>

section \<open>Numbers as text\<close>

definition digit_char :: "nat \<Rightarrow> char" where
  "digit_char d = ''0123456789abcdef'' ! d"

fun to_radix :: "nat \<Rightarrow> nat \<Rightarrow> string" where
  "to_radix b n = (if n < b \<or> b < 2 then [digit_char n] else to_radix b (n div b) @ [digit_char (n mod b)])"

declare to_radix.simps [simp del]

definition pad_zero :: "nat \<Rightarrow> string \<Rightarrow> string" where
  "pad_zero w s = replicate (w - length s) CHR ''0'' @ s"

definition is_ascii_digit :: "char \<Rightarrow> bool" where
  "is_ascii_digit c \<longleftrightarrow> CHR ''0'' \<le> c \<and> c \<le> CHR ''9''"

definition is_ascii_hexdigit :: "char \<Rightarrow> bool" where
  "is_ascii_hexdigit c \<longleftrightarrow>
     is_ascii_digit c \<or> (CHR ''a'' \<le> c \<and> c \<le> CHR ''f'') \<or> (CHR ''A'' \<le> c \<and> c \<le> CHR ''F'')"

definition char_value :: "char \<Rightarrow> nat" where
  "char_value c =
     (if is_ascii_digit c then of_char c - of_char CHR ''0''
      else if CHR ''a'' \<le> c then of_char c - of_char CHR ''a'' + 10
      else of_char c - of_char CHR ''A'' + 10)"

definition from_radix :: "nat \<Rightarrow> string \<Rightarrow> nat" where
  "from_radix b s = foldl (\<lambda>n c. n * b + char_value c) 0 s"

definition strip_prefix :: "string \<Rightarrow> string \<Rightarrow> string option" where
  "strip_prefix pre s = (if take (length pre) s = pre then Some (drop (length pre) s) else None)"

definition strip_suffix :: "string \<Rightarrow> string \<Rightarrow> string option" where
  "strip_suffix suf s =
     (if length suf \<le> length s \<and> drop (length s - length suf) s = suf
      then Some (take (length s - length suf) s) else None)"

definition split_once :: "char \<Rightarrow> string \<Rightarrow> (string \<times> string) option" where
  "split_once sep s =
     (if sep \<in> set s
      then Some (takeWhile (\<lambda>c. c \<noteq> sep) s, drop (Suc (length (takeWhile (\<lambda>c. c \<noteq> sep) s))) s)
      else None)"

section \<open>Names\<close>

definition segment_name :: "u8 \<Rightarrow> u64 \<Rightarrow> string" where
  "segment_name lane sequence =
     ''L'' @ pad_zero 2 (to_radix 10 (unat lane)) @ ''-'' @ pad_zero 16 (to_radix 16 (unat sequence))"

definition parse_segment_name :: "string \<Rightarrow> (u8 \<times> u64) option" where
  "parse_segment_name name =
     (case strip_prefix ''L'' name of None \<Rightarrow> None
      | Some rest \<Rightarrow>
     (case split_once CHR ''-'' rest of None \<Rightarrow> None
      | Some (lane, sequence) \<Rightarrow>
          if length lane \<noteq> 2 \<or> length sequence \<noteq> 16 then None
          else if \<not> list_all is_ascii_digit lane \<or> \<not> list_all is_ascii_hexdigit sequence then None
          else if 2 ^ 8 \<le> from_radix 10 lane then None
          else if 2 ^ 64 \<le> from_radix 16 sequence then None
          else Some (of_nat (from_radix 10 lane), of_nat (from_radix 16 sequence))))"

definition spare_name :: "u8 \<Rightarrow> u64 \<Rightarrow> string" where
  "spare_name lane sequence = segment_name lane sequence @ ''.spare''"

definition spare_sequence :: "path \<Rightarrow> (u8 \<times> u64) option" where
  "spare_sequence p =
     (case file_name p of None \<Rightarrow> None
      | Some n \<Rightarrow> (case strip_suffix ''.spare'' n of None \<Rightarrow> None | Some n \<Rightarrow> parse_segment_name n))"

definition segment_of :: "u8 \<Rightarrow> path \<Rightarrow> u64 option" where
  "segment_of lane p =
     (case file_name p of None \<Rightarrow> None
      | Some n \<Rightarrow> (case parse_segment_name n of None \<Rightarrow> None
                  | Some (l, sequence) \<Rightarrow> if l = lane then Some sequence else None))"

section \<open>Listings\<close>

definition segments :: "Inner \<Rightarrow> path \<Rightarrow> u8 \<Rightarrow> fs_error + (u64 \<times> path) list" where
  "segments fs dir lane =
     (if \<not> is_dir fs dir then Inr []
      else (case read_dir fs dir of
              Inl e \<Rightarrow> Inl e
            | Inr ps \<Rightarrow>
                Inr (sort_key fst
                       (List.map_filter (\<lambda>p. map_option (\<lambda>sequence. (sequence, p)) (segment_of lane p)) ps))))"

definition lanes :: "Inner \<Rightarrow> path \<Rightarrow> fs_error + u8 list" where
  "lanes fs dir =
     (if \<not> is_dir fs dir then Inr []
      else (case read_dir fs dir of
              Inl e \<Rightarrow> Inl e
            | Inr ps \<Rightarrow>
                Inr (sorted_list_of_set (set (List.map_filter (\<lambda>p.
                       (case file_name p of None \<Rightarrow> None
                        | Some n \<Rightarrow>
                            (let n = (case strip_suffix ''.spare'' n of Some m \<Rightarrow> m | None \<Rightarrow> n)
                             in map_option fst (parse_segment_name n)))) ps)))))"

definition spares :: "Inner \<Rightarrow> path \<Rightarrow> u8 \<Rightarrow> fs_error + path list" where
  "spares fs dir lane =
     (if \<not> is_dir fs dir then Inr []
      else (case read_dir fs dir of
              Inl e \<Rightarrow> Inl e
            | Inr ps \<Rightarrow> Inr (filter (\<lambda>p. case spare_sequence p of None \<Rightarrow> False | Some (l, _) \<Rightarrow> l = lane) ps)))"

section \<open>Errors\<close>

datatype log_error =
    Fs fs_error
  | Foreign_segment path SegmentHeader
  | Bad_segment_size nat
  | Block_too_large nat
  | Failed_earlier log_error
  | No_open_segment
  | Encode_panic
  | Overflow_panic

definition lift_fs :: "'a io \<Rightarrow> (Inner, log_error, 'a) st" where
  "lift_fs m fs = (case m fs of (Inl e, fs') \<Rightarrow> (Inl (Fs e), fs') | (Inr x, fs') \<Rightarrow> (Inr x, fs'))"

section \<open>Replay\<close>

text \<open>\<open>None\<close> is a segment whose header does not verify. No file of this filesystem is mapped.\<close>

definition read_segment ::
  "sum32 \<Rightarrow> path \<Rightarrow> u64 \<Rightarrow> u8 \<Rightarrow> u64 \<Rightarrow> (Inner, log_error, Committed list option) st" where
  "read_segment ext p sequence lane database =
     st_bind (lift_fs (fs_open p Read)) (\<lambda>h.
     st_bind (lift_fs (file_len h)) (\<lambda>len.
     st_bind (lift_fs (read_exact_at h 0 len)) (\<lambda>bs.
       (case SegmentHeader_decode ext bs of
          None \<Rightarrow> st_return None
        | Some header \<Rightarrow>
            if sh_lane header \<noteq> lane \<or> sh_sequence header \<noteq> sequence \<or> sh_database header \<noteq> database
            then st_throw (Foreign_segment p header)
            else st_return (Some (read_blocks ext bs SEGMENT_HEADER lane sequence []))))))"

record Replayed =
  rp_blocks :: "Committed list"
  rp_segments :: nat
  rp_unreadable :: nat

text \<open>
  Every segment is read, and then the results are looked at in order. Reading them side by side puts
  the results back in the same order.
\<close>

fun read_segments ::
  "sum32 \<Rightarrow> u8 \<Rightarrow> u64 \<Rightarrow> (u64 \<times> path) list \<Rightarrow> Inner
     \<Rightarrow> (log_error + Committed list option) list \<times> Inner" where
  "read_segments ext lane database [] fs = ([], fs)"
| "read_segments ext lane database ((sequence, p) # segs) fs =
     (case read_segment ext p sequence lane database fs of (r, fs) \<Rightarrow>
      case read_segments ext lane database segs fs of (rs, fs) \<Rightarrow> (r # rs, fs))"

fun gather :: "(log_error + Committed list option) list \<Rightarrow> Replayed \<Rightarrow> log_error + Replayed" where
  "gather [] acc = Inr acc"
| "gather (Inl e # rs) acc = Inl e"
| "gather (Inr (Some blocks) # rs) acc =
     gather rs (acc\<lparr>rp_blocks := rp_blocks acc @ blocks, rp_segments := rp_segments acc + 1\<rparr>)"
| "gather (Inr None # rs) acc = gather rs (acc\<lparr>rp_unreadable := rp_unreadable acc + 1\<rparr>)"

definition replay ::
  "sum32 \<Rightarrow> path \<Rightarrow> u8 \<Rightarrow> u64 \<Rightarrow> (Inner, log_error, Replayed) st" where
  "replay ext dir lane database fs =
     (case segments fs dir lane of
        Inl e \<Rightarrow> (Inl (Fs e), fs)
      | Inr segs \<Rightarrow>
          (case read_segments ext lane database segs fs of (rs, fs) \<Rightarrow>
             (gather rs \<lparr>rp_blocks = [], rp_segments = 0, rp_unreadable = 0\<rparr>, fs)))"

end
