(* ===== verification/SegmentNames.thy ===== *)
theory SegmentNames
  imports Segments
begin

text \<open>
  A segment's name is read back as the lane and sequence it was made from, for the lanes of two
  digits, which are all the lanes there are, and no spare's name is read as a segment's.
\<close>

section \<open>Digits\<close>

lemma digit_values:
  "list_all (\<lambda>d. char_value (digit_char d) = d \<and> is_ascii_hexdigit (digit_char d)
     \<and> (d < 10 \<longrightarrow> is_ascii_digit (digit_char d)) \<and> digit_char d \<noteq> CHR ''-'') [0..<16]"
  by code_simp

lemma digit_value:
  assumes "d < 16"
  shows "char_value (digit_char d) = d" and "is_ascii_hexdigit (digit_char d)"
    and "d < 10 \<Longrightarrow> is_ascii_digit (digit_char d)" and "digit_char d \<noteq> CHR ''-''"
proof -
  have "d \<in> set [0..<16]" using assms by simp
  note this [THEN digit_values [unfolded list_all_iff, THEN bspec]]
  then show "char_value (digit_char d) = d" "is_ascii_hexdigit (digit_char d)"
    "d < 10 \<Longrightarrow> is_ascii_digit (digit_char d)" "digit_char d \<noteq> CHR ''-''" by blast+
qed

lemma zero_digit: "CHR ''0'' = digit_char 0"
  by (simp add: digit_char_def)

lemma to_radix_digits:
  assumes "2 \<le> b" and "c \<in> set (to_radix b n)"
  shows "\<exists>d < b. c = digit_char d"
  using assms
proof (induction b n rule: to_radix.induct)
  case (1 b n)
  show ?case
  proof (cases "n < b")
    case True
    then show ?thesis using "1.prems" by (simp add: to_radix.simps [of b n]) blast
  next
    case False
    then have "c = digit_char (n mod b) \<or> c \<in> set (to_radix b (n div b))"
      using "1.prems" by (simp add: to_radix.simps [of b n])
    moreover have "n mod b < b" using "1.prems"(1) by simp
    moreover have "\<not> (n < b \<or> b < 2)" using False "1.prems"(1) by simp
    ultimately show ?thesis using "1.IH" "1.prems"(1) by blast
  qed
qed

lemma from_radix_snoc: "from_radix b (s @ [c]) = from_radix b s * b + char_value c"
  by (simp add: from_radix_def)

lemma from_radix_to_radix:
  assumes "2 \<le> b" and "b \<le> 16"
  shows "from_radix b (to_radix b n) = n"
  using assms
proof (induction b n rule: to_radix.induct)
  case (1 b n)
  show ?case
  proof (cases "n < b")
    case True
    then show ?thesis using 1 by (simp add: to_radix.simps [of b n] from_radix_def digit_value)
  next
    case False
    have "n mod b < 16" using 1 by (simp add: order_less_le_trans [OF mod_less_divisor])
    then have "from_radix b (to_radix b n) = n div b * b + n mod b"
      using 1 False by (simp add: to_radix.simps [of b n] from_radix_snoc digit_value)
    then show ?thesis by simp
  qed
qed

lemma length_to_radix:
  assumes "2 \<le> b" and "n < b ^ Suc w"
  shows "length (to_radix b n) \<le> Suc w"
  using assms
proof (induction w arbitrary: n)
  case 0
  then show ?case by (simp add: to_radix.simps [of b n])
next
  case (Suc w)
  have "n div b < b ^ Suc w" using Suc.prems by (simp add: div_less_iff_less_mult mult.commute)
  then show ?case using Suc by (auto simp: to_radix.simps [of b n])
qed

lemma from_radix_pad: "from_radix b (pad_zero w s) = from_radix b s"
proof -
  have "foldl (\<lambda>n c. n * b + char_value c) 0 (replicate k CHR ''0'') = 0" for k
    by (induction k) (simp_all add: zero_digit digit_value)
  then show ?thesis by (simp add: from_radix_def pad_zero_def)
qed

lemma pad_zero_digits:
  assumes "2 \<le> b" and "c \<in> set (pad_zero w (to_radix b n))"
  shows "\<exists>d < b. c = digit_char d"
  using assms to_radix_digits [of b c n] by (force simp: pad_zero_def zero_digit)

lemma length_pad_zero: "length s \<le> w \<Longrightarrow> length (pad_zero w s) = w"
  by (simp add: pad_zero_def)

section \<open>Segment names\<close>

lemma unat_u64_radix: "unat (s :: u64) < 16 ^ Suc 15"
  using unsigned_less [of s] by simp

lemma segment_name_parts:
  fixes lane :: u8 and sequence :: u64
  assumes "lane < 100"
  obtains a b where "segment_name lane sequence = ''L'' @ a @ CHR ''-'' # b" "length a = 2" "length b = 16"
    "list_all is_ascii_digit a" "list_all is_ascii_hexdigit b" "CHR ''-'' \<notin> set a"
    "from_radix 10 a = unat lane" "from_radix 16 b = unat sequence"
proof
  let ?a = "pad_zero 2 (to_radix 10 (unat lane))" and ?b = "pad_zero 16 (to_radix 16 (unat sequence))"
  show "segment_name lane sequence = ''L'' @ ?a @ CHR ''-'' # ?b" by (simp add: segment_name_def)
  have "unat lane < 10 ^ Suc 1" using assms by (simp add: word_less_nat_alt)
  then show "length ?a = 2"
    by (intro length_pad_zero) (use length_to_radix [of 10 "unat lane" 1] in simp)
  show "length ?b = 16"
    by (intro length_pad_zero) (use length_to_radix [OF _ unat_u64_radix, of sequence] in simp)
  have digits: "\<exists>d < 10. c = digit_char d" if "c \<in> set ?a" for c
    using pad_zero_digits [OF _ that] by simp
  show "list_all is_ascii_digit ?a"
    unfolding list_all_iff
  proof
    fix c assume "c \<in> set ?a"
    then obtain d where "d < 10" "c = digit_char d" using digits by blast
    then show "is_ascii_digit c" using digit_value(3) [of d] by simp
  qed
  show "CHR ''-'' \<notin> set ?a"
  proof
    assume "CHR ''-'' \<in> set ?a"
    then obtain d where "d < 10" "CHR ''-'' = digit_char d" using digits by blast
    then show False using digit_value(4) [of d] by simp
  qed
  have "\<exists>d < 16. c = digit_char d" if "c \<in> set ?b" for c
    using pad_zero_digits [OF _ that] by simp
  then show "list_all is_ascii_hexdigit ?b" unfolding list_all_iff using digit_value(2) by blast
  show "from_radix 10 ?a = unat lane" "from_radix 16 ?b = unat sequence"
    by (simp_all add: from_radix_pad from_radix_to_radix)
qed

lemma split_once_append: "sep \<notin> set a \<Longrightarrow> split_once sep (a @ sep # b) = Some (a, b)"
proof -
  assume "sep \<notin> set a"
  then have "takeWhile (\<lambda>c. c \<noteq> sep) (a @ sep # b) = a" by (induction a) auto
  then show ?thesis by (simp add: split_once_def)
qed

lemma parse_segment_name_segment_name:
  assumes "lane < 100"
  shows "parse_segment_name (segment_name lane sequence) = Some (lane, sequence)"
proof -
  obtain a b where "segment_name lane sequence = ''L'' @ a @ CHR ''-'' # b" "length a = 2" "length b = 16"
    "list_all is_ascii_digit a" "list_all is_ascii_hexdigit b" "CHR ''-'' \<notin> set a"
    "from_radix 10 a = unat lane" "from_radix 16 b = unat sequence"
    using assms by (rule segment_name_parts)
  moreover have "unat lane < 2 ^ 8" "unat sequence < 2 ^ 64"
    using unsigned_less [of lane] unsigned_less [of sequence] by simp_all
  ultimately show ?thesis
    by (simp add: parse_segment_name_def strip_prefix_def split_once_append)
qed

lemma parse_spare_name:
  assumes "lane < 100"
  shows "parse_segment_name (spare_name lane sequence) = None"
proof -
  obtain a b where "segment_name lane sequence = ''L'' @ a @ CHR ''-'' # b" "length b = 16"
    "CHR ''-'' \<notin> set a"
    using assms by (rule segment_name_parts)
  then show ?thesis
    by (simp add: parse_segment_name_def spare_name_def strip_prefix_def split_once_append)
qed

lemma segment_name_inject:
  assumes "lane < 100" and "lane' < 100"
  shows "segment_name lane sequence = segment_name lane' sequence' \<longleftrightarrow> lane = lane' \<and> sequence = sequence'"
proof
  assume "segment_name lane sequence = segment_name lane' sequence'"
  then have "parse_segment_name (segment_name lane sequence) = parse_segment_name (segment_name lane' sequence')"
    by (rule arg_cong)
  then show "lane = lane' \<and> sequence = sequence'"
    by (simp add: parse_segment_name_segment_name assms)
qed simp

lemma strip_suffix_append: "strip_suffix suf (s @ suf) = Some s"
  by (simp add: strip_suffix_def)

text \<open>The lanes of three digits would not be read back.\<close>

lemma parse_segment_name_three_digits:
  "parse_segment_name (segment_name 100 sequence) = None"
proof -
  have three: "to_radix 10 100 = ''100''"
    by (simp add: to_radix.simps [of 10 100] to_radix.simps [of 10 10] to_radix.simps [of 10 "Suc 0"] digit_char_def)
  have "split_once CHR ''-'' (''100'' @ CHR ''-'' # b) = Some (''100'', b)" for b
    by (rule split_once_append) simp
  then show ?thesis
    by (simp add: parse_segment_name_def segment_name_def strip_prefix_def three pad_zero_def)
qed

end
