(* ===== verification/Lane.thy ===== *)
theory Lane
  imports SegmentNames
begin

text \<open>
  One lane of the log: \<open>rudb-txn/src/log/lane.rs\<close>. The state is what the lane's mutex holds, next to
  the filesystem. What a thread does between taking the lock and letting go of it is one
  definition: queueing a block (\<open>enqueue\<close>), looking whether a position is reached
  (\<open>wait_look\<close>, which may take the lead), and putting the result of a turn at the disk back
  (\<open>lead_done\<close>). The turn itself (\<open>lead\<close>) runs without the lock, and blocks that are queued
  meanwhile wait for the next one. Sums of \<open>u64\<close> sequences that would overflow are the panic of a
  checked build, as an error.
\<close>

section \<open>State\<close>

definition ZERO_CHUNK :: nat where
  "ZERO_CHUNK = 2 ^ 20"

definition SPARES :: nat where
  "SPARES = 2"

definition MADE :: u64 where
  "MADE = 2 ^ 63"

definition SEGMENT_BYTES :: nat where
  "SEGMENT_BYTES = 64 * 2 ^ 20"

datatype CommitSync = Full | Barrier | Os | NoSync

record Options =
  o_lane :: u8
  o_database :: u64
  o_segment_bytes :: nat
  o_commit_sync :: CommitSync
  o_spare_ahead :: bool

definition Options_new :: "u64 \<Rightarrow> Options" where
  "Options_new database =
     \<lparr>o_lane = 0, o_database = database, o_segment_bytes = SEGMENT_BYTES, o_commit_sync = Full,
      o_spare_ahead = True\<rparr>"

record Stats =
  s_bytes :: nat
  s_commits :: nat
  s_writes :: nat
  s_syncs :: nat
  s_segments :: nat
  s_recycled :: nat
  s_made :: nat

definition Stats_default :: Stats where
  "Stats_default =
     \<lparr>s_bytes = 0, s_commits = 0, s_writes = 0, s_syncs = 0, s_segments = 0, s_recycled = 0, s_made = 0\<rparr>"

record Piece =
  pc_sequence :: u64
  pc_offset :: nat
  pc_end :: nat
  pc_bytes :: bytes

record Opened =
  op_sequence :: u64
  op_file :: SimHandle
  op_dirty :: bool

record LState =
  tail_sequence :: u64
  tail_offset :: nat
  pending :: "Piece list"
  opened :: "Opened option"
  reserved :: nat
  written :: nat
  durable :: nat
  ordered :: nat
  flushing :: bool
  failed :: "log_error option"
  stats :: Stats
  spare_list :: "path list"
  made :: u64
  making :: bool
  stopped :: bool

datatype Reach = Reach_Written | Reach_Ordered | Reach_Durable

record Led =
  l_written :: nat
  l_durable :: "nat option"
  l_ordered :: "nat option"
  l_writes :: nat
  l_syncs :: nat
  l_segments :: nat

definition Led_default :: Led where
  "Led_default =
     \<lparr>l_written = 0, l_durable = None, l_ordered = None, l_writes = 0, l_syncs = 0, l_segments = 0\<rparr>"

record World =
  w_fs :: Inner
  w_lane :: LState

type_synonym 'a turn = "(World, log_error, 'a) st"

definition on_fs :: "'a io \<Rightarrow> 'a turn" where
  "on_fs m w = (case lift_fs m (w_fs w) of (r, fs) \<Rightarrow> (r, w\<lparr>w_fs := fs\<rparr>))"

definition state_check :: "LState \<Rightarrow> log_error + unit" where
  "state_check s = (case failed s of Some why \<Rightarrow> Inl (Failed_earlier why) | None \<Rightarrow> Inr ())"

section \<open>Queueing\<close>

definition enqueue :: "sum32 \<Rightarrow> Options \<Rightarrow> Block \<Rightarrow> (LState, log_error, nat) st" where
  "enqueue ext opts block s =
     (let len = Block_len block in
      if o_segment_bytes opts - SEGMENT_HEADER < len then (Inl (Block_too_large len), s)
      else (case state_check s of Inl e \<Rightarrow> (Inl e, s)
      | Inr _ \<Rightarrow>
          if o_segment_bytes opts < tail_offset s + len \<and> tail_sequence s = - 1
          then (Inl Overflow_panic, s)
          else
            (let s1 = (if o_segment_bytes opts < tail_offset s + len
                       then s\<lparr>tail_sequence := tail_sequence s + 1, tail_offset := SEGMENT_HEADER\<rparr>
                       else s) in
             case Block_encode ext block (o_lane opts) (seed (tail_sequence s1)) [] of
               None \<Rightarrow> (Inl Encode_panic, s1)
             | Some bs \<Rightarrow>
                 (let fin = reserved s1 + len;
                      piece = \<lparr>pc_sequence = tail_sequence s1, pc_offset = tail_offset s1,
                               pc_end = fin, pc_bytes = bs\<rparr>
                  in (Inr fin,
                      s1\<lparr>pending := pending s1 @ [piece],
                         tail_offset := tail_offset s1 + len,
                         reserved := fin,
                         stats := (stats s1)\<lparr>s_bytes := s_bytes (stats s1) + len,
                                             s_commits := s_commits (stats s1) + 1\<rparr>\<rparr>)))))"

definition unwritten :: "LState \<Rightarrow> nat" where
  "unwritten s = reserved s - min (written s) (reserved s)"

definition behind :: "LState \<Rightarrow> bool" where
  "behind s \<longleftrightarrow> durable s < reserved s"

definition set_commit_sync :: "CommitSync \<Rightarrow> Options \<Rightarrow> Options" where
  "set_commit_sync mode opts = opts\<lparr>o_commit_sync := mode\<rparr>"

definition position :: "LState \<Rightarrow> u64 \<times> nat" where
  "position s = (tail_sequence s, tail_offset s)"

section \<open>Segments\<close>

definition segment_path :: "path \<Rightarrow> u8 \<Rightarrow> u64 \<Rightarrow> path" where
  "segment_path dir lane sequence = join dir (segment_name lane sequence)"

definition spare_path :: "path \<Rightarrow> u8 \<Rightarrow> u64 \<Rightarrow> path" where
  "spare_path dir lane sequence = join dir (spare_name lane sequence)"

text \<open>The loop that writes zeros from \<open>at\<close> to \<open>sz\<close>, \<open>chunk\<close> bytes at a time.\<close>

function write_zeros :: "SimHandle \<Rightarrow> nat \<Rightarrow> nat \<Rightarrow> nat \<Rightarrow> unit io" where
  "write_zeros h chunk at sz =
     (if chunk = 0 \<or> sz \<le> at then st_return ()
      else st_bind (write_at h at (replicate (min chunk (sz - at)) 0))
             (\<lambda>_. write_zeros h chunk (at + min chunk (sz - at)) sz))"
  by auto
termination by (relation "measure (\<lambda>(h, chunk, at, sz). sz - at)") auto

declare write_zeros.simps [simp del]

definition fill :: "SimHandle \<Rightarrow> nat \<Rightarrow> unit io" where
  "fill h sz = st_bind (write_zeros h (min ZERO_CHUNK sz) 0 sz) (\<lambda>_. sync h)"

definition pop_spare :: "path option turn" where
  "pop_spare w =
     (let ss = spare_list (w_lane w) in
      if ss = [] then (Inr None, w)
      else (Inr (Some (last ss)), w\<lparr>w_lane := (w_lane w)\<lparr>spare_list := butlast ss\<rparr>\<rparr>))"

definition note_recycled :: "unit turn" where
  "note_recycled w =
     (Inr (), w\<lparr>w_lane := (w_lane w)\<lparr>stats := (stats (w_lane w))
        \<lparr>s_recycled := s_recycled (stats (w_lane w)) + 1\<rparr>\<rparr>\<rparr>)"

definition recycle_segment :: "path \<Rightarrow> path \<Rightarrow> path \<Rightarrow> bytes \<Rightarrow> SimHandle io" where
  "recycle_segment dir spare p header =
     st_bind (fs_open spare ReadWrite) (\<lambda>h.
     st_bind (write_at h 0 header) (\<lambda>_.
     st_bind (sync_data h) (\<lambda>_.
     st_bind (fs_rename spare p) (\<lambda>_.
     st_bind (sync_dir dir) (\<lambda>_. st_return h)))))"

definition new_segment :: "path \<Rightarrow> path \<Rightarrow> bytes \<Rightarrow> nat \<Rightarrow> SimHandle io" where
  "new_segment dir p header sz =
     st_bind (fs_open p CreateNew) (\<lambda>h.
     st_bind (write_at h 0 header) (\<lambda>_.
     st_bind (write_zeros h (min ZERO_CHUNK (sz - SEGMENT_HEADER)) SEGMENT_HEADER sz) (\<lambda>_.
     st_bind (sync h) (\<lambda>_.
     st_bind (sync_dir dir) (\<lambda>_. st_return h)))))"

definition create_segment :: "sum32 \<Rightarrow> path \<Rightarrow> Options \<Rightarrow> u64 \<Rightarrow> SimHandle turn" where
  "create_segment ext dir opts sequence =
     (let p = segment_path dir (o_lane opts) sequence;
          header = SegmentHeader_encode ext
            \<lparr>sh_lane = o_lane opts, sh_sequence = sequence, sh_database = o_database opts\<rparr> in
      st_bind pop_spare (\<lambda>spare.
        (case spare of
           Some s \<Rightarrow>
             st_bind (on_fs (recycle_segment dir s p header)) (\<lambda>h.
             st_bind note_recycled (\<lambda>_. st_return h))
         | None \<Rightarrow> on_fs (new_segment dir p header (o_segment_bytes opts)))))"

section \<open>A turn at the disk\<close>

text \<open>
  A turn has the segment being written beside the world, and leaves it changed also where it fails.
\<close>

type_synonym 'a leading = "(World \<times> Opened, log_error, 'a) st"

definition in_world :: "'a turn \<Rightarrow> 'a leading" where
  "in_world m = (\<lambda>(w, opn). (case m w of (r, w) \<Rightarrow> (r, (w, opn))))"

definition the_open :: "Opened leading" where
  "the_open = (\<lambda>(w, opn). (Inr opn, (w, opn)))"

definition set_open :: "Opened \<Rightarrow> unit leading" where
  "set_open opn = (\<lambda>(w, _). (Inr (), (w, opn)))"

text \<open>Syncs the segment being written if it is dirty, and starts the one \<open>sequence\<close> names.\<close>

definition switch_segment ::
  "sum32 \<Rightarrow> path \<Rightarrow> Options \<Rightarrow> u64 \<Rightarrow> nat \<Rightarrow> Led \<Rightarrow> Led leading" where
  "switch_segment ext dir opts sequence at led =
     st_bind the_open (\<lambda>opn.
     st_bind (if op_dirty opn
              then st_bind (in_world (on_fs (sync_data (op_file opn))))
                     (\<lambda>_. st_return (led\<lparr>l_syncs := l_syncs led + 1\<rparr>))
              else st_return led) (\<lambda>led.
     let led = led\<lparr>l_durable := Some at\<rparr> in
     st_bind (in_world (create_segment ext dir opts sequence)) (\<lambda>h.
     st_bind (set_open \<lparr>op_sequence = sequence, op_file = h, op_dirty = False\<rparr>) (\<lambda>_.
     st_return (led\<lparr>l_segments := l_segments led + 1\<rparr>)))))"

definition write_run :: "Piece list \<Rightarrow> Led \<Rightarrow> Led leading" where
  "write_run run led =
     st_bind the_open (\<lambda>opn.
     st_bind (in_world (on_fs (write_parts_at (op_file opn) (pc_offset (hd run)) (map pc_bytes run)))) (\<lambda>_.
     st_bind (set_open (opn\<lparr>op_dirty := True\<rparr>)) (\<lambda>_.
     st_return (led\<lparr>l_writes := l_writes led + 1\<rparr>))))"

lemma length_dropWhile_hd: "xs \<noteq> [] \<Longrightarrow> length (dropWhile (\<lambda>x. f x = f (hd xs)) xs) < length xs"
  by (cases xs) (auto simp: length_dropWhile_le less_Suc_eq_le)

function lead_runs ::
  "sum32 \<Rightarrow> path \<Rightarrow> Options \<Rightarrow> Piece list \<Rightarrow> nat \<Rightarrow> Led \<Rightarrow> (Led \<times> nat) leading" where
  "lead_runs ext dir opts pieces at led =
     (if pieces = [] then st_return (led, at)
      else
        (let sequence = pc_sequence (hd pieces);
             run = takeWhile (\<lambda>p. pc_sequence p = sequence) pieces;
             rest = dropWhile (\<lambda>p. pc_sequence p = sequence) pieces in
         st_bind the_open (\<lambda>opn.
         st_bind (if sequence \<noteq> op_sequence opn
                  then switch_segment ext dir opts sequence at led else st_return led) (\<lambda>led.
         st_bind (write_run run led) (\<lambda>led.
         lead_runs ext dir opts rest (pc_end (last run)) led)))))"
  by auto
termination
  by (relation "measure (\<lambda>(ext, dir, opts, pieces, at, led). length pieces)")
    (auto simp: length_dropWhile_hd)

declare lead_runs.simps [simp del]

definition lead_sync :: "Reach \<Rightarrow> Led \<times> nat \<Rightarrow> Led leading" where
  "lead_sync reach r =
     (case r of (led, at) \<Rightarrow>
        st_bind the_open (\<lambda>opn.
        st_bind
          (case reach of
             Reach_Written \<Rightarrow> st_return led
           | Reach_Ordered \<Rightarrow>
               if op_dirty opn
               then st_bind (in_world (on_fs (sync_barrier (op_file opn)))) (\<lambda>_.
                    st_return (led\<lparr>l_syncs := l_syncs led + 1, l_ordered := Some at\<rparr>))
               else st_return (led\<lparr>l_ordered := Some at\<rparr>)
           | Reach_Durable \<Rightarrow>
               if op_dirty opn
               then st_bind (in_world (on_fs (sync_data (op_file opn)))) (\<lambda>_.
                    st_bind (set_open (opn\<lparr>op_dirty := False\<rparr>)) (\<lambda>_.
                    st_return (led\<lparr>l_syncs := l_syncs led + 1, l_durable := Some at\<rparr>)))
               else st_return (led\<lparr>l_durable := Some at\<rparr>)) (\<lambda>led.
        st_return (led\<lparr>l_written := at\<rparr>))))"

definition lead ::
  "sum32 \<Rightarrow> path \<Rightarrow> Options \<Rightarrow> Piece list \<Rightarrow> nat \<Rightarrow> Reach \<Rightarrow> Led leading" where
  "lead ext dir opts pieces at reach =
     st_bind (lead_runs ext dir opts pieces at Led_default) (lead_sync reach)"

section \<open>Waiting\<close>

text \<open>
  What a waiter finds each time it holds the lock: the answer, a leader at the disk to park behind,
  or the lead, with the segment and the queued pieces it takes along.
\<close>

datatype look =
    Returns "log_error + nat"
  | Parks
  | Leads Opened "Piece list" nat

definition reached :: "LState \<Rightarrow> Reach \<Rightarrow> nat" where
  "reached s reach =
     (case reach of Reach_Written \<Rightarrow> written s
      | Reach_Ordered \<Rightarrow> max (ordered s) (durable s)
      | Reach_Durable \<Rightarrow> durable s)"

definition wait_look :: "nat \<Rightarrow> Reach \<Rightarrow> LState \<Rightarrow> look \<times> LState" where
  "wait_look fin reach s =
     (case state_check s of
        Inl e \<Rightarrow> (Returns (Inl e), s)
      | Inr _ \<Rightarrow>
          if fin \<le> reached s reach then (Returns (Inr fin), s)
          else if flushing s then (Parks, s)
          else (case opened s of
                  None \<Rightarrow> (Returns (Inl No_open_segment), s)
                | Some opn \<Rightarrow>
                    (Leads opn (pending s) (written s),
                     s\<lparr>opened := None, flushing := True, pending := []\<rparr>)))"

definition lead_done :: "log_error + Led \<Rightarrow> Opened \<Rightarrow> LState \<Rightarrow> LState" where
  "lead_done outcome opn s =
     (let s = s\<lparr>flushing := False, opened := Some opn\<rparr> in
      case outcome of
        Inr led \<Rightarrow>
          s\<lparr>written := max (written s) (l_written led),
             durable := (case l_durable led of Some d \<Rightarrow> max (durable s) d | None \<Rightarrow> durable s),
             ordered := (case l_ordered led of Some d \<Rightarrow> max (ordered s) d | None \<Rightarrow> ordered s),
             stats := (stats s)\<lparr>s_writes := s_writes (stats s) + l_writes led,
                                s_syncs := s_syncs (stats s) + l_syncs led,
                                s_segments := s_segments (stats s) + l_segments led\<rparr>\<rparr>
      | Inl e \<Rightarrow> s\<lparr>failed := Some e\<rparr>)"

text \<open>The turn of a waiter that found the lead: at the disk, and back under the lock.\<close>

definition lead_turn ::
  "sum32 \<Rightarrow> path \<Rightarrow> Options \<Rightarrow> Opened \<Rightarrow> Piece list \<Rightarrow> nat \<Rightarrow> Reach \<Rightarrow> World \<Rightarrow> World" where
  "lead_turn ext dir opts opn pieces at reach w =
     (case lead ext dir opts pieces at reach (w, opn) of
        (outcome, (w, opn)) \<Rightarrow> w\<lparr>w_lane := lead_done outcome opn (w_lane w)\<rparr>)"

text \<open>
  The loop of \<open>wait\<close> where no other thread is at the lane. A lead with nothing in its way reaches
  the position in one turn, so two looks are enough; \<open>None\<close> is a loop that has not returned.
\<close>

fun wait_loop ::
  "sum32 \<Rightarrow> path \<Rightarrow> Options \<Rightarrow> nat \<Rightarrow> nat \<Rightarrow> Reach \<Rightarrow> World \<Rightarrow> (log_error + nat) option \<times> World" where
  "wait_loop ext dir opts 0 fin reach w = (None, w)"
| "wait_loop ext dir opts (Suc n) fin reach w =
     (case wait_look fin reach (w_lane w) of
        (Returns r, s) \<Rightarrow> (Some r, w\<lparr>w_lane := s\<rparr>)
      | (Parks, s) \<Rightarrow> wait_loop ext dir opts n fin reach (w\<lparr>w_lane := s\<rparr>)
      | (Leads opn pieces at, s) \<Rightarrow>
          wait_loop ext dir opts n fin reach
            (lead_turn ext dir opts opn pieces at reach (w\<lparr>w_lane := s\<rparr>)))"

definition settle ::
  "sum32 \<Rightarrow> path \<Rightarrow> Options \<Rightarrow> nat \<Rightarrow> CommitSync \<Rightarrow> World \<Rightarrow> (log_error + nat) option \<times> World" where
  "settle ext dir opts fin commit_sync w =
     (case commit_sync of
        Full \<Rightarrow> wait_loop ext dir opts 2 fin Reach_Durable w
      | Barrier \<Rightarrow> wait_loop ext dir opts 2 fin Reach_Ordered w
      | Os \<Rightarrow> wait_loop ext dir opts 2 fin Reach_Written w
      | NoSync \<Rightarrow> (Some (Inr fin), w))"

definition commit :: "sum32 \<Rightarrow> path \<Rightarrow> Options \<Rightarrow> Block \<Rightarrow> World \<Rightarrow> (log_error + nat) option \<times> World" where
  "commit ext dir opts block w =
     (case enqueue ext opts block (w_lane w) of
        (Inl e, s) \<Rightarrow> (Some (Inl e), w\<lparr>w_lane := s\<rparr>)
      | (Inr fin, s) \<Rightarrow> settle ext dir opts fin (o_commit_sync opts) (w\<lparr>w_lane := s\<rparr>))"

definition flush :: "sum32 \<Rightarrow> path \<Rightarrow> Options \<Rightarrow> World \<Rightarrow> (log_error + nat) option \<times> World" where
  "flush ext dir opts w = wait_loop ext dir opts 2 (reserved (w_lane w)) Reach_Durable w"

definition write_out :: "sum32 \<Rightarrow> path \<Rightarrow> Options \<Rightarrow> World \<Rightarrow> (log_error + nat) option \<times> World" where
  "write_out ext dir opts w = wait_loop ext dir opts 2 (reserved (w_lane w)) Reach_Written w"

section \<open>Retiring segments\<close>

definition remove_spare :: "path \<Rightarrow> unit io" where
  "remove_spare p fs =
     (case fs_remove p fs of
        (Inl e, fs) \<Rightarrow> if fs_exists fs p then (Inl e, fs) else (Inr (), fs)
      | (Inr _, fs) \<Rightarrow> (Inr (), fs))"

text \<open>The length of the file at a path, as \<open>open(..)?.len()?\<close> gives it.\<close>

definition path_len :: "path \<Rightarrow> nat io" where
  "path_len p = st_bind (fs_open p Read) file_len"

fun retire_loop ::
  "path \<Rightarrow> Options \<Rightarrow> u64 \<Rightarrow> u64 option \<Rightarrow> (u64 \<times> path) list \<Rightarrow> nat \<Rightarrow> path list \<Rightarrow> bool
     \<Rightarrow> (path list \<times> bool) io" where
  "retire_loop dir opts below writing [] wanted retired changed = st_return (retired, changed)"
| "retire_loop dir opts below writing ((sequence, p) # segs) wanted retired changed =
     (if below \<le> sequence \<or> Some sequence = writing
      then retire_loop dir opts below writing segs wanted retired changed
      else
        st_bind (if 0 < wanted
                 then st_bind (path_len p) (\<lambda>n. st_return (n = o_segment_bytes opts))
                 else st_return False) (\<lambda>keep.
          if keep
          then (let spare = spare_path dir (o_lane opts) sequence in
                st_bind (fs_rename p spare) (\<lambda>_.
                retire_loop dir opts below writing segs (wanted - 1) (retired @ [spare]) True))
          else st_bind (fs_remove p) (\<lambda>_.
               retire_loop dir opts below writing segs wanted retired True)))"

definition retire :: "path \<Rightarrow> Options \<Rightarrow> u64 \<Rightarrow> unit turn" where
  "retire dir opts below w =
     (let writing = map_option op_sequence (opened (w_lane w));
          wanted = SPARES - length (spare_list (w_lane w)) in
      case segments (w_fs w) dir (o_lane opts) of
        Inl e \<Rightarrow> (Inl (Fs e), w)
      | Inr segs \<Rightarrow>
          st_bind (on_fs (st_bind (retire_loop dir opts below writing segs wanted [] False)
                     (\<lambda>(retired, changed).
                        if changed then st_bind (sync_dir dir) (\<lambda>_. st_return retired)
                        else st_return retired)))
            (\<lambda>retired w. (Inr (), w\<lparr>w_lane := (w_lane w)\<lparr>spare_list := spare_list (w_lane w) @ retired\<rparr>\<rparr>)) w)"

section \<open>Spares made ahead\<close>

definition stop :: "LState \<Rightarrow> LState" where
  "stop s = s\<lparr>stopped := True\<rparr>"

text \<open>Whether a thread making spares is started; \<open>spawned\<close> is whether the system gave one.\<close>

definition spare_ahead :: "Options \<Rightarrow> bool \<Rightarrow> LState \<Rightarrow> bool \<times> LState" where
  "spare_ahead opts spawned s =
     (if \<not> o_spare_ahead opts then (False, s)
      else if making s \<or> stopped s \<or> failed s \<noteq> None \<or> SPARES \<le> length (spare_list s) then (False, s)
      else (spawned, s\<lparr>making := spawned\<rparr>))"

text \<open>One round of the thread's loop, and whether it goes round again.\<close>

definition make_spare :: "path \<Rightarrow> u8 \<Rightarrow> nat \<Rightarrow> World \<Rightarrow> bool \<times> World" where
  "make_spare dir lane sz w =
     (let s = w_lane w in
      if stopped s \<or> failed s \<noteq> None \<or> SPARES \<le> length (spare_list s)
      then (False, w\<lparr>w_lane := s\<lparr>making := False\<rparr>\<rparr>)
      else
        (let p = spare_path dir lane (made s);
             s = s\<lparr>made := made s + 1\<rparr> in
         case fs_open p CreateNew (w_fs w) of
           (Inl e, fs) \<Rightarrow> (False, \<lparr>w_fs = fs, w_lane = s\<lparr>making := False\<rparr>\<rparr>)
         | (Inr h, fs) \<Rightarrow>
             (case st_bind (fill h sz) (\<lambda>_. sync_dir dir) fs of
                (Inl e, fs) \<Rightarrow>
                  (False, \<lparr>w_fs = snd (fs_remove p fs), w_lane = s\<lparr>making := False\<rparr>\<rparr>)
              | (Inr _, fs) \<Rightarrow>
                  (True, \<lparr>w_fs = fs,
                          w_lane = s\<lparr>spare_list := p # spare_list s,
                                     stats := (stats s)\<lparr>s_made := s_made (stats s) + 1\<rparr>\<rparr>\<rparr>))))"

fun make_spares :: "path \<Rightarrow> u8 \<Rightarrow> nat \<Rightarrow> nat \<Rightarrow> World \<Rightarrow> bool \<times> World" where
  "make_spares dir lane sz 0 w = (True, w)"
| "make_spares dir lane sz (Suc n) w =
     (case make_spare dir lane sz w of
        (False, w) \<Rightarrow> (False, w)
      | (True, w) \<Rightarrow> make_spares dir lane sz n w)"

section \<open>Opening\<close>

fun keep_spares ::
  "Options \<Rightarrow> path list \<Rightarrow> path list \<Rightarrow> u64 \<Rightarrow> (path list \<times> u64) io" where
  "keep_spares opts [] kept mk = st_return (kept, mk)"
| "keep_spares opts (spare # rest) kept mk =
     st_bind (if length kept < SPARES
              then st_bind (path_len spare) (\<lambda>n. st_return (n = o_segment_bytes opts))
              else st_return False) (\<lambda>keep.
       if keep
       then keep_spares opts rest (kept @ [spare])
              (case spare_sequence spare of
                 Some (_, sequence) \<Rightarrow> max mk (if sequence = - 1 then - 1 else sequence + 1)
               | None \<Rightarrow> mk)
       else st_bind (remove_spare spare) (\<lambda>_. keep_spares opts rest kept mk))"

definition make_dir :: "path \<Rightarrow> unit io" where
  "make_dir dir fs =
     (if is_dir fs dir then (Inr (), fs)
      else st_bind (create_dir_all dir) (\<lambda>_.
             (case Path_parent dir of
                Some p \<Rightarrow> if p = [] then st_return () else sync_dir p
              | None \<Rightarrow> st_return ())) fs)"

definition initial_state :: "u64 \<Rightarrow> path list \<Rightarrow> u64 \<Rightarrow> LState" where
  "initial_state sequence kept mk =
     \<lparr>tail_sequence = sequence, tail_offset = SEGMENT_HEADER, pending = [], opened = None,
      reserved = 0, written = 0, durable = 0, ordered = 0, flushing = False, failed = None,
      stats = Stats_default, spare_list = kept, made = mk, making = False, stopped = False\<rparr>"

definition first_segment :: "sum32 \<Rightarrow> path \<Rightarrow> Options \<Rightarrow> u64 \<Rightarrow> unit turn" where
  "first_segment ext dir opts sequence =
     st_bind (create_segment ext dir opts sequence) (\<lambda>h w.
       (Inr (), w\<lparr>w_lane := (w_lane w)
          \<lparr>opened := Some \<lparr>op_sequence = sequence, op_file = h, op_dirty = False\<rparr>,
           stats := (stats (w_lane w))\<lparr>s_segments := 1\<rparr>\<rparr>\<rparr>))"

definition Lane_open :: "sum32 \<Rightarrow> path \<Rightarrow> Options \<Rightarrow> Inner \<Rightarrow> (log_error + LState) \<times> Inner" where
  "Lane_open ext dir opts fs =
     (if o_segment_bytes opts < 2 * SEGMENT_HEADER \<or> \<not> 8 dvd o_segment_bytes opts
      then (Inl (Bad_segment_size (o_segment_bytes opts)), fs)
      else
        (case make_dir dir fs of
           (Inl e, fs) \<Rightarrow> (Inl (Fs e), fs)
         | (Inr _, fs) \<Rightarrow>
        (case segments fs dir (o_lane opts) of
           Inl e \<Rightarrow> (Inl (Fs e), fs)
         | Inr segs \<Rightarrow>
             if segs \<noteq> [] \<and> fst (last segs) = - 1 then (Inl Overflow_panic, fs)
             else
               (let sequence = (if segs = [] then 1 else fst (last segs) + 1) in
                case spares fs dir (o_lane opts) of
                  Inl e \<Rightarrow> (Inl (Fs e), fs)
                | Inr found \<Rightarrow>
               (case keep_spares opts found [] MADE fs of
                  (Inl e, fs) \<Rightarrow> (Inl (Fs e), fs)
                | (Inr (kept, mk), fs) \<Rightarrow>
               (case first_segment ext dir opts sequence
                       \<lparr>w_fs = fs, w_lane = initial_state sequence kept mk\<rparr> of
                  (Inl e, w) \<Rightarrow> (Inl e, w_fs w)
                | (Inr _, w) \<Rightarrow> (Inr (w_lane w), w_fs w)))))))"

end
