(* ===== verification/LaneDisk.thy ===== *)
theory LaneDisk
  imports Lane "HOL-Library.Sublist"
begin

text \<open>
  What the lane keeps true of the disk at every moment, so whatever a crash leaves of it can be read
  back. \<open>disk_ok\<close> says of a filesystem that no crash gives a file two names, that no segment's name
  can lead to a header of another segment, and that the segments hold the blocks promised to be
  durable. The lemmas of this theory say that each thing a lane does to its files keeps it, also
  where it stops halfway.
\<close>

section \<open>Definitions\<close>

definition seg_at :: "path \<Rightarrow> u8 \<Rightarrow> path \<Rightarrow> u64 \<Rightarrow> bool" where
  "seg_at dir lane p s \<longleftrightarrow> Path_parent p = Some dir \<and> segment_of lane p = Some s"

definition header_of :: "Options \<Rightarrow> u64 \<Rightarrow> SegmentHeader" where
  "header_of opts s = \<lparr>sh_lane = o_lane opts, sh_sequence = s, sh_database = o_database opts\<rparr>"

definition hdr :: "sum32 \<Rightarrow> Options \<Rightarrow> u64 \<Rightarrow> bytes" where
  "hdr ext opts s = SegmentHeader_encode ext (header_of opts s)"

definition harmless :: "sum32 \<Rightarrow> Options \<Rightarrow> u64 \<Rightarrow> bytes \<Rightarrow> bool" where
  "harmless ext opts s b \<longleftrightarrow>
     SegmentHeader_decode ext b = None \<or> SegmentHeader_decode ext b = Some (header_of opts s)"

text \<open>Blocks with the segment each is in, and those of one segment.\<close>

type_synonym entries = "(u64 \<times> Block) list"

definition blocks_of :: "entries \<Rightarrow> u64 \<Rightarrow> Block list" where
  "blocks_of X s = map snd (filter (\<lambda>e. fst e = s) X)"

definition seg_image :: "sum32 \<Rightarrow> Options \<Rightarrow> entries \<Rightarrow> u64 \<Rightarrow> bytes" where
  "seg_image ext opts X s = hdr ext opts s @ blocks_image ext (o_lane opts) s (blocks_of X s)"

definition unique :: "path \<Rightarrow> Inner \<Rightarrow> bool" where
  "unique dir fs \<longleftrightarrow>
     (\<forall>c p q i. parent p = dir \<and> parent q = dir \<and> bind_at c fs p = Some i \<and> bind_at c fs q = Some i
        \<longrightarrow> p = q)"

definition owned :: "path \<Rightarrow> Inner \<Rightarrow> path \<Rightarrow> nat \<Rightarrow> bool" where
  "owned dir fs p i \<longleftrightarrow> (\<forall>c q. parent q = dir \<and> bind_at c fs q = Some i \<longrightarrow> q = p)"

definition no_foreign :: "sum32 \<Rightarrow> path \<Rightarrow> Options \<Rightarrow> Inner \<Rightarrow> bool" where
  "no_foreign ext dir opts fs \<longleftrightarrow>
     (\<forall>p s i. seg_at dir (o_lane opts) p s \<and> Some i \<in> binds fs p
        \<longrightarrow> (\<forall>b \<in> images fs i. harmless ext opts s b))"

definition held :: "sum32 \<Rightarrow> path \<Rightarrow> Options \<Rightarrow> Inner \<Rightarrow> entries \<Rightarrow> u64 set \<Rightarrow> bool" where
  "held ext dir opts fs X gone \<longleftrightarrow>
     (\<forall>s. s \<notin> gone \<and> blocks_of X s \<noteq> [] \<longrightarrow>
        (\<exists>i. (\<forall>c. bind_at c fs (segment_path dir (o_lane opts) s) = Some i)
             \<and> (\<forall>b \<in> images fs i. prefix (seg_image ext opts X s) b)))"

definition disk_ok :: "sum32 \<Rightarrow> path \<Rightarrow> Options \<Rightarrow> Inner \<Rightarrow> entries \<Rightarrow> u64 set \<Rightarrow> bool" where
  "disk_ok ext dir opts fs X gone \<longleftrightarrow>
     fs_ok fs \<and> unique dir fs \<and> no_foreign ext dir opts fs \<and> held ext dir opts fs X gone
     \<and> is_dir fs dir"

text \<open>The names of segments a process sees belong to their files, whatever a crash does.\<close>

definition owners :: "path \<Rightarrow> u8 \<Rightarrow> Inner \<Rightarrow> bool" where
  "owners dir lane fs \<longleftrightarrow>
     (\<forall>p s i. seg_at dir lane p s \<and> sees fs p = Some i \<longrightarrow> owned dir fs p i)"

definition spares_ok :: "path \<Rightarrow> Options \<Rightarrow> Inner \<Rightarrow> path list \<Rightarrow> bool" where
  "spares_ok dir opts fs S \<longleftrightarrow>
     (\<forall>s \<in> set S. Path_parent s = Some dir \<and> segment_of (o_lane opts) s = None
        \<and> (\<forall>i. sees fs s = Some i \<longrightarrow>
             owned dir fs s i \<and> (\<forall>b \<in> images fs i. length b = o_segment_bytes opts)))"

section \<open>Paths\<close>

lemma Path_parent_join [simp]: "Path_parent (join dir n) = Some dir"
  by (simp add: Path_parent_def join_def)

lemma parent_join [simp]: "parent (join dir n) = dir"
  by (simp add: parent_def)

lemma parent_of_Path_parent: "Path_parent p = Some d \<Longrightarrow> parent p = d"
  by (simp add: parent_def)

lemma file_name_join [simp]: "file_name (join dir n) = Some n"
  by (simp add: file_name_def join_def)

lemma parent_segment_path [simp]: "parent (segment_path dir lane s) = dir"
  by (simp add: segment_path_def)

lemma parent_spare_path [simp]: "parent (spare_path dir lane s) = dir" "Path_parent (spare_path dir lane s) = Some dir"
  by (simp_all add: spare_path_def)

lemma seg_at_segment_path:
  "lane < 100 \<Longrightarrow> seg_at dir lane (segment_path dir lane s) s"
  by (simp add: seg_at_def segment_path_def segment_of_def parse_segment_name_segment_name)

lemma segment_of_spare_path:
  "lane < 100 \<Longrightarrow> segment_of lane (spare_path dir lane s) = None"
  by (simp add: spare_path_def segment_of_def parse_spare_name)

lemma seg_at_parent: "seg_at dir lane p s \<Longrightarrow> parent p = dir"
  by (simp add: seg_at_def parent_of_Path_parent)

lemma segment_path_inject:
  "lane < 100 \<Longrightarrow> segment_path dir lane s = segment_path dir lane t \<longleftrightarrow> s = t"
  by (simp add: segment_path_def join_def segment_name_inject)

section \<open>Headers\<close>

lemma length_hdr [simp]: "length (hdr ext opts s) = SEGMENT_HEADER"
  by (simp add: hdr_def)

lemma harmless_header:
  assumes "prefix (hdr ext opts s) b"
  shows "harmless ext opts s b"
proof -
  obtain r where "b = hdr ext opts s @ r" using assms by (auto simp: prefix_def)
  then show ?thesis
    by (simp add: harmless_def hdr_def SegmentHeader_decode_encode)
qed

lemma harmless_short: "length b < SEGMENT_HEADER \<Longrightarrow> harmless ext opts s b"
  by (simp add: harmless_def SegmentHeader_decode_def get_range_def)

lemma harmless_zeros:
  assumes "\<forall>x \<in> set (take SEGMENT_HEADER b). x = 0"
  shows "harmless ext opts s b"
proof (cases "SEGMENT_HEADER \<le> length b")
  case True
  have "take 8 (take SEGMENT_HEADER b) \<noteq> SEGMENT_MAGIC"
  proof
    assume "take 8 (take SEGMENT_HEADER b) = SEGMENT_MAGIC"
    then have "hd (take SEGMENT_HEADER b) = 0x52" using True
      by (cases b) (auto simp: SEGMENT_MAGIC_def SEGMENT_HEADER_def)
    moreover have "hd (take SEGMENT_HEADER b) \<in> set (take SEGMENT_HEADER b)"
      using True by (intro hd_in_set) (auto simp: SEGMENT_HEADER_def)
    ultimately show False using assms by auto
  qed
  then show ?thesis
    using True by (simp add: harmless_def SegmentHeader_decode_def get_range_def Let_def del: take_take)
qed (simp add: harmless_short)

section \<open>Keeping the disk in order\<close>

lemma disk_okD:
  assumes "disk_ok ext dir opts fs X gone"
  shows "fs_ok fs" and "unique dir fs" and "no_foreign ext dir opts fs" and "held ext dir opts fs X gone"
    and "is_dir fs dir"
  using assms by (simp_all add: disk_ok_def)

lemma disk_ok_same_disk:
  "same_disk fs fs' \<Longrightarrow> disk_ok ext dir opts fs' X gone = disk_ok ext dir opts fs X gone"
  by (simp add: disk_ok_def unique_def no_foreign_def held_def is_dir_def same_disk_facts)

lemma owners_same_disk: "same_disk fs fs' \<Longrightarrow> owners dir lane fs' = owners dir lane fs"
  by (simp add: owners_def owned_def same_disk_facts)

lemma spares_ok_same_disk: "same_disk fs fs' \<Longrightarrow> spares_ok dir opts fs' S = spares_ok dir opts fs S"
  by (simp add: spares_ok_def owned_def same_disk_facts)

text \<open>A change to the contents of one file.\<close>

lemma disk_ok_file:
  assumes ok: "disk_ok ext dir opts fs X gone" and names: "names_same fs fs'"
    and others: "\<And>j. j \<noteq> i \<Longrightarrow> images fs' j = images fs j" and "fs_ok fs'"
    and harm: "\<And>p s b. seg_at dir (o_lane opts) p s \<Longrightarrow> Some i \<in> binds fs p \<Longrightarrow> b \<in> images fs' i
      \<Longrightarrow> harmless ext opts s b"
    and keep: "\<And>s b. s \<notin> gone \<Longrightarrow> blocks_of X s \<noteq> [] \<Longrightarrow>
      (\<And>c. bind_at c fs (segment_path dir (o_lane opts) s) = Some i) \<Longrightarrow>
      b \<in> images fs' i \<Longrightarrow> prefix (seg_image ext opts X s) b"
  shows "disk_ok ext dir opts fs' X gone"
proof -
  have bind: "bind_at c fs' = bind_at c fs" for c using names by (simp add: names_same_def)
  have binds: "binds fs' = binds fs" using names by (rule names_same_binds)
  have "no_foreign ext dir opts fs'"
    unfolding no_foreign_def binds
  proof (intro allI impI ballI, elim conjE)
    fix p s j b
    assume "seg_at dir (o_lane opts) p s" "Some j \<in> binds fs p" "b \<in> images fs' j"
    then show "harmless ext opts s b"
      using harm others [of j] disk_okD(3) [OF ok, unfolded no_foreign_def] by (cases "j = i") (blast, metis)
  qed
  moreover have "held ext dir opts fs' X gone"
    unfolding held_def bind
  proof (intro allI impI, elim conjE)
    fix s assume "s \<notin> gone" "blocks_of X s \<noteq> []"
    then obtain j where j: "\<forall>c. bind_at c fs (segment_path dir (o_lane opts) s) = Some j"
      "\<forall>b \<in> images fs j. prefix (seg_image ext opts X s) b"
      using disk_okD(4) [OF ok] by (auto simp: held_def)
    have "\<forall>b \<in> images fs' j. prefix (seg_image ext opts X s) b"
    proof
      fix b assume "b \<in> images fs' j"
      then show "prefix (seg_image ext opts X s) b"
        using keep [OF \<open>s \<notin> gone\<close> \<open>blocks_of X s \<noteq> []\<close>, of b] j others [of j] by (cases "j = i") (blast, metis)
    qed
    with j(1) show "\<exists>i. (\<forall>c. bind_at c fs (segment_path dir (o_lane opts) s) = Some i)
        \<and> (\<forall>b \<in> images fs' i. prefix (seg_image ext opts X s) b)" by blast
  qed
  moreover have "unique dir fs'" using disk_okD(2) [OF ok] unfolding unique_def bind .
  moreover have "is_dir fs' dir" using disk_okD(5) [OF ok] names by (simp add: is_dir_def names_same_def)
  ultimately show ?thesis using \<open>fs_ok fs'\<close> by (simp add: disk_ok_def)
qed

text \<open>Changes to the names.\<close>

lemma fs_ok_binds: "fs_ok fs \<Longrightarrow> Some i \<in> binds fs p \<Longrightarrow> content fs i \<noteq> None"
  unfolding fs_ok_def content_def by blast

lemma unique_sees: "fs_ok fs \<Longrightarrow> unique dir fs \<Longrightarrow> parent p = dir \<Longrightarrow> parent q = dir \<Longrightarrow>
    sees fs p = Some i \<Longrightarrow> sees fs q = Some i \<Longrightarrow> p = q"
  unfolding unique_def fs_ok_def by metis

lemma held_binds:
  assumes "held ext dir opts fs X gone" and "s \<notin> gone" and "blocks_of X s \<noteq> []"
  obtains i where "binds fs (segment_path dir (o_lane opts) s) = {Some i}"
    "\<forall>b \<in> images fs i. prefix (seg_image ext opts X s) b"
proof -
  obtain i where i: "\<forall>c. bind_at c fs (segment_path dir (o_lane opts) s) = Some i"
    "\<forall>b \<in> images fs i. prefix (seg_image ext opts X s) b"
    using assms unfolding held_def by blast
  then show thesis by (intro that [of i]) (auto simp: binds_def)
qed

lemma held_sees:
  assumes "disk_ok ext dir opts fs X gone" and "s \<notin> gone" and "blocks_of X s \<noteq> []"
  shows "sees fs (segment_path dir (o_lane opts) s) \<noteq> None"
  using held_binds [OF disk_okD(4) [OF assms(1)] assms(2,3)] sees_binds [OF disk_okD(1) [OF assms(1)]]
  by (metis option.distinct(1) singletonD)

lemma held_moved:
  assumes "held ext dir opts fs X gone" and mv: "moved ef fs fs'"
    and images: "\<And>s j b. s \<notin> gone \<Longrightarrow> blocks_of X s \<noteq> [] \<Longrightarrow>
      bind_at KeepingEverything fs (segment_path dir (o_lane opts) s) = Some j \<Longrightarrow> b \<in> images fs' j \<Longrightarrow> b \<in> images fs j"
    and untouched: "\<And>s. s \<notin> gone \<Longrightarrow> blocks_of X s \<noteq> [] \<Longrightarrow> ef (segment_path dir (o_lane opts) s) = None"
  shows "held ext dir opts fs' X gone"
  unfolding held_def
proof (intro allI impI, elim conjE)
  fix s assume s: "s \<notin> gone" "blocks_of X s \<noteq> []"
  then obtain i where i: "\<forall>c. bind_at c fs (segment_path dir (o_lane opts) s) = Some i"
    "\<forall>b \<in> images fs i. prefix (seg_image ext opts X s) b"
    using assms(1) unfolding held_def by blast
  have "bind_at c fs' (segment_path dir (o_lane opts) s) = Some i" for c
    using moved_bind_at [OF mv, of c "segment_path dir (o_lane opts) s"] untouched [OF s] i(1) by auto
  moreover have "\<forall>b \<in> images fs' i. prefix (seg_image ext opts X s) b" using images [OF s] i by blast
  ultimately show "\<exists>i. (\<forall>c. bind_at c fs' (segment_path dir (o_lane opts) s) = Some i)
      \<and> (\<forall>b \<in> images fs' i. prefix (seg_image ext opts X s) b)" by blast
qed

lemma disk_ok_link:
  assumes ok: "disk_ok ext dir opts fs X gone" and mv: "moved (effect (Link p i)) fs fs'"
    and fresh: "content fs i = None" and "sees fs p = None"
    and images: "images fs' = (images fs)(i := {[]})" and "fs_ok fs'"
  shows "disk_ok ext dir opts fs' X gone" and "owned dir fs' p i"
proof -
  have none: "Some i \<notin> binds fs q" for q
    using fresh fs_ok_binds [OF disk_okD(1) [OF ok]] by blast
  have only: "q = p" if "bind_at c fs' q = Some i" for c q
    using moved_bind_at [OF mv, of c q] that none [of q] bind_at_binds [of c fs q]
    by (auto split: if_splits)
  then show "owned dir fs' p i" unfolding owned_def by blast
  have old: "bind_at c fs' q = bind_at c fs q \<or> bind_at c fs' q = Some i" for c q
    using moved_bind_at [OF mv, of c q] by (auto split: if_splits)
  have "unique dir fs'"
    unfolding unique_def
  proof (intro allI impI, elim conjE)
    fix c q r j
    assume *: "parent q = dir" "parent r = dir" "bind_at c fs' q = Some j" "bind_at c fs' r = Some j"
    show "q = r"
    proof (cases "j = i")
      case True
      then show ?thesis using only * by metis
    next
      case False
      then have "bind_at c fs q = Some j" "bind_at c fs r = Some j" using old * by (metis option.inject)+
      then show ?thesis using disk_okD(2) [OF ok] * unfolding unique_def by blast
    qed
  qed
  moreover have "no_foreign ext dir opts fs'"
    unfolding no_foreign_def
  proof (intro allI impI ballI, elim conjE)
    fix q s j b assume q: "seg_at dir (o_lane opts) q s" "Some j \<in> binds fs' q" "b \<in> images fs' j"
    show "harmless ext opts s b"
    proof (cases "j = i")
      case True
      then show ?thesis using q images by (simp add: harmless_short SEGMENT_HEADER_def)
    next
      case False
      then have "Some j \<in> binds fs q" using moved_binds_subset [OF mv q(2)] by (auto split: if_splits)
      then show ?thesis
        using False q images disk_okD(3) [OF ok] unfolding no_foreign_def by (metis fun_upd_other)
    qed
  qed
  moreover have "held ext dir opts fs' X gone"
  proof (rule held_moved [OF disk_okD(4) [OF ok] mv])
    fix s assume s: "s \<notin> gone" "blocks_of X s \<noteq> []"
    then show "effect (Link p i) (segment_path dir (o_lane opts) s) = None"
      using held_sees [OF ok s] \<open>sees fs p = None\<close> by auto
    fix j b assume "bind_at KeepingEverything fs (segment_path dir (o_lane opts) s) = Some j" "b \<in> images fs' j"
    then show "b \<in> images fs j"
      using none [of "segment_path dir (o_lane opts) s"] bind_at_binds [of KeepingEverything fs] images
      by (metis fun_upd_other)
  qed
  ultimately show "disk_ok ext dir opts fs' X gone"
    using ok \<open>fs_ok fs'\<close> mv by (simp add: disk_ok_def is_dir_def moved_def)
qed

lemma disk_ok_rename:
  assumes ok: "disk_ok ext dir opts fs X gone" and mv: "moved (effect (Rename f t i)) fs fs'"
    and owned: "owned dir fs f i" and files: "files_same fs fs'" and "fs_ok fs'"
    and harm: "\<And>s b. seg_at dir (o_lane opts) t s \<Longrightarrow> b \<in> images fs i \<Longrightarrow> harmless ext opts s b"
    and untouched: "\<And>s. s \<notin> gone \<Longrightarrow> blocks_of X s \<noteq> [] \<Longrightarrow>
      segment_path dir (o_lane opts) s \<noteq> f \<and> segment_path dir (o_lane opts) s \<noteq> t"
  shows "disk_ok ext dir opts fs' X gone"
proof -
  have images: "images fs' = images fs" using files by (simp add: files_same_def)
  obtain K where K: "\<And>c q. bind_at c fs' q = (if K c then (case effect (Rename f t i) q of None \<Rightarrow> bind_at c fs q | Some w \<Rightarrow> w)
      else bind_at c fs q)"
    using mv unfolding moved_def by blast
  have "unique dir fs'"
    unfolding unique_def
  proof (intro allI impI, elim conjE)
    fix c q r j
    assume *: "parent q = dir" "parent r = dir" "bind_at c fs' q = Some j" "bind_at c fs' r = Some j"
    have u: "bind_at c fs q = Some j \<Longrightarrow> bind_at c fs r = Some j \<Longrightarrow> q = r"
      using disk_okD(2) [OF ok] *(1,2) unfolding unique_def by blast
    have own: "parent x = dir \<Longrightarrow> bind_at c fs x = Some i \<Longrightarrow> x = f" for x
      using owned unfolding owned_def by blast
    have cases: "bind_at c fs' x = bind_at c fs x \<and> (K c \<longrightarrow> x \<noteq> f \<or> x = t) \<or> K c \<and> x = t \<and> bind_at c fs' x = Some i"
      if "bind_at c fs' x \<noteq> None" for x
      using that unfolding K by (cases "K c") (auto split: if_splits)
    show "q = r"
      using cases [of q] cases [of r] *(3,4) u own [OF *(1)] own [OF *(2)] by (metis option.distinct(1) option.inject)
  qed
  moreover have "no_foreign ext dir opts fs'"
    unfolding no_foreign_def images
  proof (intro allI impI ballI, elim conjE)
    fix q s j b assume q: "seg_at dir (o_lane opts) q s" "Some j \<in> binds fs' q" "b \<in> images fs j"
    from moved_binds_subset [OF mv q(2)] show "harmless ext opts s b"
    proof
      assume "Some j \<in> binds fs q"
      then show ?thesis using q disk_okD(3) [OF ok] unfolding no_foreign_def by blast
    next
      assume "effect (Rename f t i) q = Some (Some j)"
      then have "q = t" "j = i" by (auto split: if_splits)
      then show ?thesis using harm q by blast
    qed
  qed
  moreover have "held ext dir opts fs' X gone"
    by (rule held_moved [OF disk_okD(4) [OF ok] mv]) (use untouched images in auto)
  ultimately show ?thesis
    using ok \<open>fs_ok fs'\<close> mv by (simp add: disk_ok_def is_dir_def moved_def)
qed

lemma disk_ok_unlink:
  assumes ok: "disk_ok ext dir opts fs X gone" and mv: "moved (effect (Unlink p)) fs fs'"
    and files: "files_same fs fs'" and "fs_ok fs'"
    and untouched: "\<And>s. s \<notin> gone \<Longrightarrow> blocks_of X s \<noteq> [] \<Longrightarrow> segment_path dir (o_lane opts) s \<noteq> p"
  shows "disk_ok ext dir opts fs' X gone"
proof -
  have images: "images fs' = images fs" using files by (simp add: files_same_def)
  have old: "bind_at c fs' q = Some j \<Longrightarrow> bind_at c fs q = Some j" for c q j
    using moved_bind_at [OF mv, of c q] by (auto split: if_splits)
  have "unique dir fs'"
    using disk_okD(2) [OF ok] old unfolding unique_def by blast
  moreover have "no_foreign ext dir opts fs'"
    using disk_okD(3) [OF ok] moved_binds_subset [OF mv] unfolding no_foreign_def images
    by (force split: if_splits)
  moreover have "held ext dir opts fs' X gone"
    by (rule held_moved [OF disk_okD(4) [OF ok] mv]) (use untouched images in auto)
  ultimately show ?thesis
    using ok \<open>fs_ok fs'\<close> mv by (simp add: disk_ok_def is_dir_def moved_def)
qed

lemma dir_synced_binds: "dir_synced dir fs fs' \<Longrightarrow> parent p = dir \<Longrightarrow> binds fs' p = {sees fs p}"
  by (auto simp: dir_synced_def binds_def)

lemma disk_ok_synced:
  assumes ok: "disk_ok ext dir opts fs X gone" and sy: "dir_synced dir fs fs'"
    and files: "files_same fs fs'" and "fs_ok fs'"
  shows "disk_ok ext dir opts fs' X gone"
    and "\<And>p i. parent p = dir \<Longrightarrow> sees fs p = Some i \<Longrightarrow> owned dir fs' p i"
proof -
  have images: "images fs' = images fs" using files by (simp add: files_same_def)
  have bind: "parent p = dir \<Longrightarrow> bind_at c fs' p = sees fs p" for c p using sy by (simp add: dir_synced_def)
  note inj = unique_sees [OF disk_okD(1,2) [OF ok]]
  have "unique dir fs'" unfolding unique_def using bind inj by metis
  moreover have "no_foreign ext dir opts fs'"
    unfolding no_foreign_def images
  proof (intro allI impI ballI, elim conjE)
    fix p s i b assume p: "seg_at dir (o_lane opts) p s" "Some i \<in> binds fs' p" "b \<in> images fs i"
    have "sees fs p = Some i" using dir_synced_binds [OF sy seg_at_parent [OF p(1)]] p(2) by simp
    then have "Some i \<in> binds fs p" using sees_binds [OF disk_okD(1) [OF ok], of p] by simp
    then show "harmless ext opts s b" using p disk_okD(3) [OF ok] unfolding no_foreign_def by blast
  qed
  moreover have "held ext dir opts fs' X gone"
    unfolding held_def images
  proof (intro allI impI, elim conjE)
    fix s assume s: "s \<notin> gone" "blocks_of X s \<noteq> []"
    obtain i where i: "binds fs (segment_path dir (o_lane opts) s) = {Some i}"
      "\<forall>b \<in> images fs i. prefix (seg_image ext opts X s) b"
      using held_binds [OF disk_okD(4) [OF ok] s] by blast
    have "sees fs (segment_path dir (o_lane opts) s) = Some i"
      using sees_binds [OF disk_okD(1) [OF ok], of "segment_path dir (o_lane opts) s"] i(1) by simp
    then show "\<exists>i. (\<forall>c. bind_at c fs' (segment_path dir (o_lane opts) s) = Some i)
        \<and> (\<forall>b \<in> images fs i. prefix (seg_image ext opts X s) b)"
      using i(2) bind [of "segment_path dir (o_lane opts) s"] by auto
  qed
  ultimately show "disk_ok ext dir opts fs' X gone"
    using ok \<open>fs_ok fs'\<close> sy by (simp add: disk_ok_def is_dir_def dir_synced_def)
  show "owned dir fs' p i" if "parent p = dir" "sees fs p = Some i" for p i
    unfolding owned_def using bind inj that by metis
qed

section \<open>Owners and spares\<close>

lemma owned_names_same: "names_same fs fs' \<Longrightarrow> owned dir fs' = owned dir fs"
  by (simp add: owned_def names_same_def fun_eq_iff)

lemma owned_moved:
  assumes "moved ef fs fs'" and "owned dir fs p i" and "\<And>q. ef q \<noteq> Some (Some i)"
  shows "owned dir fs' p i"
  unfolding owned_def
proof (intro allI impI, elim conjE)
  fix c q assume "parent q = dir" "bind_at c fs' q = Some i"
  then have "bind_at c fs q = Some i" using moved_bind_at [OF assms(1), of c q] assms(3) by metis
  then show "q = p" using assms(2) \<open>parent q = dir\<close> unfolding owned_def by blast
qed

lemma owners_names_same: "names_same fs fs' \<Longrightarrow> owners dir lane fs' = owners dir lane fs"
proof -
  assume ns: "names_same fs fs'"
  have "sees fs' = sees fs" using ns by (simp add: names_same_def)
  then show ?thesis by (simp only: owners_def owned_names_same [OF ns])
qed

lemma owners_synced:
  assumes "disk_ok ext dir opts fs X gone" "dir_synced dir fs fs'" "files_same fs fs'" "fs_ok fs'"
  shows "owners dir lane fs'"
  unfolding owners_def
  using disk_ok_synced(2) [OF assms] assms(2) seg_at_parent by (metis dir_synced_def)

text \<open>Files change, and spares keep their size.\<close>

lemma spares_ok_file:
  assumes "spares_ok dir opts fs S" and "names_same fs fs'"
    and "\<And>j. j \<noteq> i \<Longrightarrow> images fs' j = images fs j"
    and "\<And>b. b \<in> images fs' i \<Longrightarrow> (\<forall>b \<in> images fs i. length b = o_segment_bytes opts) \<Longrightarrow> length b = o_segment_bytes opts"
  shows "spares_ok dir opts fs' S"
  unfolding spares_ok_def
proof (intro ballI conjI allI impI)
  fix s assume s: "s \<in> set S"
  note ok = assms(1) [unfolded spares_ok_def, rule_format, OF s]
  show "Path_parent s = Some dir" "segment_of (o_lane opts) s = None" using ok by auto
  fix j assume "sees fs' s = Some j"
  then have see: "sees fs s = Some j" using assms(2) by (simp add: names_same_def)
  then show "owned dir fs' s j" using ok owned_names_same [OF assms(2)] by metis
  show "length b = o_segment_bytes opts" if "b \<in> images fs' j" for b
    using ok see that assms(3,4) by (cases "j = i") auto
qed

lemma spares_ok_moved:
  assumes "spares_ok dir opts fs S" and mv: "moved ef fs fs'"
    and "\<And>s j. s \<in> set S \<Longrightarrow> sees fs s = Some j \<Longrightarrow> images fs' j = images fs j"
    and new: "\<And>q. q \<in> set S \<Longrightarrow> ef q = None \<or> ef q = Some None"
    and owned: "\<And>s j q. s \<in> set S \<Longrightarrow> sees fs s = Some j \<Longrightarrow> ef q = Some (Some j) \<Longrightarrow> ef s = Some None"
  shows "spares_ok dir opts fs' S"
  unfolding spares_ok_def
proof (intro ballI conjI allI impI)
  fix s assume s: "s \<in> set S"
  note ok = assms(1) [unfolded spares_ok_def, rule_format, OF s]
  show "Path_parent s = Some dir" "segment_of (o_lane opts) s = None" using ok by auto
  fix j assume see': "sees fs' s = Some j"
  have see: "sees fs s = Some j" and ef: "ef s = None"
    using see' mv new [OF s] by (auto simp: moved_def split: option.splits)
  show "owned dir fs' s j"
    using owned_moved [OF mv, of dir s j] ok see owned [OF s see] ef by auto
  show "length b = o_segment_bytes opts" if "b \<in> images fs' j" for b
    using ok see that assms(3) [OF s see] by auto
qed

lemma spares_ok_synced:
  assumes "spares_ok dir opts fs S" and "dir_synced dir fs fs'" and "files_same fs fs'"
    and "disk_ok ext dir opts fs X gone" and "fs_ok fs'"
  shows "spares_ok dir opts fs' S"
  unfolding spares_ok_def
proof (intro ballI conjI allI impI)
  fix s assume s: "s \<in> set S"
  note ok = assms(1) [unfolded spares_ok_def, rule_format, OF s]
  show dir: "Path_parent s = Some dir" "segment_of (o_lane opts) s = None" using ok by auto
  fix j assume "sees fs' s = Some j"
  then have see: "sees fs s = Some j" using assms(2) by (simp add: dir_synced_def)
  then show "owned dir fs' s j"
    using disk_ok_synced(2) [OF assms(4,2,3,5)] dir(1) parent_of_Path_parent by blast
  show "length b = o_segment_bytes opts" if "b \<in> images fs' j" for b
    using ok see that assms(3) by (auto simp: files_same_def)
qed

end
