(* ===== verification/LaneSegment.thy ===== *)
theory LaneSegment
  imports LaneDisk
begin

text \<open>
  The life of one segment's file: made new, or out of a spare, and written to behind what it holds.
  The disk stays in order at every step of it.
\<close>

section \<open>Writes inside a file\<close>

lemma write_bytes_inside:
  "off + length data \<le> length b \<Longrightarrow> write_bytes b off data = copy_at b off data"
  by (simp add: write_bytes_def)

lemma prefix_take: "prefix pre b \<longleftrightarrow> take (length pre) b = pre \<and> length pre \<le> length b"
  by (auto simp: prefix_def) (metis append_take_drop_id)

lemma write_inside:
  assumes "off + length data \<le> length b"
  shows "length (write_bytes b off data) = length b"
    and "length pre \<le> off \<Longrightarrow> prefix pre b \<Longrightarrow> prefix pre (write_bytes b off data)"
    and "length pre = off \<Longrightarrow> prefix pre b \<Longrightarrow> prefix (pre @ data) (write_bytes b off data)"
  using assms
  by (auto simp: write_bytes_inside copy_at_def prefix_take min_def)

lemma after_write_inside:
  assumes "off + length data \<le> length b" and "b' \<in> after_write off data b"
  shows "length b' = length b" and "length pre \<le> off \<Longrightarrow> prefix pre b \<Longrightarrow> prefix pre b'"
proof -
  have "off + length (take n data) \<le> length b" for n using assms(1) by simp
  note inside = write_inside(1,2) [OF this]
  from assms(2) consider "b' = b" | n where "b' = write_bytes b off (take n data)"
    by (auto simp: after_write_def)
  then show "length b' = length b" "length pre \<le> off \<Longrightarrow> prefix pre b \<Longrightarrow> prefix pre b'"
    by (cases; simp add: inside)+
qed

lemma write_append: "length b = off \<Longrightarrow> write_bytes b off data = b @ data"
  by (simp add: write_bytes_def resize_def copy_at_def)

section \<open>The segment being written\<close>

text \<open>
  \<open>writing_ok\<close>: the file of the segment \<open>s\<close> is settled under its name, has its full size in every
  image, and every image begins with the header and the blocks of \<open>X\<close>. What a process sees of it
  begins with the header and the blocks of \<open>A\<close>, and is the only image while the file is clean.
\<close>

definition writing_ok ::
  "sum32 \<Rightarrow> path \<Rightarrow> Options \<Rightarrow> Inner \<Rightarrow> Opened \<Rightarrow> entries \<Rightarrow> entries \<Rightarrow> bool" where
  "writing_ok ext dir opts fs opn X A \<longleftrightarrow>
     (let s = op_sequence opn; i = h_inode (op_file opn) in
      (\<forall>c. bind_at c fs (segment_path dir (o_lane opts) s) = Some i)
      \<and> owned dir fs (segment_path dir (o_lane opts) s) i
      \<and> (\<forall>b \<in> images fs i. length b = o_segment_bytes opts \<and> prefix (seg_image ext opts X s) b)
      \<and> (\<exists>v. content fs i = Some v \<and> prefix (seg_image ext opts A s) v
             \<and> (\<not> op_dirty opn \<longrightarrow> images fs i = {v})))"

lemma writing_okD:
  assumes "writing_ok ext dir opts fs opn X A"
  shows "\<And>c. bind_at c fs (segment_path dir (o_lane opts) (op_sequence opn)) = Some (h_inode (op_file opn))"
    and "owned dir fs (segment_path dir (o_lane opts) (op_sequence opn)) (h_inode (op_file opn))"
    and "\<And>b. b \<in> images fs (h_inode (op_file opn)) \<Longrightarrow>
      length b = o_segment_bytes opts \<and> prefix (seg_image ext opts X (op_sequence opn)) b"
    and "\<exists>v. content fs (h_inode (op_file opn)) = Some v \<and> prefix (seg_image ext opts A (op_sequence opn)) v
             \<and> (\<not> op_dirty opn \<longrightarrow> images fs (h_inode (op_file opn)) = {v})"
  using assms by (auto simp: writing_ok_def Let_def)

lemma writing_ok_same_disk:
  "same_disk fs fs' \<Longrightarrow> writing_ok ext dir opts fs' opn X A = writing_ok ext dir opts fs opn X A"
  by (simp add: writing_ok_def Let_def owned_def same_disk_facts)

lemma writing_ok_sees:
  assumes "fs_ok fs" and "writing_ok ext dir opts fs opn X A"
  shows "sees fs (segment_path dir (o_lane opts) (op_sequence opn)) = Some (h_inode (op_file opn))"
  using assms(1) writing_okD(1) [OF assms(2), of KeepingEverything] by (simp add: fs_ok_def)

text \<open>Only the segment's own name leads to its file.\<close>

lemma writing_ok_only:
  assumes "writing_ok ext dir opts fs opn X A" and "parent p = dir"
    and "Some (h_inode (op_file opn)) \<in> binds fs p"
  shows "p = segment_path dir (o_lane opts) (op_sequence opn)"
  using writing_okD(2) [OF assms(1)] assms(2,3) unfolding owned_def binds_def by (metis rangeE)

text \<open>One more block is written behind the others.\<close>

lemma write_block:
  assumes dk: "disk_ok ext dir opts fs X gone" and own: "owners dir (o_lane opts) fs"
    and sp: "spares_ok dir opts fs S" and wr: "writing_ok ext dir opts fs opn X A"
    and lane: "o_lane opts < 100" and pre: "prefix X A"
    and off: "off = length (seg_image ext opts A (op_sequence opn))"
    and fits: "off + length data \<le> o_segment_bytes opts"
    and data: "data = Block_image ext (o_lane opts) (seed (op_sequence opn)) blk"
  obtains (ok) fs' where "write_at (op_file opn) off data fs = (Inr (), fs')"
      "disk_ok ext dir opts fs' X gone" "owners dir (o_lane opts) fs'" "spares_ok dir opts fs' S"
      "writing_ok ext dir opts fs' (opn\<lparr>op_dirty := True\<rparr>) X (A @ [(op_sequence opn, blk)])"
      "i_dirs fs' = i_dirs fs"
  | (failed) e fs' where "write_at (op_file opn) off data fs = (Inl e, fs')" "same_disk fs fs'"
proof (cases rule: write_at_cases [of "op_file opn" off data fs])
  case (failed e fs')
  then show thesis using that(2) by blast
next
  case w: (ok fs' v)
  let ?i = "h_inode (op_file opn)" and ?s = "op_sequence opn"
  let ?p = "segment_path dir (o_lane opts) ?s"
  have sub: "b' \<in> images fs' ?i \<Longrightarrow> \<exists>b \<in> images fs ?i. b' \<in> after_write off data b" for b'
    using w(7) by blast
  obtain A' where A': "A = X @ A'" using pre by (auto simp: prefix_def)
  have shorter: "length (seg_image ext opts X ?s) \<le> off"
    by (simp add: off A' seg_image_def blocks_of_def blocks_image_def)
  have image: "length b = o_segment_bytes opts \<and> prefix (seg_image ext opts X ?s) b" if b: "b \<in> images fs' ?i" for b
  proof -
    obtain b0 where b0: "b0 \<in> images fs ?i" "b \<in> after_write off data b0" using sub [OF b] by blast
    then show ?thesis
      using writing_okD(3) [OF wr b0(1)] after_write_inside [OF _ b0(2)] fits shorter by simp
  qed
  have hd: "prefix (hdr ext opts s) (seg_image ext opts X s)" for s by (simp add: seg_image_def)
  have disk: "disk_ok ext dir opts fs' X gone"
  proof (rule disk_ok_file [OF dk w(2) w(6) w(8) [OF disk_okD(1) [OF dk]]])
    fix p s b assume p: "seg_at dir (o_lane opts) p s" "Some ?i \<in> binds fs p" "b \<in> images fs' ?i"
    have "p = ?p" using writing_ok_only [OF wr seg_at_parent [OF p(1)] p(2)] .
    then have "s = ?s" using p(1) seg_at_segment_path [OF lane, of dir ?s] by (simp add: seg_at_def)
    then show "harmless ext opts s b"
      using image [OF p(3)] hd [of ?s] harmless_header prefix_order.trans by blast
  next
    fix s b assume "\<And>c. bind_at c fs (segment_path dir (o_lane opts) s) = Some ?i" "b \<in> images fs' ?i"
    moreover from this(1) have "segment_path dir (o_lane opts) s = ?p"
      using writing_ok_only [OF wr, of "segment_path dir (o_lane opts) s"] bind_at_binds
      by (metis parent_segment_path)
    ultimately show "prefix (seg_image ext opts X s) b"
      using image segment_path_inject [OF lane] by metis
  qed
  have v: "length v = o_segment_bytes opts" "prefix (seg_image ext opts A ?s) v"
    using writing_okD(3) [OF wr content_image [OF w(4)]] writing_okD(4) [OF wr] w(4) by auto
  have "prefix (seg_image ext opts A ?s @ data) (write_bytes v off data)"
    by (rule write_inside(3) [OF _ off [symmetric] v(2)]) (simp add: v(1) fits)
  moreover have "seg_image ext opts A ?s @ data = seg_image ext opts (A @ [(?s, blk)]) ?s"
    by (simp add: seg_image_def blocks_of_def blocks_image_def data)
  ultimately have writing: "writing_ok ext dir opts fs' (opn\<lparr>op_dirty := True\<rparr>) X (A @ [(?s, blk)])"
    using image w(2,5) writing_okD(1,2) [OF wr]
    by (simp add: writing_ok_def Let_def owned_names_same [OF w(2)] names_same_def)
  show thesis
  proof (rule that(1) [OF w(1) disk _ _ writing])
    show "owners dir (o_lane opts) fs'" using own owners_names_same [OF w(2)] by simp
    show "spares_ok dir opts fs' S"
      by (rule spares_ok_file [OF sp w(2) w(6)]) (use image in auto)
    show "i_dirs fs' = i_dirs fs" using w(2) by (simp add: names_same_def)
  qed
qed

section \<open>Syncing it\<close>

lemma blocks_of_append: "blocks_of (X @ Y) s = blocks_of X s @ blocks_of Y s"
  by (simp add: blocks_of_def)

lemma blocks_of_other: "\<forall>e \<in> set Y. fst e = q \<Longrightarrow> s \<noteq> q \<Longrightarrow> blocks_of Y s = []"
  by (auto simp: blocks_of_def filter_empty_conv)

text \<open>A clean segment holds everything written to it.\<close>

lemma clean_holds:
  assumes dk: "disk_ok ext dir opts fs X gone" and wr: "writing_ok ext dir opts fs opn X A"
    and A: "A = X @ Y" "\<forall>e \<in> set Y. fst e = op_sequence opn"
    and clean: "content fs (h_inode (op_file opn)) = Some v" "images fs (h_inode (op_file opn)) = {v}"
  shows "disk_ok ext dir opts fs A gone" and "writing_ok ext dir opts fs (opn\<lparr>op_dirty := d\<rparr>) A A"
proof -
  let ?i = "h_inode (op_file opn)" and ?s = "op_sequence opn"
  have v: "prefix (seg_image ext opts A ?s) v" "length v = o_segment_bytes opts"
    using writing_okD(4) [OF wr] writing_okD(3) [OF wr, of v] clean by auto
  have "held ext dir opts fs A gone"
    unfolding held_def
  proof (intro allI impI, elim conjE)
    fix s assume s: "s \<notin> gone" "blocks_of A s \<noteq> []"
    show "\<exists>i. (\<forall>c. bind_at c fs (segment_path dir (o_lane opts) s) = Some i)
        \<and> (\<forall>b \<in> images fs i. prefix (seg_image ext opts A s) b)"
    proof (cases "s = ?s")
      case True
      then show ?thesis using writing_okD(1) [OF wr] clean(2) v by (intro exI [of _ ?i]) simp
    next
      case False
      then have "blocks_of A s = blocks_of X s" using A blocks_of_other by (simp add: blocks_of_append)
      then show ?thesis
        using s disk_okD(4) [OF dk] unfolding held_def seg_image_def by metis
    qed
  qed
  then show "disk_ok ext dir opts fs A gone" using dk by (simp add: disk_ok_def)
  show "writing_ok ext dir opts fs (opn\<lparr>op_dirty := d\<rparr>) A A"
    using writing_okD(1,2) [OF wr] clean v by (simp add: writing_ok_def Let_def)
qed

lemma sync_segment:
  assumes dk: "disk_ok ext dir opts fs X gone" and own: "owners dir (o_lane opts) fs"
    and sp: "spares_ok dir opts fs S" and wr: "writing_ok ext dir opts fs opn X A"
    and A: "A = X @ Y" "\<forall>e \<in> set Y. fst e = op_sequence opn"
    and lane: "o_lane opts < 100"
  obtains (ok) fs' where "sync (op_file opn) fs = (Inr (), fs')"
      "disk_ok ext dir opts fs' A gone" "owners dir (o_lane opts) fs'" "spares_ok dir opts fs' S"
      "\<And>d. writing_ok ext dir opts fs' (opn\<lparr>op_dirty := d\<rparr>) A A" "i_dirs fs' = i_dirs fs"
  | (failed) e fs' where "sync (op_file opn) fs = (Inl e, fs')" "same_disk fs fs'"
proof (cases rule: sync_cases [of "op_file opn" fs])
  case (failed e fs')
  then show thesis using that(2) by blast
next
  case y: (ok fs' v)
  let ?i = "h_inode (op_file opn)" and ?s = "op_sequence opn"
  have img: "v \<in> images fs ?i" using content_image [OF y(3)] .
  have bind: "bind_at c fs' = bind_at c fs" for c using y(2) by (simp add: names_same_def)
  have disk: "disk_ok ext dir opts fs' X gone"
  proof (rule disk_ok_file [OF dk y(2) _ y(6) [OF disk_okD(1) [OF dk]]])
    show "images fs' j = images fs j" if "j \<noteq> ?i" for j using that y(5) by simp
    show "harmless ext opts s b" if "seg_at dir (o_lane opts) p s" "Some ?i \<in> binds fs p" "b \<in> images fs' ?i" for p s b
      using that img y(5) disk_okD(3) [OF dk] unfolding no_foreign_def by auto
    show "prefix (seg_image ext opts X s) b"
      if "s \<notin> gone" "blocks_of X s \<noteq> []" "\<And>c. bind_at c fs (segment_path dir (o_lane opts) s) = Some ?i" "b \<in> images fs' ?i" for s b
      using that img y(5) disk_okD(4) [OF dk] unfolding held_def by (metis fun_upd_same option.inject singletonD)
  qed
  have "writing_ok ext dir opts fs' opn X A"
    using writing_okD [OF wr] img y(3-5) bind owned_names_same [OF y(2)]
    by (auto simp: writing_ok_def Let_def)
  note clean = clean_holds [OF disk this A, of v]
  show thesis
  proof (rule that(1) [OF y(1) clean(1)])
    show "content fs' ?i = Some v" "images fs' ?i = {v}" using y(3-5) by simp_all
    then show "writing_ok ext dir opts fs' (opn\<lparr>op_dirty := d\<rparr>) A A" for d by (rule clean(2))
    show "owners dir (o_lane opts) fs'" using own owners_names_same [OF y(2)] by simp
    show "spares_ok dir opts fs' S"
      by (rule spares_ok_file [OF sp y(2), of ?i]) (use img y(5) in auto)
    show "i_dirs fs' = i_dirs fs" using y(2) by (simp add: names_same_def)
  qed
qed

end
