(* ===== verification/LaneRun.thy ===== *)
theory LaneRun
  imports LaneSegment
begin

text \<open>
  A lane at work, as the steps of the threads that share it: blocks are queued, waiters look, one of
  them leads and puts the outcome of its turn back, segments are retired and spares made. A turn at
  the disk is one step, since what others do meanwhile to the state it leaves alone; blocks queued
  while a leader is out are queued before its step. \<open>queue_ok\<close> is what all steps keep of the queue.
\<close>

section \<open>Steps\<close>

record Run =
  rn_world :: World
  rn_taken :: "(Opened \<times> Piece list \<times> nat \<times> Reach) option"

definition started :: "LState \<Rightarrow> bool" where
  "started s \<longleftrightarrow> (\<exists>sequence kept mk h.
     s = (initial_state sequence kept mk)\<lparr>opened := Some \<lparr>op_sequence = sequence, op_file = h, op_dirty = False\<rparr>, stats := stats s\<rparr>)"

inductive lane_step :: "sum32 \<Rightarrow> path \<Rightarrow> Options \<Rightarrow> Run \<Rightarrow> Run \<Rightarrow> bool" for ext dir opts where
  Enqueue: "Block_ok block \<Longrightarrow> enqueue ext opts block (w_lane (rn_world r)) = (res, s) \<Longrightarrow>
    lane_step ext dir opts r (r\<lparr>rn_world := (rn_world r)\<lparr>w_lane := s\<rparr>\<rparr>)"
| Lead: "wait_look fin reach (w_lane (rn_world r)) = (Leads opn pieces at, s) \<Longrightarrow>
    lane_step ext dir opts r \<lparr>rn_world = (rn_world r)\<lparr>w_lane := s\<rparr>, rn_taken = Some (opn, pieces, at, reach)\<rparr>"
| Turn: "rn_taken r = Some (opn, pieces, at, reach) \<Longrightarrow>
    lane_step ext dir opts r \<lparr>rn_world = lead_turn ext dir opts opn pieces at reach (rn_world r), rn_taken = None\<rparr>"
| Retire: "retire dir opts below (rn_world r) = (res, w) \<Longrightarrow> lane_step ext dir opts r (r\<lparr>rn_world := w\<rparr>)"
| Ahead: "spare_ahead opts spawned (w_lane (rn_world r)) = (res, s) \<Longrightarrow>
    lane_step ext dir opts r (r\<lparr>rn_world := (rn_world r)\<lparr>w_lane := s\<rparr>\<rparr>)"
| Make: "make_spare dir (o_lane opts) (o_segment_bytes opts) (rn_world r) = (again, w) \<Longrightarrow>
    lane_step ext dir opts r (r\<lparr>rn_world := w\<rparr>)"
| Stop: "lane_step ext dir opts r (r\<lparr>rn_world := (rn_world r)\<lparr>w_lane := stop (w_lane (rn_world r))\<rparr>\<rparr>)"

inductive lane_reach :: "sum32 \<Rightarrow> path \<Rightarrow> Options \<Rightarrow> Run \<Rightarrow> bool" for ext dir opts where
  Start: "started (w_lane w) \<Longrightarrow> lane_reach ext dir opts \<lparr>rn_world = w, rn_taken = None\<rparr>"
| Step: "lane_reach ext dir opts r \<Longrightarrow> lane_step ext dir opts r r' \<Longrightarrow> lane_reach ext dir opts r'"

lemma first_segment_started:
  assumes "first_segment ext dir opts sequence \<lparr>w_fs = fs, w_lane = initial_state sequence kept mk\<rparr> = (Inr (), w)"
  shows "\<exists>kept h. w_lane w = (initial_state sequence kept mk)
    \<lparr>opened := Some \<lparr>op_sequence = sequence, op_file = h, op_dirty = False\<rparr>, stats := stats (w_lane w)\<rparr>"
  using assms
  by (auto simp: first_segment_def create_segment_def pop_spare_def note_recycled_def on_fs_def st_bind_def st_return_def
      initial_state_def Let_def split: prod.splits sum.splits if_splits option.splits)

lemma Lane_open_started: "Lane_open ext dir opts fs = (Inr s, fs') \<Longrightarrow> started s"
  unfolding started_def Lane_open_def Let_def
  by (auto split: prod.splits sum.splits if_splits dest!: first_segment_started)

section \<open>The queue\<close>

text \<open>
  \<open>chain sz at pos pieces to fin\<close>: the pieces follow one another, in the log's positions from \<open>pos\<close> to
  \<open>fin\<close> and in the segments from \<open>at\<close> to \<open>to\<close>, none past the end of its segment, and a new segment is
  begun behind its header.
\<close>

fun chain :: "nat \<Rightarrow> u64 \<times> nat \<Rightarrow> nat \<Rightarrow> Piece list \<Rightarrow> u64 \<times> nat \<Rightarrow> nat \<Rightarrow> bool" where
  "chain sz at pos [] to fin \<longleftrightarrow> at = to \<and> pos = fin"
| "chain sz at pos (p # ps) to fin \<longleftrightarrow>
     pc_bytes p \<noteq> [] \<and> pc_end p = pos + length (pc_bytes p)
     \<and> ((pc_sequence p, pc_offset p) = at \<or> fst at \<noteq> - 1 \<and> pc_sequence p = fst at + 1 \<and> pc_offset p = SEGMENT_HEADER)
     \<and> pc_offset p + length (pc_bytes p) \<le> sz
     \<and> chain sz (pc_sequence p, pc_offset p + length (pc_bytes p)) (pc_end p) ps to fin"

lemma chain_append:
  "chain sz at pos (xs @ ys) to fin \<longleftrightarrow> (\<exists>mid m. chain sz at pos xs mid m \<and> chain sz mid m ys to fin)"
  by (induction xs arbitrary: at pos) auto

lemma chain_le: "chain sz at pos ps to fin \<Longrightarrow> pos \<le> fin"
  by (induction ps arbitrary: at pos) fastforce+

lemma chain_last:
  "chain sz at pos ps to fin \<Longrightarrow> ps \<noteq> [] \<Longrightarrow> pc_end (last ps) = fin \<and> fst to = pc_sequence (last ps)"
  by (induction ps arbitrary: at pos) (auto split: if_splits)

definition current :: "Run \<Rightarrow> Opened option" where
  "current r = (case rn_taken r of Some t \<Rightarrow> Some (fst t) | None \<Rightarrow> opened (w_lane (rn_world r)))"

definition out_pieces :: "Run \<Rightarrow> Piece list" where
  "out_pieces r = (case rn_taken r of Some t \<Rightarrow> fst (snd t) | None \<Rightarrow> [])"

definition queue_ok :: "Options \<Rightarrow> Run \<Rightarrow> bool" where
  "queue_ok opts r \<longleftrightarrow>
     (let s = w_lane (rn_world r) in
      durable s \<le> written s \<and> ordered s \<le> written s \<and> written s \<le> reserved s
      \<and> (flushing s \<longleftrightarrow> rn_taken r \<noteq> None) \<and> (opened s = None \<longleftrightarrow> flushing s)
      \<and> (\<forall>opn pieces at reach. rn_taken r = Some (opn, pieces, at, reach) \<longrightarrow> at = written s \<and> failed s = None)
      \<and> (failed s = None \<longrightarrow> (\<exists>opn off. current r = Some opn
           \<and> chain (o_segment_bytes opts) (op_sequence opn, off) (written s) (out_pieces r @ pending s)
               (tail_sequence s, tail_offset s) (reserved s))))"

text \<open>The part of the state that turns at the disk, retiring and making spares leave alone.\<close>

definition same_queue :: "LState \<Rightarrow> LState \<Rightarrow> bool" where
  "same_queue s t \<longleftrightarrow>
     tail_sequence t = tail_sequence s \<and> tail_offset t = tail_offset s \<and> pending t = pending s \<and> opened t = opened s
     \<and> reserved t = reserved s \<and> written t = written s \<and> durable t = durable s \<and> ordered t = ordered s
     \<and> flushing t = flushing s \<and> failed t = failed s"

lemma same_queue_refl [simp]: "same_queue s s"
  by (simp add: same_queue_def)

lemma queue_ok_same:
  assumes "queue_ok opts r" and "same_queue (w_lane (rn_world r)) (w_lane (rn_world r'))" and "rn_taken r' = rn_taken r"
  shows "queue_ok opts r'"
proof -
  have "current r' = current r" "out_pieces r' = out_pieces r"
    using assms(2,3) by (simp_all add: current_def out_pieces_def same_queue_def split: option.split)
  then show ?thesis using assms by (simp add: queue_ok_def same_queue_def Let_def)
qed

section \<open>A turn leaves the queue alone\<close>

abbreviation alone :: "LState \<Rightarrow> World \<times> Opened \<Rightarrow> bool" where
  "alone s \<equiv> (\<lambda>(w, opn). same_queue s (w_lane w))"

lemma keeps_on_fs [st_rules]: "st_keeps (\<lambda>w. same_queue s (w_lane w)) (on_fs m)"
  by (simp add: st_keeps_def on_fs_def split: prod.split)

lemma keeps_pop_spare [st_rules]: "st_keeps (\<lambda>w. same_queue s (w_lane w)) pop_spare"
  by (simp add: st_keeps_def pop_spare_def same_queue_def Let_def)

lemma keeps_note_recycled [st_rules]: "st_keeps (\<lambda>w. same_queue s (w_lane w)) note_recycled"
  by (simp add: st_keeps_def note_recycled_def same_queue_def)

lemma keeps_create_segment [st_rules]: "st_keeps (\<lambda>w. same_queue s (w_lane w)) (create_segment ext dir opts q)"
  unfolding create_segment_def Let_def by (intro st_rules) (auto intro!: st_rules split: option.split)

lemma keeps_in_world [st_rules]: "st_keeps (\<lambda>w. same_queue s (w_lane w)) m \<Longrightarrow> st_keeps (alone s) (in_world m)"
  by (auto simp: st_keeps_def in_world_def split: prod.splits)

lemma keeps_open [st_rules]: "st_keeps (alone s) the_open" "st_keeps (alone s) (set_open opn)"
  by (auto simp: st_keeps_def the_open_def set_open_def)

lemma keeps_if [st_rules]: "st_keeps P m \<Longrightarrow> st_keeps P n \<Longrightarrow> st_keeps P (if b then m else n)"
  by simp

lemma keeps_switch [st_rules]: "st_keeps (alone s) (switch_segment ext dir opts q at led)"
  unfolding switch_segment_def Let_def by (intro st_rules)

lemma keeps_write_run [st_rules]: "st_keeps (alone s) (write_run run led)"
  unfolding write_run_def by (intro st_rules)

lemma keeps_lead_runs [st_rules]: "st_keeps (alone s) (lead_runs ext dir opts pieces at led)"
proof (induction ext dir opts pieces at led rule: lead_runs.induct)
  case (1 ext dir opts pieces at led)
  then show ?case by (subst lead_runs.simps) (auto simp: Let_def intro!: st_rules)
qed

lemma keeps_lead_sync [st_rules]: "st_keeps (alone s) (lead_sync reach r)"
  unfolding lead_sync_def by (cases reach; cases r) (auto intro!: st_rules)

lemma keeps_lead: "st_keeps (alone s) (lead ext dir opts pieces at reach)"
  unfolding lead_def by (intro st_rules)

lemma lead_queue: "lead ext dir opts pieces at reach (w, opn) = (r, (w', opn')) \<Longrightarrow> same_queue (w_lane w) (w_lane w')"
  using st_keepsD [OF keeps_lead, of "w_lane w" "(w, opn)" ext dir opts pieces at reach] by simp

lemma in_world_on_fs: "in_world (on_fs m) (w, opn) = (r, (w', opn')) \<Longrightarrow> opn' = opn"
  by (auto simp: in_world_def split: prod.splits)

lemma in_world_open: "in_world m wo = (r, wo') \<Longrightarrow> snd wo' = snd wo"
  by (auto simp: in_world_def split: prod.splits)

lemma the_open_run: "the_open wo = (Inr opn, wo') \<longleftrightarrow> opn = snd wo \<and> wo' = wo"
  by (auto simp: the_open_def split: prod.splits)

lemma set_open_run: "set_open opn wo = (Inr u, wo') \<longleftrightarrow> wo' = (fst wo, opn)"
  by (auto simp: set_open_def split: prod.splits)

lemmas led_simps = st_bind_Inr the_open_run set_open_run st_return_run Let_def

lemma switch_segment_led:
  assumes "switch_segment ext dir opts q at led wo = (Inr led', wo')"
  shows "op_sequence (snd wo') = q \<and> l_durable led' = Some at \<and> l_ordered led' = l_ordered led"
  using assms unfolding switch_segment_def by (auto simp: led_simps split: if_splits)

lemma write_run_led:
  assumes "write_run run led wo = (Inr led', wo')"
  shows "op_sequence (snd wo') = op_sequence (snd wo) \<and> l_durable led' = l_durable led \<and> l_ordered led' = l_ordered led"
  using assms unfolding write_run_def by (auto simp: led_simps)

lemma lead_runs_led:
  assumes "lead_runs ext dir opts pieces at led wo = (Inr (led', at'), wo')"
    and "chain sz (op_sequence (snd wo), off) at pieces to fin" and "\<And>d. l_durable led = Some d \<Longrightarrow> d \<le> at"
  shows "at' = fin \<and> op_sequence (snd wo') = fst to \<and> l_ordered led' = l_ordered led
    \<and> (\<forall>d. l_durable led' = Some d \<longrightarrow> d \<le> fin)"
  using assms
proof (induction ext dir opts pieces at led arbitrary: wo off rule: lead_runs.induct)
  case (1 ext dir opts pieces at led)
  show ?case
  proof (cases "pieces = []")
    case True
    then show ?thesis using 1(2-4) by (subst (asm) lead_runs.simps) (auto simp: st_return_run)
  next
    case False
    let ?q = "pc_sequence (hd pieces)"
    let ?run = "takeWhile (\<lambda>p. pc_sequence p = ?q) pieces" let ?rest = "dropWhile (\<lambda>p. pc_sequence p = ?q) pieces"
    have run: "?run \<noteq> []" using False by (cases pieces) auto
    obtain led1 wo1 led2 wo2 where
        sw: "(if ?q \<noteq> op_sequence (snd wo) then switch_segment ext dir opts ?q at led else st_return led) wo = (Inr led1, wo1)"
      and wr: "write_run ?run led1 wo1 = (Inr led2, wo2)"
      and more: "lead_runs ext dir opts ?rest (pc_end (last ?run)) led2 wo2 = (Inr (led', at'), wo')"
      using 1(2) False by (subst (asm) lead_runs.simps) (auto simp: led_simps)
    have q1: "op_sequence (snd wo1) = ?q" "l_ordered led1 = l_ordered led" "\<And>d. l_durable led1 = Some d \<Longrightarrow> d \<le> at"
      using sw switch_segment_led [of ext dir opts ?q at led wo led1 wo1] 1(4) by (auto simp: st_return_run split: if_splits)
    have q2: "op_sequence (snd wo2) = ?q" "l_ordered led2 = l_ordered led" "l_durable led2 = l_durable led1"
      using write_run_led [OF wr] q1 by auto
    obtain mid m where mid: "chain sz (op_sequence (snd wo), off) at ?run mid m" "chain sz mid m ?rest to fin"
      using 1(3) chain_append [of sz _ at ?run ?rest to fin] by auto
    have "pc_sequence (last ?run) = ?q" using set_takeWhileD [OF last_in_set [OF run]] by simp
    then have m: "pc_end (last ?run) = m" "mid = (?q, snd mid)" using chain_last [OF mid(1) run] by (auto simp: prod_eq_iff)
    have "\<And>d. l_durable led2 = Some d \<Longrightarrow> d \<le> m" using q1(3) q2(3) chain_le [OF mid(1)] by fastforce
    moreover have "chain sz (op_sequence (snd wo2), snd mid) m ?rest to fin" using mid(2) m(2) q2(1) by simp
    ultimately show ?thesis using 1(1) [OF False refl refl refl more] m(1) q2(2) by simp
  qed
qed

lemma lead_led:
  assumes "lead ext dir opts pieces at reach wo = (Inr led, wo')" and "chain sz (op_sequence (snd wo), off) at pieces to fin"
  shows "l_written led = fin \<and> op_sequence (snd wo') = fst to
    \<and> (\<forall>d. l_durable led = Some d \<longrightarrow> d \<le> fin) \<and> (\<forall>d. l_ordered led = Some d \<longrightarrow> d \<le> fin)
    \<and> (reach = Reach_Durable \<longrightarrow> l_durable led = Some fin) \<and> (reach = Reach_Ordered \<longrightarrow> l_ordered led = Some fin)"
proof -
  obtain led1 at1 wo1 where r: "lead_runs ext dir opts pieces at Led_default wo = (Inr (led1, at1), wo1)"
    and s: "lead_sync reach (led1, at1) wo1 = (Inr led, wo')"
    using assms(1) by (auto simp: lead_def st_bind_Inr)
  have "at1 = fin" "op_sequence (snd wo1) = fst to" "l_ordered led1 = None" "\<And>d. l_durable led1 = Some d \<Longrightarrow> d \<le> fin"
    using lead_runs_led [OF r assms(2)] by (auto simp: Led_default_def)
  then show ?thesis
    using s by (cases reach) (auto simp: lead_sync_def led_simps dest!: in_world_open split: if_splits)
qed

section \<open>Every step keeps the queue\<close>

lemma Block_len_pos: "0 < Block_len b"
  using next_multiple_of_ge [of "RECORD_HEADER + Commit_LEN" RECORD_ALIGN]
  by (simp add: Block_len_def record_bytes_def RECORD_HEADER_def)

lemma enqueue_cases:
  assumes "enqueue ext opts block s = (res, t)" and "Block_ok block"
  obtains (refused) e where "res = Inl e" "t = s"
  | (queued) q off fin where "res = Inr fin" "failed s = None" "fin = reserved s + Block_len block"
      "(q, off) = (tail_sequence s, tail_offset s) \<or> tail_sequence s \<noteq> - 1 \<and> q = tail_sequence s + 1 \<and> off = SEGMENT_HEADER"
      "off + Block_len block \<le> o_segment_bytes opts"
      "t = s\<lparr>tail_sequence := q, tail_offset := off + Block_len block, reserved := fin,
         pending := pending s @ [\<lparr>pc_sequence = q, pc_offset = off, pc_end = fin,
           pc_bytes = Block_image ext (o_lane opts) (seed q) block\<rparr>],
         stats := (stats s)\<lparr>s_bytes := s_bytes (stats s) + Block_len block, s_commits := s_commits (stats s) + 1\<rparr>\<rparr>"
proof -
  let ?len = "Block_len block" let ?over = "o_segment_bytes opts < tail_offset s + ?len"
  consider "o_segment_bytes opts - SEGMENT_HEADER < ?len" | e where "state_check s = Inl e"
    | "?over" "tail_sequence s = - 1" | "\<not> o_segment_bytes opts - SEGMENT_HEADER < ?len" "state_check s = Inr ()" "?over \<longrightarrow> tail_sequence s \<noteq> - 1"
    by (cases "state_check s") auto
  then show thesis
  proof cases
    case 4
    have none: "failed s = None" using 4(2) by (auto simp: state_check_def split: option.splits)
    let ?q = "if ?over then tail_sequence s + 1 else tail_sequence s" let ?off = "if ?over then SEGMENT_HEADER else tail_offset s"
    show thesis
    proof (rule queued [of "reserved s + ?len" ?q ?off])
      show "?off + ?len \<le> o_segment_bytes opts" using 4(1) Block_len_pos [of block] by (cases ?over) auto
    qed (use 4 none assms in \<open>auto simp: enqueue_def Let_def Block_encode_eq split: if_splits\<close>)
  qed (use assms refused in \<open>auto simp: enqueue_def Let_def split: if_splits sum.splits\<close>)
qed

lemma enqueue_ok:
  assumes ok: "queue_ok opts r" and block: "Block_ok block" and enq: "enqueue ext opts block (w_lane (rn_world r)) = (res, s)"
  shows "queue_ok opts (r\<lparr>rn_world := (rn_world r)\<lparr>w_lane := s\<rparr>\<rparr>)"
  using enq block
proof (cases rule: enqueue_cases)
  case refused
  then show ?thesis using ok by simp
next
  case (queued q off fin)
  let ?s = "w_lane (rn_world r)" let ?r = "r\<lparr>rn_world := (rn_world r)\<lparr>w_lane := s\<rparr>\<rparr>"
  let ?p = "\<lparr>pc_sequence = q, pc_offset = off, pc_end = fin, pc_bytes = Block_image ext (o_lane opts) (seed q) block\<rparr>"
  obtain opn off0 where c: "current r = Some opn"
    "chain (o_segment_bytes opts) (op_sequence opn, off0) (written ?s) (out_pieces r @ pending ?s)
       (tail_sequence ?s, tail_offset ?s) (reserved ?s)"
    using ok queued(2) unfolding queue_ok_def Let_def by blast
  have len: "length (Block_image ext (o_lane opts) (seed q) block) = Block_len block" by (rule length_Block_image [OF block])
  then have ne: "Block_image ext (o_lane opts) (seed q) block \<noteq> []" using Block_len_pos [of block] by auto
  have "chain (o_segment_bytes opts) (tail_sequence ?s, tail_offset ?s) (reserved ?s) [?p] (q, off + Block_len block) fin"
    using queued(3,4,5) len ne by auto
  then have "chain (o_segment_bytes opts) (op_sequence opn, off0) (written ?s) ((out_pieces r @ pending ?s) @ [?p])
      (q, off + Block_len block) fin"
    using c(2) chain_append by blast
  moreover have "current ?r = Some opn" "out_pieces ?r = out_pieces r"
    using c(1) queued(6) by (cases "rn_taken r"; simp add: current_def out_pieces_def)+
  ultimately show ?thesis
    using ok queued(3,6) by (auto simp: queue_ok_def Let_def)
qed

lemma lead_step_ok:
  assumes ok: "queue_ok opts r" and look: "wait_look fin reach (w_lane (rn_world r)) = (Leads opn pieces at, s)"
  shows "queue_ok opts \<lparr>rn_world = (rn_world r)\<lparr>w_lane := s\<rparr>, rn_taken = Some (opn, pieces, at, reach)\<rparr>"
proof -
  let ?s = "w_lane (rn_world r)"
  have f: "failed ?s = None" "\<not> flushing ?s" "opened ?s = Some opn" "pieces = pending ?s" "at = written ?s"
      "s = ?s\<lparr>opened := None, flushing := True, pending := []\<rparr>"
    using look by (auto simp: wait_look_def state_check_def split: option.splits sum.splits if_splits)
  then have "rn_taken r = None" using ok unfolding queue_ok_def Let_def by blast
  then show ?thesis using ok f by (auto simp: queue_ok_def Let_def current_def out_pieces_def)
qed

lemma turn_ok:
  assumes ok: "queue_ok opts r" and taken: "rn_taken r = Some (opn, pieces, at, reach)"
  shows "queue_ok opts \<lparr>rn_world = lead_turn ext dir opts opn pieces at reach (rn_world r), rn_taken = None\<rparr>"
proof -
  let ?s = "w_lane (rn_world r)"
  obtain outcome w' opn' where l: "lead ext dir opts pieces at reach (rn_world r, opn) = (outcome, (w', opn'))"
    by (metis prod.exhaust)
  have same: "same_queue ?s (w_lane w')" by (rule lead_queue [OF l])
  have at: "at = written ?s" "failed ?s = None" using ok taken by (simp_all add: queue_ok_def Let_def)
  have b: "durable ?s \<le> written ?s" "ordered ?s \<le> written ?s" "written ?s \<le> reserved ?s"
    using ok by (simp_all add: queue_ok_def Let_def)
  show ?thesis
  proof (cases outcome)
    case led: (Inr led)
    obtain off where "chain (o_segment_bytes opts) (op_sequence opn, off) (written ?s) (pieces @ pending ?s)
         (tail_sequence ?s, tail_offset ?s) (reserved ?s)"
      using ok at(2) taken by (auto simp: queue_ok_def Let_def current_def out_pieces_def)
    then obtain mid m where mid: "chain (o_segment_bytes opts) (op_sequence opn, off) (written ?s) pieces mid m"
      "chain (o_segment_bytes opts) mid m (pending ?s) (tail_sequence ?s, tail_offset ?s) (reserved ?s)"
      unfolding chain_append by blast
    have d: "l_written led = m" "op_sequence opn' = fst mid" "\<And>d. l_durable led = Some d \<Longrightarrow> d \<le> m"
        "\<And>d. l_ordered led = Some d \<Longrightarrow> d \<le> m"
      using lead_led [OF l [unfolded led at(1)]] mid(1) by auto
    have m: "written ?s \<le> m" "m \<le> reserved ?s" using chain_le [OF mid(1)] chain_le [OF mid(2)] by simp_all
    have "max (written ?s) m = m" using m(1) by simp
    then show ?thesis
      using l led same b m d mid(2) at(2) unfolding lead_turn_def
      by (auto simp: queue_ok_def Let_def lead_done_def same_queue_def current_def out_pieces_def max_def
          intro!: exI [of _ "snd mid"] split: option.split)
  next
    case (Inl e)
    then show ?thesis
      using l same b ok taken by (auto simp: lead_turn_def queue_ok_def Let_def lead_done_def same_queue_def split: sum.splits)
  qed
qed

lemma retire_queue: "retire dir opts below w = (res, w') \<Longrightarrow> same_queue (w_lane w) (w_lane w')"
  unfolding retire_def Let_def st_bind_def on_fs_def
  by (auto simp: same_queue_def split: sum.splits prod.splits)

lemma make_spare_queue: "make_spare dir lane sz w = (again, w') \<Longrightarrow> same_queue (w_lane w) (w_lane w')"
  unfolding make_spare_def Let_def
  by (auto simp: same_queue_def split: sum.splits prod.splits if_splits)

lemma spare_ahead_queue: "spare_ahead opts spawned s = (res, t) \<Longrightarrow> same_queue s t"
  by (auto simp: spare_ahead_def same_queue_def split: if_splits)

lemma lane_step_queue: "lane_step ext dir opts r r' \<Longrightarrow> queue_ok opts r \<Longrightarrow> queue_ok opts r'"
proof (induction rule: lane_step.induct)
  case (Enqueue block r res s)
  then show ?case using enqueue_ok by blast
next
  case (Lead fin reach r opn pieces at s)
  then show ?case using lead_step_ok by blast
next
  case (Turn r opn pieces at reach)
  then show ?case using turn_ok by blast
next
  case (Retire below r res w)
  then show ?case using retire_queue [OF Retire(1)] by (auto intro: queue_ok_same)
next
  case (Ahead spawned r res s)
  then show ?case using spare_ahead_queue [OF Ahead(1)] by (auto intro: queue_ok_same)
next
  case (Make r again w)
  then show ?case using make_spare_queue [OF Make(1)] by (auto intro: queue_ok_same)
next
  case (Stop r)
  then show ?case by (auto intro: queue_ok_same simp: stop_def same_queue_def)
qed

lemma started_ok: "started (w_lane w) \<Longrightarrow> queue_ok opts \<lparr>rn_world = w, rn_taken = None\<rparr>"
proof -
  assume "started (w_lane w)"
  then obtain sequence kept mk h st where "w_lane w = (initial_state sequence kept mk)
      \<lparr>opened := Some \<lparr>op_sequence = sequence, op_file = h, op_dirty = False\<rparr>, stats := st\<rparr>"
    unfolding started_def by blast
  then show ?thesis by (simp add: queue_ok_def current_def out_pieces_def initial_state_def)
qed

lemma lane_reach_queue: "lane_reach ext dir opts r \<Longrightarrow> queue_ok opts r"
  by (induction rule: lane_reach.induct) (auto intro: started_ok lane_step_queue)

text \<open>A leader that took all there was, and was not failed by the disk, reaches whatever was reserved.\<close>

lemma turn_reaches:
  assumes ok: "queue_ok opts r" and taken: "rn_taken r = Some (opn, pieces, at, reach)"
    and none: "pending (w_lane (rn_world r)) = []"
  shows "failed (w_lane (lead_turn ext dir opts opn pieces at reach (rn_world r))) \<noteq> None
    \<or> reserved (w_lane (rn_world r)) \<le> reached (w_lane (lead_turn ext dir opts opn pieces at reach (rn_world r))) reach"
proof -
  let ?s = "w_lane (rn_world r)"
  obtain outcome w' opn' where l: "lead ext dir opts pieces at reach (rn_world r, opn) = (outcome, (w', opn'))"
    by (metis prod.exhaust)
  show ?thesis
  proof (cases outcome)
    case (Inl e)
    then show ?thesis using l by (simp add: lead_turn_def lead_done_def)
  next
    case (Inr led)
    obtain off where "chain (o_segment_bytes opts) (op_sequence opn, off) at pieces (tail_sequence ?s, tail_offset ?s) (reserved ?s)"
      using ok taken none by (auto simp: queue_ok_def Let_def current_def out_pieces_def)
    then have "l_written led = reserved ?s" "reach = Reach_Durable \<Longrightarrow> l_durable led = Some (reserved ?s)"
        "reach = Reach_Ordered \<Longrightarrow> l_ordered led = Some (reserved ?s)"
      using lead_led [OF l [unfolded Inr]] by auto
    then show ?thesis using l Inr by (cases reach) (auto simp: lead_turn_def lead_done_def reached_def Let_def)
  qed
qed

lemma wait_look_reached:
  "failed s \<noteq> None \<or> fin \<le> reached s reach \<Longrightarrow> \<exists>res. wait_look fin reach s = (Returns res, s) \<and> (failed s = None \<longrightarrow> res = Inr fin)"
  by (cases "failed s") (auto simp: wait_look_def state_check_def)

text \<open>A lane just opened, and one with a block queued.\<close>

definition example_lane :: LState where
  "example_lane = (initial_state 1 [] MADE)
     \<lparr>opened := Some \<lparr>op_sequence = 1, op_file = \<lparr>h_path = [], h_inode = 0, h_writable = True\<rparr>, op_dirty = False\<rparr>\<rparr>"

definition example_queued :: Run where
  "example_queued =
     \<lparr>rn_world = \<lparr>w_fs = SimFilesystem_new,
        w_lane = snd (enqueue (\<lambda>c bs. c) (Options_new 7) (Block_new 1 2 0) example_lane)\<rparr>, rn_taken = None\<rparr>"

lemma example_queued_reach: "lane_reach (\<lambda>c bs. c) [] (Options_new 7) example_queued"
proof -
  let ?w = "\<lparr>w_fs = SimFilesystem_new, w_lane = example_lane\<rparr>" let ?e = "enqueue (\<lambda>c bs. c) (Options_new 7) (Block_new 1 2 0) example_lane"
  have "started example_lane" unfolding started_def
    by (intro exI [of _ 1] exI [of _ "[]"] exI [of _ MADE]
        exI [of _ "\<lparr>h_path = [], h_inode = 0, h_writable = True\<rparr>"]) (simp add: example_lane_def initial_state_def)
  then have "lane_reach (\<lambda>c bs. c) [] (Options_new 7) \<lparr>rn_world = ?w, rn_taken = None\<rparr>" by (intro Start) simp
  moreover have "lane_step (\<lambda>c bs. c) [] (Options_new 7) \<lparr>rn_world = ?w, rn_taken = None\<rparr> example_queued"
    using lane_step.Enqueue [OF Block_ok_new, of "\<lambda>c bs. c" "Options_new 7" 1 2 0 "\<lparr>rn_world = ?w, rn_taken = None\<rparr>" "fst ?e" "snd ?e"]
    by (simp add: example_queued_def)
  ultimately show ?thesis by (rule lane_reach.Step)
qed



text \<open>
  C9. A waiter on a lane with no leader out returns: it looks, leads at most once, and the second look
  finds its position reached or the lane failed. Where the lane has not failed the answer is that the
  position is reached, and it is.
\<close>

theorem waiter_returns:
  assumes "lane_reach ext dir opts r" and "rn_taken r = None" and "fin \<le> reserved (w_lane (rn_world r))"
  shows "\<exists>res w. wait_loop ext dir opts 2 fin reach (rn_world r) = (Some res, w)
    \<and> (failed (w_lane w) = None \<longrightarrow> res = Inr fin \<and> fin \<le> reached (w_lane w) reach)"
proof -
  let ?w = "rn_world r"
  have ok: "queue_ok opts r" by (rule lane_reach_queue [OF assms(1)])
  then have calm: "\<not> flushing (w_lane ?w)" "opened (w_lane ?w) \<noteq> None"
    using assms(2) unfolding queue_ok_def Let_def by auto
  show ?thesis
  proof (cases "failed (w_lane ?w) \<noteq> None \<or> fin \<le> reached (w_lane ?w) reach")
    case True
    then show ?thesis using wait_look_reached [OF True] by (auto simp: numeral_2_eq_2)
  next
    case False
    then obtain opn where opn: "opened (w_lane ?w) = Some opn" using calm(2) by blast
    let ?s = "(w_lane ?w)\<lparr>opened := None, flushing := True, pending := []\<rparr>"
    let ?pieces = "pending (w_lane ?w)" let ?at = "written (w_lane ?w)"
    have look: "wait_look fin reach (w_lane ?w) = (Leads opn ?pieces ?at, ?s)"
      using False calm opn by (simp add: wait_look_def state_check_def)
    let ?r = "\<lparr>rn_world = ?w\<lparr>w_lane := ?s\<rparr>, rn_taken = Some (opn, ?pieces, ?at, reach)\<rparr>"
    let ?w' = "lead_turn ext dir opts opn ?pieces ?at reach (?w\<lparr>w_lane := ?s\<rparr>)"
    have "failed (w_lane ?w') \<noteq> None \<or> fin \<le> reached (w_lane ?w') reach"
      using turn_reaches [OF lead_step_ok [OF ok look], of opn ?pieces ?at reach ext dir] assms(3) by auto
    then show ?thesis using look wait_look_reached [of "w_lane ?w'" fin reach] by (auto simp: numeral_2_eq_2)
  qed
qed

theorem waiter_returns_witness:
  "\<exists>res w. wait_loop (\<lambda>c bs. c) [] (Options_new 7) 2 (reserved (w_lane (rn_world example_queued))) Reach_Durable
     (rn_world example_queued) = (Some res, w)"
  using waiter_returns [OF example_queued_reach _ order_refl, of Reach_Durable] by (auto simp: example_queued_def)

end
