(* ===== verification/Submit.thy ===== *)
theory Submit
  imports SimFs
begin

text \<open>
  Batches of reads: \<open>rudb-io/src/submit.rs\<close>, and \<open>submit\<close> of the simulated filesystem's files. The
  lock around the state of a batch is the state itself; a caller that would block on the condition
  variable gets the answer \<open>Blocks\<close>. \<open>batch_run\<close> is every way a backend's handles and the caller can
  take turns. Its invariant \<open>batch_ok\<close> gives that every read is answered once and with its own
  outcome, and that nobody waits on a backend that is gone.
\<close>

section \<open>Requests and responses\<close>

record Request =
  rq_offset :: nat
  rq_buf :: bytes

definition Request_new :: "nat \<Rightarrow> nat \<Rightarrow> Request" where
  "Request_new offset len = \<lparr>rq_offset = offset, rq_buf = replicate len 0\<rparr>"

definition Request_reusing :: "nat \<Rightarrow> bytes \<Rightarrow> Request" where
  "Request_reusing offset buf = \<lparr>rq_offset = offset, rq_buf = buf\<rparr>"

definition Request_len :: "Request \<Rightarrow> nat" where
  "Request_len r = length (rq_buf r)"

definition Request_is_empty :: "Request \<Rightarrow> bool" where
  "Request_is_empty r \<longleftrightarrow> rq_buf r = []"

definition Request_end :: "Request \<Rightarrow> nat" where
  "Request_end r = rq_offset r + length (rq_buf r)"

record Response =
  rs_index :: nat
  rs_offset :: nat
  rs_read :: nat
  rs_buf :: bytes

definition Response_new :: "nat \<Rightarrow> nat \<Rightarrow> nat \<Rightarrow> bytes \<Rightarrow> Response" where
  "Response_new index offset read buf = \<lparr>rs_index = index, rs_offset = offset, rs_read = read, rs_buf = buf\<rparr>"

text \<open>\<open>None\<close> is the panic of a slice past the end of the buffer.\<close>

definition Response_bytes :: "Response \<Rightarrow> bytes option" where
  "Response_bytes r = (if rs_read r \<le> length (rs_buf r) then Some (take (rs_read r) (rs_buf r)) else None)"

definition is_short :: "Response \<Rightarrow> bool" where
  "is_short r \<longleftrightarrow> rs_read r < length (rs_buf r)"

section \<open>The state of a batch\<close>

datatype submit_error = Backend_stopped | Read_failed fs_error

type_synonym outcome = "submit_error + Response"

record Batch =
  slots :: "outcome option list"
  ready :: "nat list"
  outstanding :: nat
  fillers :: nat

record Completion =
  cp_batch :: Batch
  cp_taken :: nat

definition Completion_pending :: "nat \<Rightarrow> Completion" where
  "Completion_pending n =
     \<lparr>cp_batch = \<lparr>slots = replicate n None, ready = [], outstanding = n, fillers = 1\<rparr>, cp_taken = 0\<rparr>"

definition Filler_clone :: "Batch \<Rightarrow> Batch" where
  "Filler_clone b = b\<lparr>fillers := fillers b + 1\<rparr>"

text \<open>\<open>None\<close> is the overflow of \<open>outstanding\<close>.\<close>

definition Filler_finish :: "nat \<Rightarrow> outcome \<Rightarrow> Batch \<Rightarrow> Batch option" where
  "Filler_finish index out b =
     (if length (slots b) \<le> index \<or> slots b ! index \<noteq> None then Some b
      else if outstanding b = 0 then None
      else Some (b\<lparr>slots := (slots b)[index := Some out], ready := ready b @ [index],
                   outstanding := outstanding b - 1\<rparr>))"

text \<open>The loop of \<open>drop\<close> over the slots, from \<open>index\<close> on.\<close>

fun stop_slots :: "nat \<Rightarrow> outcome option list \<Rightarrow> nat list \<Rightarrow> outcome option list \<times> nat list" where
  "stop_slots index [] rdy = ([], rdy)"
| "stop_slots index (slot # rest) rdy =
     (case slot of
        Some out \<Rightarrow> (case stop_slots (Suc index) rest rdy of (ss, r) \<Rightarrow> (Some out # ss, r))
      | None \<Rightarrow> (case stop_slots (Suc index) rest (rdy @ [index]) of
                  (ss, r) \<Rightarrow> (Some (Inl Backend_stopped) # ss, r)))"

definition Filler_drop :: "Batch \<Rightarrow> Batch" where
  "Filler_drop b =
     (let b = b\<lparr>fillers := fillers b - 1\<rparr> in
      if 0 < fillers b \<or> outstanding b = 0 then b
      else (case stop_slots 0 (slots b) (ready b) of
              (ss, r) \<Rightarrow> b\<lparr>slots := ss, ready := r, outstanding := 0\<rparr>))"

fun finish_all :: "nat \<Rightarrow> outcome list \<Rightarrow> Batch \<Rightarrow> Batch option" where
  "finish_all index [] b = Some b"
| "finish_all index (out # outs) b = Option.bind (Filler_finish index out b) (finish_all (Suc index) outs)"

definition Completion_ready :: "outcome list \<Rightarrow> Completion option" where
  "Completion_ready responses =
     (let c = Completion_pending (length responses) in
      map_option (\<lambda>b. c\<lparr>cp_batch := Filler_drop b\<rparr>) (finish_all 0 responses (cp_batch c)))"

definition Completion_len :: "Completion \<Rightarrow> nat" where
  "Completion_len c = length (slots (cp_batch c))"

definition Completion_is_empty :: "Completion \<Rightarrow> bool" where
  "Completion_is_empty c \<longleftrightarrow> Completion_len c = 0"

definition ready_count :: "Completion \<Rightarrow> nat" where
  "ready_count c = length (ready (cp_batch c))"

definition is_done :: "Completion \<Rightarrow> bool" where
  "is_done c \<longleftrightarrow> outstanding (cp_batch c) = 0"

text \<open>
  One look of \<open>take\<close>: the answer it returns, or \<open>Blocks\<close> where the thread waits to be woken. The slot
  of an index that is ready is out of range only where the code panics, \<open>None\<close>.
\<close>

datatype 'a looked = Returns 'a | Blocks

definition Completion_take :: "Completion \<Rightarrow> (outcome option looked \<times> Completion) option" where
  "Completion_take c =
     (let b = cp_batch c in
      case ready b of
        index # rest \<Rightarrow>
          if length (slots b) \<le> index then None
          else Some (Returns (slots b ! index),
                     \<lparr>cp_batch = b\<lparr>ready := rest, slots := (slots b)[index := None]\<rparr>,
                      cp_taken = cp_taken c + 1\<rparr>)
      | [] \<Rightarrow> Some (if outstanding b = 0 then Returns None else Blocks, c))"

fun collect :: "outcome option list \<Rightarrow> Response list \<Rightarrow> submit_error option \<Rightarrow> submit_error + Response list" where
  "collect [] out failure = (case failure of Some e \<Rightarrow> Inl e | None \<Rightarrow> Inr out)"
| "collect (Some (Inr response) # rest) out failure = collect rest (out @ [response]) failure"
| "collect (Some (Inl e) # rest) out failure =
     collect rest out (case failure of None \<Rightarrow> Some e | Some f \<Rightarrow> Some f)"
| "collect (None # rest) out failure = collect rest out failure"

definition Completion_wait :: "Completion \<Rightarrow> (submit_error + Response list) looked" where
  "Completion_wait c =
     (if 0 < outstanding (cp_batch c) then Blocks else Returns (collect (slots (cp_batch c)) [] None))"

section \<open>A batch on the simulated filesystem\<close>

fun submit_reads :: "SimHandle \<Rightarrow> nat \<Rightarrow> Request list \<Rightarrow> Inner \<Rightarrow> (nat \<times> outcome) list \<times> Inner" where
  "submit_reads h index [] fs = ([], fs)"
| "submit_reads h index (r # rs) fs =
     (case read_at h (rq_offset r) (length (rq_buf r)) fs of (result, fs) \<Rightarrow>
        (let out = (case result of
                      Inl e \<Rightarrow> Inl (Read_failed e)
                    | Inr bs \<Rightarrow> Inr (Response_new index (rq_offset r) (length bs) (copy_at (rq_buf r) 0 bs)))
         in case submit_reads h (Suc index) rs fs of (outs, fs) \<Rightarrow> ((index, out) # outs, fs)))"

fun finish_each :: "(nat \<times> outcome) list \<Rightarrow> Batch \<Rightarrow> Batch option" where
  "finish_each [] b = Some b"
| "finish_each ((index, out) # rest) b = Option.bind (Filler_finish index out b) (finish_each rest)"

definition file_submit :: "SimHandle \<Rightarrow> Request list \<Rightarrow> Inner \<Rightarrow> Completion option \<times> Inner" where
  "file_submit h requests fs =
     (let c = Completion_pending (length requests) in
      case submit_reads h 0 requests fs of (outs, fs) \<Rightarrow>
        (let outs = reorder outs (rf_order (i_reads fs))
         in (map_option (\<lambda>b. c\<lparr>cp_batch := Filler_drop b\<rparr>) (finish_each outs (cp_batch c)), fs)))"

section \<open>Every way a batch can go\<close>

text \<open>
  A backend clones and drops its handles and finishes reads through them, which it can only while it
  has one; the caller takes, which does nothing while it blocks. A step gives what \<open>take\<close> handed out.
\<close>

datatype event = Clone | Finish nat outcome | Drop | Take

fun batch_step :: "event \<Rightarrow> Completion \<Rightarrow> (Completion \<times> outcome list) option" where
  "batch_step Clone c =
     (if fillers (cp_batch c) = 0 then None else Some (c\<lparr>cp_batch := Filler_clone (cp_batch c)\<rparr>, []))"
| "batch_step (Finish index out) c =
     (if fillers (cp_batch c) = 0 then None
      else map_option (\<lambda>b. (c\<lparr>cp_batch := b\<rparr>, [])) (Filler_finish index out (cp_batch c)))"
| "batch_step Drop c =
     (if fillers (cp_batch c) = 0 then None else Some (c\<lparr>cp_batch := Filler_drop (cp_batch c)\<rparr>, []))"
| "batch_step Take c =
     (case Completion_take c of
        None \<Rightarrow> None
      | Some (Returns (Some out), c') \<Rightarrow> Some (c', [out])
      | Some (Returns None, c') \<Rightarrow> Some (c', [])
      | Some (Blocks, c') \<Rightarrow> Some (c', []))"

inductive batch_run :: "nat \<Rightarrow> event list \<Rightarrow> Completion \<Rightarrow> outcome list \<Rightarrow> bool" for n where
  start: "batch_run n [] (Completion_pending n) []"
| step: "batch_run n evs c handed \<Longrightarrow> batch_step e c = Some (c', hs) \<Longrightarrow> batch_run n (evs @ [e]) c' (handed @ hs)"

text \<open>The run a list of events gives, to evaluate one.\<close>

fun run_batch :: "event list \<Rightarrow> Completion \<times> outcome list \<Rightarrow> (Completion \<times> outcome list) option" where
  "run_batch [] r = Some r"
| "run_batch (e # evs) (c, handed) =
     (case batch_step e c of None \<Rightarrow> None | Some (c, hs) \<Rightarrow> run_batch evs (c, handed @ hs))"

lemma run_batch_from:
  "batch_run n evs c handed \<Longrightarrow> run_batch evs' (c, handed) = Some (c', handed') \<Longrightarrow>
     batch_run n (evs @ evs') c' handed'"
proof (induction evs' "(c, handed)" arbitrary: evs c handed rule: run_batch.induct)
  case (2 e evs' c handed)
  obtain c1 hs where one: "batch_step e c = Some (c1, hs)" using 2 by (auto split: option.splits)
  have "batch_run n (evs @ [e]) c1 (handed @ hs)" by (rule batch_run.step) (use 2 one in auto)
  from 2(1) [OF one refl this] show ?case using 2 one by simp
qed simp

lemma run_batch: "run_batch evs (Completion_pending n, []) = Some (c, handed) \<Longrightarrow> batch_run n evs c handed"
  using run_batch_from [OF batch_run.start] by simp

fun finishes :: "event list \<Rightarrow> (nat \<times> outcome) list" where
  "finishes [] = []"
| "finishes (Finish index out # evs) = (index, out) # finishes evs"
| "finishes (_ # evs) = finishes evs"

lemma finishes_append [simp]: "finishes (evs @ evs') = finishes evs @ finishes evs'"
  by (induction evs rule: finishes.induct) simp_all

definition answer :: "event list \<Rightarrow> nat \<Rightarrow> outcome" where
  "answer evs i = (case map_of (finishes evs) i of Some out \<Rightarrow> out | None \<Rightarrow> Inl Backend_stopped)"

subsection \<open>Nobody waits on a backend that is gone\<close>

lemma stop_slots_eq:
  "stop_slots k ss r =
     (map (\<lambda>s. case s of None \<Rightarrow> Some (Inl Backend_stopped) | Some out \<Rightarrow> Some out) ss,
      r @ filter (\<lambda>i. ss ! (i - k) = None) [k..<k + length ss])"
proof (induction k ss r rule: stop_slots.induct)
  case (2 k s ss r)
  have "filter (\<lambda>i. (s # ss) ! (i - k) = None) [Suc k..<k + length (s # ss)]
      = filter (\<lambda>i. ss ! (i - Suc k) = None) [Suc k..<Suc k + length ss]"
    by (rule filter_cong) (auto simp: Suc_diff_le nth_Cons')
  moreover have "[k..<k + length (s # ss)] = k # [Suc k..<k + length (s # ss)]"
    by (simp add: upt_conv_Cons del: upt_Suc)
  ultimately show ?case using 2 by (cases s) (simp_all del: upt_Suc)
qed simp

definition batch_live :: "nat \<Rightarrow> Batch \<Rightarrow> bool" where
  "batch_live n b \<longleftrightarrow>
     length (slots b) = n \<and> (\<forall>i \<in> set (ready b). i < n) \<and> (fillers b = 0 \<longrightarrow> outstanding b = 0)"

lemma batch_live_finish: "batch_live n b \<Longrightarrow> fillers b \<noteq> 0 \<Longrightarrow> Filler_finish i out b = Some b' \<Longrightarrow> batch_live n b'"
  by (auto simp: batch_live_def Filler_finish_def split: if_splits)

lemma batch_live_drop: "batch_live n b \<Longrightarrow> fillers b \<noteq> 0 \<Longrightarrow> batch_live n (Filler_drop b)"
  by (auto simp: batch_live_def Filler_drop_def Let_def stop_slots_eq)

lemma batch_live_step:
  assumes "batch_live n (cp_batch c)" and "batch_step e c = Some (c', hs)"
  shows "batch_live n (cp_batch c')"
proof (cases e)
  case Take
  then show ?thesis
    using assms by (auto simp: batch_live_def Completion_take_def Let_def
        split: list.splits if_splits looked.splits option.splits)
next
  case Clone
  then show ?thesis
    using assms by (auto simp: batch_live_def Filler_clone_def split: if_splits)
qed (use assms in \<open>auto split: if_splits intro: batch_live_finish batch_live_drop\<close>)

lemma batch_run_live: "batch_run n evs c handed \<Longrightarrow> batch_live n (cp_batch c)"
proof (induction rule: batch_run.induct)
  case start
  then show ?case by (simp add: batch_live_def Completion_pending_def)
qed (rule batch_live_step)

text \<open>
  C26. No caller waits on a backend that is gone. However a batch went, once the backend has dropped its
  last handle neither \<open>take\<close> nor \<open>wait\<close> blocks.
\<close>

theorem no_wait_without_backend:
  assumes "batch_run n evs c handed" and "fillers (cp_batch c) = 0"
  shows "(\<exists>answer c'. Completion_take c = Some (Returns answer, c')) \<and> (\<exists>result. Completion_wait c = Returns result)"
proof -
  have "batch_live n (cp_batch c)" using assms(1) by (rule batch_run_live)
  then show ?thesis
    using assms(2) by (cases "ready (cp_batch c)") (simp_all add: batch_live_def Completion_take_def Completion_wait_def Let_def)
qed

lemma no_wait_without_backend_witness:
  "(\<exists>answer c'. Completion_take (fst (the (batch_step Drop (Completion_pending 2)))) = Some (Returns answer, c'))
    \<and> (\<exists>result. Completion_wait (fst (the (batch_step Drop (Completion_pending 2)))) = Returns result)"
proof (rule no_wait_without_backend)
  show "batch_run 2 ([] @ [Drop]) (fst (the (batch_step Drop (Completion_pending 2)))) ([] @ [])"
    by (rule batch_run.step [OF batch_run.start]) (simp add: Completion_pending_def)
  show "fillers (cp_batch (fst (the (batch_step Drop (Completion_pending 2))))) = 0"
    by (simp add: Completion_pending_def Filler_drop_def stop_slots_eq)
qed

subsection \<open>Waiting for a whole batch\<close>

definition empty_slots :: "Batch \<Rightarrow> nat set" where
  "empty_slots b = {i. i < length (slots b) \<and> slots b ! i = None}"

definition batch_plain :: "nat \<Rightarrow> event list \<Rightarrow> Batch \<Rightarrow> bool" where
  "batch_plain n evs b \<longleftrightarrow>
     (if fillers b = 0 then slots b = map (\<lambda>i. Some (answer evs i)) [0..<n] \<and> outstanding b = 0
      else slots b = map (map_of (finishes evs)) [0..<n] \<and> outstanding b = card (empty_slots b))"

lemma finite_empty_slots [simp]: "finite (empty_slots b)"
  by (simp add: empty_slots_def)

lemma batch_plain_finish:
  assumes b: "batch_plain n evs b" "fillers b \<noteq> 0" and fin: "Filler_finish i out b = Some b'"
  shows "batch_plain n (evs @ [Finish i out]) b'"
proof -
  have slots: "slots b = map (map_of (finishes evs)) [0..<n]" "outstanding b = card (empty_slots b)"
    using b by (simp_all add: batch_plain_def)
  let ?add = "map (map_of (finishes (evs @ [Finish i out]))) [0..<n]"
  show ?thesis
  proof (cases "i < n \<and> map_of (finishes evs) i = None")
    case True
    then have b': "slots b' = (slots b)[i := Some out]" "fillers b' = fillers b" "outstanding b' = outstanding b - 1"
      using fin slots by (auto simp: Filler_finish_def split: if_splits)
    have "slots b' = ?add"
      using True by (intro nth_equalityI) (auto simp: b' slots nth_list_update map_add_def split: option.splits)
    moreover have "empty_slots b' = empty_slots b - {i}" "i \<in> empty_slots b"
      using True by (auto simp: empty_slots_def b' slots nth_list_update)
    ultimately show ?thesis using b b' slots by (simp add: batch_plain_def)
  next
    case False
    then have "b' = b" using fin slots by (auto simp: Filler_finish_def split: if_splits)
    moreover have "?add = slots b" using False by (auto simp: slots map_add_def split: option.splits)
    ultimately show ?thesis using b slots by (simp add: batch_plain_def)
  qed
qed

lemma Filler_finish_plain:
  assumes "batch_plain n evs b" and "fillers b \<noteq> 0"
  shows "Filler_finish i out b \<noteq> None"
proof -
  have "empty_slots b = {}" if "outstanding b = 0" using assms that by (simp add: batch_plain_def)
  then have "length (slots b) \<le> i \<or> slots b ! i \<noteq> None" if "outstanding b = 0"
    using that unfolding empty_slots_def by force
  then show ?thesis by (auto simp: Filler_finish_def)
qed

lemma batch_plain_drop:
  assumes b: "batch_plain n evs b" "fillers b \<noteq> 0"
  shows "batch_plain n (evs @ [Drop]) (Filler_drop b)"
proof -
  have slots: "slots b = map (map_of (finishes evs)) [0..<n]" "outstanding b = card (empty_slots b)"
    using b by (simp_all add: batch_plain_def)
  have some: "map_of (finishes evs) i = Some (answer evs i)" if "outstanding b = 0" "i < n" for i
    using that slots by (auto simp: empty_slots_def answer_def split: option.splits)
  have ans: "answer (evs @ [Drop]) = answer evs" by (simp add: answer_def fun_eq_iff)
  show ?thesis
    using b some slots
    by (auto simp: batch_plain_def Filler_drop_def Let_def stop_slots_eq ans answer_def empty_slots_def
        split: option.splits)
qed

lemma batch_run_plain:
  "batch_run n evs c handed \<Longrightarrow> Take \<notin> set evs \<Longrightarrow> batch_plain n evs (cp_batch c)"
proof (induction rule: batch_run.induct)
  case start
  have "empty_slots (cp_batch (Completion_pending n)) = {..<n}"
    by (auto simp: empty_slots_def Completion_pending_def)
  then show ?case by (simp add: batch_plain_def Completion_pending_def map_replicate_const)
next
  case (step evs c handed e c' hs)
  then have c: "batch_plain n evs (cp_batch c)" by simp
  show ?case
  proof (cases e)
    case Clone
    then show ?thesis
      using step c by (auto simp: batch_plain_def Filler_clone_def empty_slots_def split: if_splits)
  qed (use step c in \<open>auto split: if_splits intro: batch_plain_finish batch_plain_drop\<close>)
qed

text \<open>All the answers in order, or the first error by position.\<close>

fun all_or_first_error :: "('e + 'a) list \<Rightarrow> 'e + 'a list" where
  "all_or_first_error [] = Inr []"
| "all_or_first_error (Inl e # outs) = Inl e"
| "all_or_first_error (Inr x # outs) =
     (case all_or_first_error outs of Inl e \<Rightarrow> Inl e | Inr xs \<Rightarrow> Inr (x # xs))"

lemma collect_failed: "collect (map Some outs) rs (Some e) = Inl e"
proof (induction outs arbitrary: rs)
  case (Cons out outs)
  then show ?case by (cases out) simp_all
qed simp

lemma collect_eq:
  "collect (map Some outs) rs None =
     (case all_or_first_error outs of Inl e \<Rightarrow> Inl e | Inr ys \<Rightarrow> Inr (rs @ ys))"
  by (induction outs arbitrary: rs rule: all_or_first_error.induct)
    (simp_all add: collect_failed split: sum.splits)

lemma wait_plain:
  assumes "batch_plain n evs (cp_batch c)" and "fillers (cp_batch c) = 0"
  shows "Completion_wait c = Returns (all_or_first_error (map (answer evs) [0..<n]))"
proof -
  have "slots (cp_batch c) = map Some (map (answer evs) [0..<n])"
    using assms by (simp add: batch_plain_def)
  then show ?thesis
    using assms collect_eq [of "map (answer evs) [0..<n]" "[]"]
    by (simp add: Completion_wait_def batch_plain_def del: map_map split: sum.splits)
qed


text \<open>A backend that answers the second of two reads, then the first, and goes.\<close>

definition example_answers :: "nat \<Rightarrow> outcome" where
  "example_answers i = Inr (Response_new i 0 1 [7])"

definition example_events :: "event list" where
  "example_events = [Finish 1 (example_answers 1), Finish 0 (example_answers 0), Drop]"

lemmas batch_eval =
  example_events_def Completion_pending_def Filler_finish_def Filler_drop_def Completion_take_def
  numeral_2_eq_2


subsection \<open>Taking answers as they come\<close>

definition batch_taking :: "nat \<Rightarrow> event list \<Rightarrow> Batch \<Rightarrow> outcome list \<Rightarrow> bool" where
  "batch_taking n evs b handed \<longleftrightarrow>
     length (slots b) = n
     \<and> (let fin = filter (\<lambda>(i, out). i < n) (finishes evs) in
        handed @ map (\<lambda>i. the (slots b ! i)) (ready b) = map snd fin
        \<and> outstanding b = n - length fin)
     \<and> distinct (ready b) \<and> (\<forall>i \<in> set (ready b). i < n \<and> slots b ! i \<noteq> None)
     \<and> (\<forall>i < n. i \<notin> fst ` set (finishes evs) \<longrightarrow> slots b ! i = None)"

lemma map_update_other: "i \<notin> set r \<Longrightarrow> map (\<lambda>j. f (xs[i := v] ! j)) r = map (\<lambda>j. f (xs ! j)) r"
  by (intro map_cong refl) (metis nth_list_update_neq)

lemma ball_update_other: "i \<notin> set r \<Longrightarrow> (\<forall>j \<in> set r. P j (xs[i := v] ! j)) = (\<forall>j \<in> set r. P j (xs ! j))"
  by (intro ball_cong refl) (metis nth_list_update_neq)

lemma batch_taking_finish:
  assumes "batch_taking n evs b handed" and "i \<notin> fst ` set (finishes evs)"
    and "Filler_finish i out b = Some b'"
  shows "batch_taking n (evs @ [Finish i out]) b' handed"
proof (cases "i < n")
  case True
  then have b': "b' = b\<lparr>slots := (slots b)[i := Some out], ready := ready b @ [i], outstanding := outstanding b - 1\<rparr>"
    using assms by (auto simp: batch_taking_def Filler_finish_def split: if_splits)
  have fresh: "i \<notin> set (ready b)" using assms True by (auto simp: batch_taking_def)
  then show ?thesis
    using assms(1) True
    by (simp add: batch_taking_def b' Let_def map_update_other
        ball_update_other [where P = "\<lambda>j x. \<exists>y. x = Some y"])
next
  case False
  then have "b' = b" using assms by (auto simp: batch_taking_def Filler_finish_def split: if_splits)
  then show ?thesis using assms(1) False by (auto simp: batch_taking_def Let_def)
qed

lemma batch_taking_take:
  assumes "batch_taking n evs (cp_batch c) handed" and "batch_step Take c = Some (c', hs)"
  shows "batch_taking n (evs @ [Take]) (cp_batch c') (handed @ hs)"
proof (cases "ready (cp_batch c)")
  case Nil
  then show ?thesis
    using assms by (auto simp: batch_taking_def Completion_take_def Let_def split: if_splits)
next
  case (Cons i rest)
  then obtain out where out: "slots (cp_batch c) ! i = Some out" "i < n" "i \<notin> set rest"
    using assms(1) by (auto simp: batch_taking_def)
  then have c': "cp_batch c' = (cp_batch c)\<lparr>ready := rest, slots := (slots (cp_batch c))[i := None]\<rparr>" "hs = [out]"
    using assms Cons by (auto simp: batch_taking_def Completion_take_def Let_def split: if_splits)
  show ?thesis
    using assms(1) Cons out
    by (simp add: batch_taking_def c' Let_def map_update_other
        ball_update_other [where P = "\<lambda>j x. \<exists>y. x = Some y"])
      (auto simp: nth_list_update)
qed

lemma batch_run_taking:
  "batch_run n evs c handed \<Longrightarrow> fillers (cp_batch c) \<noteq> 0 \<Longrightarrow> distinct (map fst (finishes evs)) \<Longrightarrow>
     batch_taking n evs (cp_batch c) handed"
proof (induction rule: batch_run.induct)
  case start
  then show ?case by (simp add: batch_taking_def Completion_pending_def)
next
  case (step evs c handed e c' hs)
  have "fillers (cp_batch c) \<noteq> 0"
  proof (cases e)
    case Take
    then show ?thesis
      using step by (auto simp: Completion_take_def Let_def split: list.splits if_splits option.splits looked.splits)
  qed (use step in \<open>auto split: if_splits\<close>)
  then have c: "batch_taking n evs (cp_batch c) handed" using step by (cases e) simp_all
  show ?case
  proof (cases e)
    case Take
    then show ?thesis using batch_taking_take c step by blast
  next
    case (Finish i out)
    then show ?thesis
      using step c by (auto split: if_splits intro!: batch_taking_finish)
  next
    case Clone
    then show ?thesis using step c by (auto simp: batch_taking_def Filler_clone_def split: if_splits)
  next
    case Drop
    then have "0 < fillers (Filler_drop (cp_batch c))" "c' = c\<lparr>cp_batch := Filler_drop (cp_batch c)\<rparr>" "hs = []"
      using step by (auto split: if_splits)
    moreover from this have "Filler_drop (cp_batch c) = (cp_batch c)\<lparr>fillers := fillers (cp_batch c) - 1\<rparr>"
      by (auto simp: Filler_drop_def Let_def stop_slots_eq split: if_splits)
    ultimately show ?thesis using c Drop by (simp add: batch_taking_def Let_def)
  qed
qed



subsection \<open>Where taking goes wrong\<close>

text \<open>
  A slot that was taken is empty again, and neither \<open>drop\<close> nor \<open>finish\<close> tells it from one that was
  never filled. When the backend stops after a read was taken, that read is handed out again, as an
  error. When it finishes a taken read again, the batch counts as done with another read unanswered.
\<close>


lemma finished_twice_after_take:
  "\<exists>c. run_batch [Finish 0 (example_answers 0), Take, Finish 0 (example_answers 0), Take] (Completion_pending 2, [])
      = Some (c, [example_answers 0, example_answers 0])
    \<and> fillers (cp_batch c) = 1 \<and> Completion_take c = Some (Returns None, c)"
  by (simp add: batch_eval)

section \<open>A batch on the simulated filesystem, in any order\<close>

lemma submit_reads_indices: "map fst (fst (submit_reads h k rs fs)) = [k..<k + length rs]"
  by (induction rs arbitrary: k fs) (simp_all add: Let_def upt_conv_Cons case_prod_beta del: upt_Suc)

lemma finish_each_plain:
  "batch_plain n evs b \<Longrightarrow> fillers b \<noteq> 0 \<Longrightarrow>
     \<exists>b'. finish_each outs b = Some b' \<and> fillers b' = fillers b
        \<and> batch_plain n (evs @ map (\<lambda>(i, out). Finish i out) outs) b'"
proof (induction outs arbitrary: evs b)
  case (Cons io outs)
  obtain i out where io: "io = (i, out)" by (cases io)
  have "Filler_finish i out b \<noteq> None" using Cons.prems by (rule Filler_finish_plain)
  then obtain b1 where b1: "Filler_finish i out b = Some b1" by blast
  have "fillers b1 = fillers b" using b1 by (auto simp: Filler_finish_def split: if_splits)
  then show ?case
    using Cons.IH [OF batch_plain_finish [OF Cons.prems b1]] Cons.prems b1 io by simp
qed simp

lemma batch_plain_pending: "batch_plain n [] (cp_batch (Completion_pending n))"
  using batch_run_plain [OF batch_run.start] by simp

lemma finishes_map_Finish: "finishes (map (\<lambda>(i, out). Finish i out) outs) = outs"
  by (induction outs) auto

lemma answer_of_mset:
  assumes fin: "mset (finishes evs) = mset (map (\<lambda>i. (i, f i)) [0..<n])" and "i < n"
  shows "answer evs i = f i"
proof -
  have "mset (map fst (finishes evs)) = image_mset fst (mset (map (\<lambda>i. (i, f i)) [0..<n]))"
    using fin by (simp only: mset_map)
  also have "\<dots> = mset (map fst (map (\<lambda>i. (i, f i)) [0..<n]))" by (simp only: mset_map)
  also have "\<dots> = mset [0..<n]" by (simp only: map_map comp_def fst_conv list.map_ident)
  finally have "mset (map fst (finishes evs)) = mset [0..<n]" .
  then have "distinct (map fst (finishes evs))" by (metis distinct_upt mset_eq_imp_distinct_iff)
  moreover have "(i, f i) \<in> set (finishes evs)" using mset_eq_setD [OF fin] \<open>i < n\<close> by auto
  ultimately show ?thesis by (simp add: answer_def map_of_is_SomeI)
qed

text \<open>
  C28. Reading a batch on the simulated filesystem is reading its requests one after the other: whatever
  order the reads are reported in, waiting gives the answers in the order of the requests, or the
  first error among them, and the filesystem is left as those reads leave it.
\<close>

theorem submit_any_order:
  assumes "length requests < 2 ^ 64" and "submit_reads h 0 requests fs = (outs, fs')"
  shows "\<exists>c. file_submit h requests fs = (Some c, fs')
    \<and> Completion_wait c = Returns (all_or_first_error (map snd outs))"
proof -
  let ?n = "length requests" and ?outs = "reorder outs (rf_order (i_reads fs'))"
  let ?evs = "map (\<lambda>(i, out). Finish i out) ?outs @ [Drop]"
  have idx: "map fst outs = [0..<?n]" using submit_reads_indices [of h 0 requests fs] assms by simp
  then have len: "length outs = ?n" by (metis length_map length_upt minus_nat.diff_0)
  have "outs = map (\<lambda>i. (i, snd (outs ! i))) [0..<?n]"
    using len idx by (intro nth_equalityI) (auto, metis add_0 fst_conv length_map nth_map nth_upt prod.collapse)
  then have "mset (finishes ?evs) = mset (map (\<lambda>i. (i, snd (outs ! i))) [0..<?n])"
    using mset_reorder [of outs] assms(1) len by (simp add: finishes_map_Finish)
  from answer_of_mset [OF this] have "map (answer ?evs) [0..<?n] = map snd outs"
    using len by (intro nth_equalityI) simp_all
  moreover obtain b where b: "finish_each ?outs (cp_batch (Completion_pending ?n)) = Some b"
      "fillers b = 1" "batch_plain ?n (map (\<lambda>(i, out). Finish i out) ?outs) b"
    using finish_each_plain [OF batch_plain_pending, of ?n ?outs] by (auto simp: Completion_pending_def)
  moreover have "batch_plain ?n ?evs (Filler_drop b)" using b by (intro batch_plain_drop) simp_all
  moreover have "fillers (Filler_drop b) = 0" using b by (simp add: Filler_drop_def Let_def stop_slots_eq)
  ultimately show ?thesis
    using assms(2) wait_plain [of ?n ?evs "(Completion_pending ?n)\<lparr>cp_batch := Filler_drop b\<rparr>"]
    by (simp add: file_submit_def Let_def)
qed

lemma submit_any_order_witness:
  "\<exists>outs fs' c. submit_reads \<lparr>h_path = [], h_inode = 0, h_writable = False\<rparr> 0 [Request_new 4 2] SimFilesystem_new = (outs, fs')
    \<and> file_submit \<lparr>h_path = [], h_inode = 0, h_writable = False\<rparr> [Request_new 4 2] SimFilesystem_new = (Some c, fs')
    \<and> Completion_wait c = Returns (all_or_first_error (map snd outs))"
proof -
  obtain outs fs' where
    outs: "submit_reads \<lparr>h_path = [], h_inode = 0, h_writable = False\<rparr> 0 [Request_new 4 2] SimFilesystem_new = (outs, fs')"
    by fastforce
  have "length [Request_new 4 2] < 2 ^ 64" by simp
  from submit_any_order [OF this outs] outs show ?thesis by blast
qed

end
