(* ===== verification/Bloom.thy ===== *)
theory Bloom
  imports LogFormat
begin

text \<open>
  The bloom filter of an index run and the hash of its keys: \<open>rudb-index/src/bloom.rs\<close>. A key that was
  added is always found, whatever was added before and after it.
\<close>

section \<open>Definitions\<close>

definition BITS_PER_KEY :: nat where
  "BITS_PER_KEY = 10"

definition PROBES :: nat where
  "PROBES = 7"

record Bloom =
  bl_words :: "u64 list"

definition div_ceil :: "nat \<Rightarrow> nat \<Rightarrow> nat" where
  "div_ceil a b = (a + b - 1) div b"

definition Bloom_sized :: "nat \<Rightarrow> Bloom" where
  "Bloom_sized keys = \<lparr>bl_words = replicate (div_ceil (max keys 1 * BITS_PER_KEY) 64) 0\<rparr>"

definition Bloom_from_words :: "u64 list \<Rightarrow> Bloom option" where
  "Bloom_from_words ws = (if ws = [] then None else Some \<lparr>bl_words = ws\<rparr>)"

definition probes :: "u64 \<Rightarrow> u64 \<Rightarrow> u64 list" where
  "probes hash bits =
     (let low = hash AND 0xFFFFFFFF;
          high = drop_bit 32 hash OR 1
      in map (\<lambda>i. (low + of_nat i * high) mod bits) [0..<PROBES])"

definition Bloom_bits :: "Bloom \<Rightarrow> u64" where
  "Bloom_bits b = of_nat (length (bl_words b)) * 64"

definition add_bit :: "u64 list \<Rightarrow> u64 \<Rightarrow> u64 list" where
  "add_bit ws p = ws[unat (p div 64) := ws ! unat (p div 64) OR push_bit (unat (p mod 64)) 1]"

definition test_bit :: "u64 list \<Rightarrow> u64 \<Rightarrow> bool" where
  "test_bit ws p \<longleftrightarrow> ws ! unat (p div 64) AND push_bit (unat (p mod 64)) 1 \<noteq> 0"

definition Bloom_insert :: "u64 \<Rightarrow> Bloom \<Rightarrow> Bloom" where
  "Bloom_insert hash b = b\<lparr>bl_words := foldl add_bit (bl_words b) (probes hash (Bloom_bits b))\<rparr>"

definition Bloom_may_hold :: "u64 \<Rightarrow> Bloom \<Rightarrow> bool" where
  "Bloom_may_hold hash b \<longleftrightarrow> list_all (test_bit (bl_words b)) (probes hash (Bloom_bits b))"

definition K :: u64 where
  "K = 0x9E3779B97F4A7C15"

definition hash_word :: "u64 \<Rightarrow> bytes \<Rightarrow> u64" where
  "hash_word h word = word_rotl 29 ((h XOR le_word word) * K)"

definition key_hash :: "bytes \<Rightarrow> u64" where
  "key_hash key =
     (let h = of_nat (length key) * K;
          h = foldl hash_word h (chunks_exact 8 key);
          remainder = drop (8 * (length key div 8)) key;
          tail = copy_at (replicate 8 0) 0 remainder;
          h = (h XOR le_word tail) * K;
          h = h XOR drop_bit 33 h;
          h = h * 0xFF51AFD7ED558CCD;
          h = h XOR drop_bit 33 h;
          h = h * 0xC4CEB9FE1A85EC53
      in h XOR drop_bit 33 h)"

section \<open>What was added is found\<close>

definition Bloom_ok :: "Bloom \<Rightarrow> bool" where
  "Bloom_ok b \<longleftrightarrow> bl_words b \<noteq> [] \<and> length (bl_words b) < 2 ^ 58"

lemma length_add_bit [simp]: "length (add_bit ws b) = length ws"
  by (simp add: add_bit_def)

lemma length_foldl_add_bit [simp]: "length (foldl add_bit ws bs) = length ws"
  by (induction bs arbitrary: ws) simp_all

lemma test_bit_iff: "test_bit ws p \<longleftrightarrow> bit (ws ! unat (p div 64)) (unat (p mod 64))"
proof -
  have "unat (p mod 64) < 64" by (simp add: unat_mod_distrib)
  then show ?thesis
    unfolding test_bit_def bit_eq_iff [of _ "0 :: u64"] by (auto simp: bit_and_iff bit_exp_iff)
qed

lemma test_bit_keeps: "test_bit ws p \<Longrightarrow> test_bit (add_bit ws q) p"
  by (cases "unat (q div 64) < length ws")
    (auto simp: test_bit_iff add_bit_def nth_list_update bit_or_iff list_update_beyond)

lemma test_bit_added: "unat (p div 64) < length ws \<Longrightarrow> test_bit (add_bit ws p) p"
proof -
  have "unat (p mod 64) < 64" by (simp add: unat_mod_distrib)
  then show "unat (p div 64) < length ws \<Longrightarrow> ?thesis"
    by (simp add: test_bit_iff add_bit_def bit_or_iff bit_exp_iff)
qed

lemma foldl_add_bit_keeps: "test_bit ws p \<Longrightarrow> test_bit (foldl add_bit ws ps) p"
  by (induction ps arbitrary: ws) (simp_all add: test_bit_keeps)

lemma foldl_add_bit_added:
  "p \<in> set ps \<Longrightarrow> unat (p div 64) < length ws \<Longrightarrow> test_bit (foldl add_bit ws ps) p"
  by (induction ps arbitrary: ws) (auto simp: test_bit_added intro: foldl_add_bit_keeps)

lemma probes_in_range:
  assumes "Bloom_ok b" and "p \<in> set (probes hash (Bloom_bits b))"
  shows "unat (p div 64) < length (bl_words b)"
proof -
  let ?n = "length (bl_words b)"
  have "unat (Bloom_bits b) = ?n * 64"
    using assms(1) by (simp add: Bloom_bits_def Bloom_ok_def unat_word_ariths unat_of_nat)
  moreover have "0 < ?n" using assms(1) by (simp add: Bloom_ok_def)
  moreover obtain q where "p = q mod Bloom_bits b" using assms(2) by (auto simp: probes_def Let_def)
  ultimately have "unat p < ?n * 64" by (simp add: unat_mod_distrib)
  then show ?thesis by (simp add: unat_div_distrib less_mult_imp_div_less)
qed

lemma Bloom_insert_facts:
  "Bloom_ok (Bloom_insert h b) \<longleftrightarrow> Bloom_ok b" "Bloom_bits (Bloom_insert h b) = Bloom_bits b"
  unfolding Bloom_ok_def Bloom_bits_def length_0_conv [symmetric] by (simp_all add: Bloom_insert_def)

lemma Bloom_insert_found: "Bloom_ok b \<Longrightarrow> Bloom_may_hold h (Bloom_insert h b)"
  by (auto simp: Bloom_may_hold_def Bloom_insert_facts list_all_iff)
    (simp add: Bloom_insert_def foldl_add_bit_added probes_in_range)

lemma Bloom_insert_keeps: "Bloom_may_hold h b \<Longrightarrow> Bloom_may_hold h (Bloom_insert h' b)"
  by (auto simp: Bloom_may_hold_def Bloom_insert_facts list_all_iff)
    (simp add: Bloom_insert_def foldl_add_bit_keeps)

lemma foldl_insert_keeps:
  "Bloom_may_hold h b \<Longrightarrow> Bloom_may_hold h (foldl (\<lambda>b k. Bloom_insert (key_hash k) b) b ks)"
  by (induction ks arbitrary: b) (simp_all add: Bloom_insert_keeps)

lemma foldl_insert_found:
  "Bloom_ok b \<Longrightarrow> k \<in> set ks \<Longrightarrow> Bloom_may_hold (key_hash k) (foldl (\<lambda>b k. Bloom_insert (key_hash k) b) b ks)"
  by (induction ks arbitrary: b)
    (auto simp: Bloom_insert_facts intro: foldl_insert_keeps Bloom_insert_found)

lemma Bloom_ok_sized:
  assumes "keys < 2 ^ 60"
  shows "Bloom_ok (Bloom_sized keys)"
proof -
  have "div_ceil (max keys 1 * BITS_PER_KEY) 64 < 2 ^ 58"
    using assms by (simp add: div_ceil_def BITS_PER_KEY_def max_def) linarith
  moreover have "0 < div_ceil (max keys 1 * BITS_PER_KEY) 64"
    unfolding div_ceil_def BITS_PER_KEY_def div_greater_zero_iff by (simp add: max_def)
  ultimately show ?thesis by (simp add: Bloom_ok_def Bloom_sized_def)
qed

text \<open>
  C30. The filter has no false negatives. A filter sized for any number of keys and given any keys, more
  or fewer than it was sized for, may hold each of them.
\<close>

theorem bloom_no_false_negative:
  assumes "keys < 2 ^ 60" and "k \<in> set ks"
  shows "Bloom_may_hold (key_hash k) (foldl (\<lambda>b k. Bloom_insert (key_hash k) b) (Bloom_sized keys) ks)"
  using foldl_insert_found [OF Bloom_ok_sized [OF assms(1)] assms(2)] .

lemma bloom_no_false_negative_witness:
  "Bloom_may_hold (key_hash [1, 2]) (foldl (\<lambda>b k. Bloom_insert (key_hash k) b) (Bloom_sized 1) [[9], [1, 2]])"
  by (rule bloom_no_false_negative) simp_all

end
