(* ===== verification/IndexKey.thy ===== *)
theory IndexKey
  imports Complex_Main Prelude "HOL-Library.List_Lexorder"
begin

text \<open>
  Normalized keys: \<open>rudb-index/src/key.rs\<close>, with \<open>key\<close> of \<open>rudb-common/src/numeric.rs\<close>. The bytes of a
  key order as the columns do: \<open>form_of\<close> is what a value is compared by, and the last section shows that the
  bytes of two keys of the same columns compare as their forms do, null first, column by column.

  A \<open>FLOAT\<close> and a \<open>DOUBLE\<close> are their IEEE bits. The types a list, a map or a union carries are left
  out of its value, which no key is written for.
\<close>

unbundle bit_operations_syntax

section \<open>Definitions\<close>

datatype (plugins only: code) Value =
    Null | Boolean bool
  | TinyInt u8 | SmallInt u16 | Integer u32 | BigInt u64 | HugeInt u128
  | UTinyInt u8 | USmallInt u16 | UInteger u32 | UBigInt u64 | UHugeInt u128
  | Float u32 | Double u64
  | Decimal u128 u8 u8
  | Varchar bytes | Blob bytes | Bit bytes | BigNum bytes | Numeric bytes | Variant bytes
  | Uuid u128 | Date u32 | Time u64 | TimeTz u64 | TimeNs u64
  | Timestamp u64 | TimestampTz u64 | TimestampS u64 | TimestampMs u64 | TimestampNs u64 | TimestampTzNs u64
  | Interval u32 u32 u64
  | ListValue "Value list" | Struct "(string \<times> Value) list" | MapValue "(Value \<times> Value) list" | UnionValue u8 Value

definition NULL :: u8 where
  "NULL = 0x00"

definition VALUE :: u8 where
  "VALUE = 0x01"

definition ESCAPED :: u8 where
  "ESCAPED = 0xFF"

definition numeric_key :: "bytes \<Rightarrow> bytes" where
  "numeric_key bs = take (length bs - 2) bs"

text \<open>The IEEE tests \<open>float\<close> makes of its argument, on the bits.\<close>

definition is_nan :: "u64 \<Rightarrow> bool" where
  "is_nan v \<longleftrightarrow> 0x7FF0000000000000 < v AND 0x7FFFFFFFFFFFFFFF"

definition is_zero :: "u64 \<Rightarrow> bool" where
  "is_zero v \<longleftrightarrow> v AND 0x7FFFFFFFFFFFFFFF = 0"

definition NAN :: u64 where
  "NAN = 0x7FF8000000000000"

definition float_key :: "u64 \<Rightarrow> u64" where
  "float_key v =
     (let bits = (if is_nan v then NAN else if is_zero v then 0 else v)
      in if drop_bit 63 bits = 0 then bits OR push_bit 63 1 else NOT bits)"

text \<open>\<open>f64::from\<close> of a \<open>f32\<close>, on the bits: a subnormal number gets an exponent of its own.\<close>

fun top_bit :: "nat \<Rightarrow> nat \<Rightarrow> nat" where
  "top_bit 0 m = 0"
| "top_bit (Suc k) m = (if m div 2 ^ Suc k = 0 then top_bit k m else Suc k)"

definition widen :: "u32 \<Rightarrow> u64" where
  "widen v =
     (let sign = push_bit 63 (ucast (drop_bit 31 v)) :: u64;
          e = unat (drop_bit 23 v AND 0xFF);
          m = unat (v AND 0x7FFFFF)
      in if e = 255 then sign OR 0x7FF0000000000000 OR push_bit 29 (of_nat m)
         else if e \<noteq> 0 then sign OR push_bit 52 (of_nat (e + 896)) OR push_bit 29 (of_nat m)
         else if m = 0 then sign
         else (let k = top_bit 22 m
               in sign OR push_bit 52 (of_nat (k + 874)) OR push_bit (52 - k) (of_nat (m - 2 ^ k))))"

fun zero_at :: "bytes \<Rightarrow> nat option" where
  "zero_at [] = None"
| "zero_at (b # bs) = (if b = 0 then Some 0 else map_option Suc (zero_at bs))"

lemma zero_at_bound: "zero_at bs = Some z \<Longrightarrow> z < length bs"
  by (induction bs arbitrary: z) (auto split: if_splits)

function text_key :: "bytes \<Rightarrow> bytes \<Rightarrow> bytes" where
  "text_key rest out =
     (case zero_at rest of
        Some z \<Rightarrow> text_key (drop (Suc z) rest) (out @ take (Suc z) rest @ [ESCAPED])
      | None \<Rightarrow> out @ rest @ [0])"
  by auto
termination by (relation "measure (\<lambda>(rest, out). length rest)") (auto dest: zero_at_bound)

declare text_key.simps [simp del]

definition signed_key :: "u64 \<Rightarrow> bytes" where
  "signed_key v = be_bytes 8 (v XOR push_bit 63 1)"

definition wide_key :: "u128 \<Rightarrow> bytes" where
  "wide_key v = be_bytes 16 (v XOR push_bit 127 1)"

fun push :: "Value \<Rightarrow> bytes \<Rightarrow> bool \<times> bytes" where
  "push Null out = (True, out @ [NULL])"
| "push (Boolean v) out = (True, (out @ [VALUE]) @ [if v then 1 else 0])"
| "push (TinyInt v) out = (True, (out @ [VALUE]) @ signed_key (scast v))"
| "push (SmallInt v) out = (True, (out @ [VALUE]) @ signed_key (scast v))"
| "push (Integer v) out = (True, (out @ [VALUE]) @ signed_key (scast v))"
| "push (Date v) out = (True, (out @ [VALUE]) @ signed_key (scast v))"
| "push (BigInt v) out = (True, (out @ [VALUE]) @ signed_key v)"
| "push (Time v) out = (True, (out @ [VALUE]) @ signed_key v)"
| "push (TimeTz v) out = (True, (out @ [VALUE]) @ signed_key v)"
| "push (Timestamp v) out = (True, (out @ [VALUE]) @ signed_key v)"
| "push (TimestampTz v) out = (True, (out @ [VALUE]) @ signed_key v)"
| "push (TimestampS v) out = (True, (out @ [VALUE]) @ signed_key v)"
| "push (TimestampMs v) out = (True, (out @ [VALUE]) @ signed_key v)"
| "push (TimestampNs v) out = (True, (out @ [VALUE]) @ signed_key v)"
| "push (TimeNs v) out = (True, (out @ [VALUE]) @ signed_key v)"
| "push (TimestampTzNs v) out = (True, (out @ [VALUE]) @ signed_key v)"
| "push (UTinyInt v) out = (True, (out @ [VALUE]) @ be_bytes 8 (ucast v :: u64))"
| "push (USmallInt v) out = (True, (out @ [VALUE]) @ be_bytes 8 (ucast v :: u64))"
| "push (UInteger v) out = (True, (out @ [VALUE]) @ be_bytes 8 (ucast v :: u64))"
| "push (UBigInt v) out = (True, (out @ [VALUE]) @ be_bytes 8 v)"
| "push (HugeInt v) out = (True, (out @ [VALUE]) @ wide_key v)"
| "push (Uuid v) out = (True, (out @ [VALUE]) @ wide_key v)"
| "push (Decimal unscaled width scale) out = (True, (out @ [VALUE]) @ wide_key unscaled)"
| "push (UHugeInt v) out = (True, (out @ [VALUE]) @ be_bytes 16 v)"
| "push (Float v) out = (True, (out @ [VALUE]) @ be_bytes 8 (float_key (widen v)))"
| "push (Double v) out = (True, (out @ [VALUE]) @ be_bytes 8 (float_key v))"
| "push (Varchar v) out = (True, text_key v (out @ [VALUE]))"
| "push (Blob v) out = (True, text_key v (out @ [VALUE]))"
| "push (Bit v) out = (True, text_key v (out @ [VALUE]))"
| "push (BigNum v) out = (True, text_key v (out @ [VALUE]))"
| "push (Numeric v) out = (True, text_key (numeric_key v) (out @ [VALUE]))"
| "push _ out = (False, take (length out) (out @ [VALUE]))"

fun normalize :: "Value list \<Rightarrow> bytes \<Rightarrow> bool \<times> bytes" where
  "normalize [] out = (True, out)"
| "normalize (v # vs) out = (case push v out of (True, out) \<Rightarrow> normalize vs out | (False, out) \<Rightarrow> (False, out))"

section \<open>Big-endian bytes order as numbers\<close>

lemma be_bytes_Suc: "be_bytes (Suc k) w = ucast (drop_bit (8 * k) w) # be_bytes k w"
  by (simp add: be_bytes_def le_bytes_def)

lemma unat_byte:
  fixes w :: "'a::len word"
  shows "unat (ucast (drop_bit (8 * k) w) :: u8) = unat w div 2 ^ (8 * k) mod 256"
proof -
  have "unat (ucast (drop_bit (8 * k) w) :: u8) = take_bit 8 (drop_bit (8 * k) (unat w))"
    using take_bit_nat_eq_self [of "unat w" "LENGTH('a)"] unsigned_less [of w]
    by (simp add: unsigned_ucast_eq unsigned_drop_bit_eq)
  then show ?thesis by (simp add: take_bit_eq_mod drop_bit_eq_div)
qed

lemma lex_digit:
  fixes a b r s m :: nat
  assumes "r < m" and "s < m"
  shows "a * m + r < b * m + s \<longleftrightarrow> a < b \<or> (a = b \<and> r < s)"
proof (cases a b rule: linorder_cases)
  case less
  then have "(a + 1) * m \<le> b * m" by (intro mult_le_mono1) simp
  then show ?thesis using assms less by simp
next
  case greater
  then have "(b + 1) * m \<le> a * m" by (intro mult_le_mono1) simp
  then show ?thesis using assms greater by simp
qed (use assms in simp)

lemma be_bytes_less_mod:
  "be_bytes k v < be_bytes k w \<longleftrightarrow> unat v mod 2 ^ (8 * k) < unat w mod 2 ^ (8 * k)"
  and be_bytes_eq_mod: "be_bytes k v = be_bytes k w \<longleftrightarrow> unat v mod 2 ^ (8 * k) = unat w mod 2 ^ (8 * k)"
proof (induction k)
  case (Suc k)
  let ?m = "2 ^ (8 * k) :: nat"
  have split: "n mod 2 ^ (8 * Suc k) = n div ?m mod 256 * ?m + n mod ?m" for n :: nat
  proof -
    have "(2 :: nat) ^ (8 * Suc k) = ?m * 256" by (simp add: power_add)
    then show ?thesis using mod_mult2_eq [of n ?m 256] by (simp only: mult.commute)
  qed
  have digit: "(ucast (drop_bit (8 * k) v) :: u8) < ucast (drop_bit (8 * k) w)
      \<longleftrightarrow> unat v div ?m mod 256 < unat w div ?m mod 256"
    "(ucast (drop_bit (8 * k) v) :: u8) = ucast (drop_bit (8 * k) w)
      \<longleftrightarrow> unat v div ?m mod 256 = unat w div ?m mod 256"
    by (simp_all only: word_less_nat_alt word_unat_eq_iff unat_byte)
  have lex: "n div ?m mod 256 * ?m + n mod ?m < n' div ?m mod 256 * ?m + n' mod ?m \<longleftrightarrow>
      n div ?m mod 256 < n' div ?m mod 256 \<or> (n div ?m mod 256 = n' div ?m mod 256 \<and> n mod ?m < n' mod ?m)" for n n'
    by (rule lex_digit) simp_all
  { case 1
    show ?case unfolding be_bytes_Suc Cons_less_Cons digit split lex Suc .. }
  { case 2
    show ?case unfolding be_bytes_Suc list.inject digit split Suc
      using lex [of "unat v" "unat w"] lex [of "unat w" "unat v"] by (metis nat_neq_iff) }
qed (simp_all add: be_bytes_def le_bytes_def)

lemma be_bytes_order:
  fixes v w :: "'a::len word"
  assumes "LENGTH('a) = 8 * k"
  shows "be_bytes k v < be_bytes k w \<longleftrightarrow> v < w" and "be_bytes k v = be_bytes k w \<longleftrightarrow> v = w"
proof -
  have "unat u mod 2 ^ (8 * k) = unat u" for u :: "'a word"
  proof -
    have "unat u < 2 ^ LENGTH('a)" by (rule unsigned_less)
    then show ?thesis using assms by simp
  qed
  then show "be_bytes k v < be_bytes k w \<longleftrightarrow> v < w" and "be_bytes k v = be_bytes k w \<longleftrightarrow> v = w"
    by (simp_all add: be_bytes_less_mod be_bytes_eq_mod word_less_nat_alt word_unat_eq_iff)
qed

text \<open>Flipping the top bit is adding it, so the flipped bits order as the signed numbers do.\<close>

lemma and_exp_zero: "\<not> bit v n \<Longrightarrow> v AND 2 ^ n = (0 :: 'a::len word)"
  by (auto simp: bit_eq_iff [of _ "0 :: 'a word"] bit_and_iff bit_exp_iff)

lemma flip_top:
  fixes v :: "'a::len word"
  assumes n: "LENGTH('a) = Suc n"
  shows "v XOR push_bit n 1 = v + 2 ^ n"
proof -
  let ?t = "2 ^ n :: 'a word"
  show ?thesis
  proof (cases "bit v n")
    case False
    then have "v AND ?t = 0" by (rule and_exp_zero)
    then show ?thesis using disjunctive_add_eq_xor [of v ?t] by simp
  next
    case True
    define u where "u = v XOR ?t"
    have "\<not> bit u n" using True n by (simp add: u_def bit_xor_iff bit_exp_iff)
    then have "u AND ?t = 0" by (rule and_exp_zero)
    then have "u + ?t = u XOR ?t" by (rule disjunctive_add_eq_xor)
    also have "\<dots> = v" by (simp add: u_def xor.assoc)
    finally have "v = u + ?t" by simp
    then have "v + ?t = u + (?t + ?t)" by (simp only: add.assoc)
    also have "?t + ?t = 2 ^ Suc n" by simp
    also have "\<dots> = (0 :: 'a word)" using n by (metis word_exp_length_eq_0)
    finally show ?thesis by (simp add: u_def)
  qed
qed

lemma uint_flip_top:
  fixes v :: "'a::len word"
  assumes n: "LENGTH('a) = Suc n"
  shows "uint (v XOR push_bit n 1) = sint v + 2 ^ n"
proof -
  have "sint v = take_bit (Suc n) (uint v + 2 ^ n) - 2 ^ n"
    using n signed_take_bit_eq_take_bit_shift [of n "uint v"] by (simp add: sint_uint)
  moreover have "v + 2 ^ n = word_of_int (uint v + 2 ^ n)" by simp
  then have "uint (v + 2 ^ n) = take_bit (Suc n) (uint v + 2 ^ n)"
    using n by (simp only: uint_word_of_int_eq)
  ultimately show ?thesis using flip_top [OF n] by simp
qed

lemma signed_key_order:
  "signed_key v < signed_key w \<longleftrightarrow> sint v < sint w" "signed_key v = signed_key w \<longleftrightarrow> sint v = sint w"
  using uint_flip_top [of 63 v] uint_flip_top [of 63 w] be_bytes_order [where 'a = 64 and k = 8]
  by (simp_all add: signed_key_def word_less_def word_uint_eq_iff)

lemma wide_key_order:
  "wide_key v < wide_key w \<longleftrightarrow> sint v < sint w" "wide_key v = wide_key w \<longleftrightarrow> sint v = sint w"
  using uint_flip_top [of 127 v] uint_flip_top [of 127 w] be_bytes_order [where 'a = 128 and k = 16]
  by (simp_all add: wide_key_def word_less_def word_uint_eq_iff)

section \<open>Text\<close>

definition escape :: "bytes \<Rightarrow> bytes" where
  "escape bs = concat (map (\<lambda>b. if b = 0 then [0, ESCAPED] else [b]) bs)"

lemma escape_simps [simp]:
  "escape [] = []" "escape (b # bs) = (if b = 0 then 0 # ESCAPED # escape bs else b # escape bs)"
  by (simp_all add: escape_def)

lemma escape_append: "escape (as @ bs) = escape as @ escape bs"
  by (simp add: escape_def)

lemma escape_plain: "zero_at bs = None \<Longrightarrow> escape bs = bs"
  by (induction bs) (auto split: if_splits)

lemma zero_at_split:
  "zero_at bs = Some z \<Longrightarrow> escape (take (Suc z) bs) = take (Suc z) bs @ [ESCAPED]"
  by (induction bs arbitrary: z) (auto split: if_splits)

lemma text_key_eq: "text_key rest out = out @ escape rest @ [0]"
proof (induction rest out rule: text_key.induct)
  case (1 rest out)
  show ?case
  proof (cases "zero_at rest")
    case None
    then show ?thesis by (simp add: text_key.simps [of rest out] escape_plain)
  next
    case (Some z)
    have "escape rest = escape (take (Suc z) rest) @ escape (drop (Suc z) rest)"
      using escape_append [of "take (Suc z) rest" "drop (Suc z) rest"] by simp
    then show ?thesis
      using 1 [OF Some] Some by (simp add: text_key.simps [of rest out] zero_at_split)
  qed
qed

text \<open>What may follow a column: nothing, or another, which begins with \<open>NULL\<close> or \<open>VALUE\<close>.\<close>

definition tail_ok :: "bytes \<Rightarrow> bool" where
  "tail_ok x \<longleftrightarrow> x = [] \<or> hd x < ESCAPED"

lemma tail_less: "tail_ok x \<Longrightarrow> x < ESCAPED # y"
  by (cases x) (auto simp: tail_ok_def)

lemma tail_not_less: "tail_ok y \<Longrightarrow> \<not> ESCAPED # x < y"
  by (cases y) (auto simp: tail_ok_def)

lemma zero_less_word: "0 < (b :: u8) \<longleftrightarrow> b \<noteq> 0"
  by (simp add: word_neq_0_conv)

lemma escape_less:
  assumes "tail_ok x" and "tail_ok y"
  shows "escape a @ 0 # x < escape b @ 0 # y \<longleftrightarrow> a < b \<or> (a = b \<and> x < y)"
proof (induction a arbitrary: b)
  case Nil
  then show ?case using assms by (cases b) (auto simp: tail_less zero_less_word)
next
  case (Cons c a)
  then show ?case
    using assms by (cases b) (auto simp: tail_not_less zero_less_word)
qed

section \<open>Floating point\<close>

text \<open>
  The magnitude of a double, in units of the least one, from its bits without the sign. An infinity is
  where the next binade would begin, which is above every number.
\<close>

definition magnitude :: "nat \<Rightarrow> nat" where
  "magnitude n = (let e = n div 2 ^ 52; m = n mod 2 ^ 52 in if e = 0 then m else (2 ^ 52 + m) * 2 ^ (e - 1))"

definition double_value :: "u64 \<Rightarrow> real" where
  "double_value v =
     (let n = unat v mod 2 ^ 63 in (if drop_bit 63 v = 0 then 1 else - 1) * real (magnitude n) / 2 ^ 1074)"

lemma magnitude_at:
  "m < 2 ^ 52 \<Longrightarrow> magnitude (e * 2 ^ 52 + m) = (if e = 0 then m else (2 ^ 52 + m) * 2 ^ (e - 1))"
  by (simp add: magnitude_def Let_def)

lemma magnitude_Suc: "magnitude n < magnitude (Suc n)"
proof -
  define e m where "e = n div 2 ^ 52" and "m = n mod 2 ^ 52"
  have n: "n = e * 2 ^ 52 + m" "m < 2 ^ 52" by (simp_all add: e_def m_def)
  show ?thesis
  proof (cases "Suc m = 2 ^ 52")
    case False
    then have "magnitude (Suc n) = (if e = 0 then Suc m else (2 ^ 52 + Suc m) * 2 ^ (e - 1))"
      using n magnitude_at [of "Suc m" e] by simp
    then show ?thesis using magnitude_at [OF n(2), of e] n(1) by simp
  next
    case True
    then have "magnitude (Suc n) = 2 ^ 52 * 2 ^ e"
      using n magnitude_at [of 0 "Suc e"] by simp
    moreover have "(2 ^ 52 + m) * 2 ^ (e - 1) < 2 ^ 52 * 2 ^ e" if "e \<noteq> 0"
      using True that by (cases e) simp_all
    ultimately show ?thesis using magnitude_at [OF n(2), of e] n by simp
  qed
qed

lemma magnitude_less: "magnitude a < magnitude b \<longleftrightarrow> a < b"
  using strict_mono_less [OF strict_mono_Suc_iff [THEN iffD2]] magnitude_Suc by blast

definition float_rank :: "u64 \<Rightarrow> int" where
  "float_rank v =
     (if is_nan v then int (unat NAN)
      else if drop_bit 63 v = 0 then int (unat v mod 2 ^ 63) else - int (unat v mod 2 ^ 63))"

definition rank_value :: "int \<Rightarrow> real" where
  "rank_value r = (if r < 0 then - real (magnitude (nat (- r))) else real (magnitude (nat r))) / 2 ^ 1074"

lemma magnitude_0 [simp]: "magnitude 0 = 0"
  by (simp add: magnitude_def)

lemma rank_value_less: "rank_value r < rank_value s \<longleftrightarrow> r < s"
proof -
  have pos: "0 < magnitude k \<longleftrightarrow> 0 < k" for k using magnitude_less [of 0 k] by simp
  have "- real (magnitude (nat (- r))) < real (magnitude (nat s))" if "r < 0" "0 \<le> s"
    using pos [of "nat (- r)"] that by (simp add: add_pos_nonneg less_le_trans [of _ 0])
  then show ?thesis
    unfolding rank_value_def divide_less_cancel
    by (auto simp: magnitude_less nat_less_eq_zless not_less)
qed

lemma unat_low: "unat (v AND 0x7FFFFFFFFFFFFFFF :: u64) = unat v mod 2 ^ 63"
proof -
  have "v AND 0x7FFFFFFFFFFFFFFF = take_bit 63 v" by (simp add: take_bit_eq_mask mask_eq_exp_minus_1)
  then show ?thesis by (simp add: take_bit_eq_mod unat_mod_distrib)
qed

lemma is_nan_iff: "is_nan v \<longleftrightarrow> 0x7FF0000000000000 < unat v mod 2 ^ 63"
  using unat_low [of v] by (simp add: is_nan_def word_less_nat_alt)

lemma is_zero_iff: "is_zero v \<longleftrightarrow> unat v mod 2 ^ 63 = 0"
  using unat_low [of v] by (metis is_zero_def unat_eq_zero)

lemma sign_clear_iff: "drop_bit 63 (v :: u64) = 0 \<longleftrightarrow> unat v < 2 ^ 63"
proof -
  have "unat (drop_bit 63 v) = unat v div 2 ^ 63"
    using unat_byte [of 0 v] by (simp add: drop_bit_eq_div unat_div_distrib)
  then show ?thesis by (metis div_eq_0_iff power_not_zero unat_eq_zero zero_neq_numeral)
qed

lemma unat_set_top:
  assumes "unat (v :: u64) < 2 ^ 63"
  shows "unat (v OR push_bit 63 1) = unat v + 2 ^ 63"
proof -
  have "\<not> bit v 63" using assms sign_clear_iff [of v] by (simp only: bit_iff_odd_drop_bit) simp
  then have "v AND 2 ^ 63 = 0" by (rule and_exp_zero)
  then have "v OR push_bit 63 1 = v + 2 ^ 63" using disjunctive_add_eq_or [of v "2 ^ 63"] by simp
  then show ?thesis using assms by (simp add: unat_word_ariths)
qed

lemma unat_not_u64: "unat (NOT v :: u64) = 2 ^ 64 - 1 - unat v"
proof -
  have "NOT v = - 1 - v" unfolding not_eq_complement by (rule minus_diff_commute)
  then have "unat (NOT v) = unat (- 1 - v)" by (rule arg_cong)
  also have "\<dots> = unat (- 1 :: u64) - unat v" by (rule unat_sub) (rule word_order.extremum)
  finally show ?thesis by (simp add: unsigned_minus_1_eq_mask mask_eq_exp_minus_1)
qed

lemma unat_float_key: "int (unat (float_key v)) = 2 ^ 63 + float_rank v - (if float_rank v < 0 then 1 else 0)"
proof -
  define n where "n = unat v mod 2 ^ 63"
  have v: "unat v = (if drop_bit 63 v = 0 then n else n + 2 ^ 63)" "n < 2 ^ 63"
    using unsigned_less [of v, where 'a = nat] by (auto simp: sign_clear_iff n_def mod_if)
  consider "is_nan v" | "\<not> is_nan v" "is_zero v" | "\<not> is_nan v" "\<not> is_zero v" "drop_bit 63 v = 0"
    | "\<not> is_nan v" "\<not> is_zero v" "drop_bit 63 v \<noteq> 0" by blast
  then show ?thesis
  proof cases
    case 1
    then show ?thesis by (simp add: float_key_def float_rank_def NAN_def drop_bit_eq_div)
  next
    case 2
    then show ?thesis by (simp add: float_key_def float_rank_def is_zero_iff n_def [symmetric])
  next
    case 3
    then show ?thesis
      using v unat_set_top [of v] by (simp add: float_key_def float_rank_def n_def [symmetric])
  next
    case 4
    then have "n \<noteq> 0" by (simp add: is_zero_iff n_def)
    then show ?thesis
      using 4 v unat_not_u64 [of v] by (simp add: float_key_def float_rank_def n_def [symmetric])
  qed
qed

lemma float_key_order:
  "be_bytes 8 (float_key v) < be_bytes 8 (float_key w) \<longleftrightarrow> float_rank v < float_rank w"
  "be_bytes 8 (float_key v) = be_bytes 8 (float_key w) \<longleftrightarrow> float_rank v = float_rank w"
  using unat_float_key [of v] unat_float_key [of w] be_bytes_order [where 'a = 64 and k = 8]
  by (auto simp: word_less_def word_uint_eq_iff split: if_splits)

section \<open>What a value is compared by\<close>

datatype form = Missing | Num int | Real bool real | Text bytes

fun form_less :: "form \<Rightarrow> form \<Rightarrow> bool" where
  "form_less Missing Missing = False"
| "form_less Missing _ = True"
| "form_less (Num a) (Num b) = (a < b)"
| "form_less (Real nan a) (Real nan' b) = (\<not> nan \<and> nan' \<or> nan = nan' \<and> a < b)"
| "form_less (Text a) (Text b) = (a < b)"
| "form_less _ _ = False"

text \<open>A number that is not one is above every other, and there is only the one.\<close>

definition double_form :: "u64 \<Rightarrow> form" where
  "double_form v = (if is_nan v then Real True 0 else Real False (double_value v))"

fun form_of :: "Value \<Rightarrow> form" where
  "form_of (Boolean v) = Num (if v then 1 else 0)"
| "form_of (TinyInt v) = Num (sint v)"
| "form_of (SmallInt v) = Num (sint v)"
| "form_of (Integer v) = Num (sint v)"
| "form_of (Date v) = Num (sint v)"
| "form_of (BigInt v) = Num (sint v)"
| "form_of (Time v) = Num (sint v)"
| "form_of (TimeTz v) = Num (sint v)"
| "form_of (Timestamp v) = Num (sint v)"
| "form_of (TimestampTz v) = Num (sint v)"
| "form_of (TimestampS v) = Num (sint v)"
| "form_of (TimestampMs v) = Num (sint v)"
| "form_of (TimestampNs v) = Num (sint v)"
| "form_of (TimeNs v) = Num (sint v)"
| "form_of (TimestampTzNs v) = Num (sint v)"
| "form_of (UTinyInt v) = Num (uint v)"
| "form_of (USmallInt v) = Num (uint v)"
| "form_of (UInteger v) = Num (uint v)"
| "form_of (UBigInt v) = Num (uint v)"
| "form_of (HugeInt v) = Num (sint v)"
| "form_of (Uuid v) = Num (sint v)"
| "form_of (Decimal unscaled width scale) = Num (sint unscaled)"
| "form_of (UHugeInt v) = Num (uint v)"
| "form_of (Float v) = double_form (widen v)"
| "form_of (Double v) = double_form v"
| "form_of (Varchar v) = Text v"
| "form_of (Blob v) = Text v"
| "form_of (Bit v) = Text v"
| "form_of (BigNum v) = Text v"
| "form_of (Numeric v) = Text (numeric_key v)"
| "form_of _ = Missing"

text \<open>
  The columns a value can be of: those whose keys are written the same way. The unscaled integers of
  decimals compare only at one scale.
\<close>

datatype kind = Truth | Signed | Unsigned | Wide | UWide | Scaled u8 | Floating | Bytes

fun kind_of :: "Value \<Rightarrow> kind option" where
  "kind_of (Boolean v) = Some Truth"
| "kind_of (UTinyInt v) = Some Unsigned"
| "kind_of (USmallInt v) = Some Unsigned"
| "kind_of (UInteger v) = Some Unsigned"
| "kind_of (UBigInt v) = Some Unsigned"
| "kind_of (HugeInt v) = Some Wide"
| "kind_of (Uuid v) = Some Wide"
| "kind_of (Decimal unscaled width scale) = Some (Scaled scale)"
| "kind_of (UHugeInt v) = Some UWide"
| "kind_of (Float v) = Some Floating"
| "kind_of (Double v) = Some Floating"
| "kind_of (Varchar v) = Some Bytes"
| "kind_of (Blob v) = Some Bytes"
| "kind_of (Bit v) = Some Bytes"
| "kind_of (BigNum v) = Some Bytes"
| "kind_of (Numeric v) = Some Bytes"
| "kind_of (Variant v) = None"
| "kind_of (Interval a b c) = None"
| "kind_of (ListValue vs) = None"
| "kind_of (Struct fs) = None"
| "kind_of (MapValue es) = None"
| "kind_of (UnionValue t v) = None"
| "kind_of Null = None"
| "kind_of _ = Some Signed"

definition same_column :: "Value \<Rightarrow> Value \<Rightarrow> bool" where
  "same_column v w \<longleftrightarrow> v = Null \<or> w = Null \<or> kind_of v = kind_of w"

lemma double_value_rank: "\<not> is_nan v \<Longrightarrow> double_value v = rank_value (float_rank v)"
  by (simp add: double_value_def rank_value_def float_rank_def Let_def)

lemma float_rank_below: "\<not> is_nan v \<Longrightarrow> float_rank v < int (unat NAN)"
  unfolding is_nan_iff float_rank_def NAN_def by simp

lemma float_rank_nan: "is_nan v \<Longrightarrow> float_rank v = int (unat NAN)"
  by (simp add: float_rank_def)

lemma rank_value_eq: "rank_value r = rank_value s \<longleftrightarrow> r = s"
  using rank_value_less [of r s] rank_value_less [of s r] by (metis less_irrefl linorder_neqE)

lemma double_form_less: "form_less (double_form v) (double_form w) \<longleftrightarrow> float_rank v < float_rank w"
  using float_rank_below [of v] float_rank_below [of w] double_value_rank [of v] double_value_rank [of w]
    rank_value_less [of "float_rank v" "float_rank w"]
  by (cases "is_nan v"; cases "is_nan w") (simp_all add: double_form_def float_rank_nan)

lemma double_form_eq: "double_form v = double_form w \<longleftrightarrow> float_rank v = float_rank w"
  using float_rank_below [of v] float_rank_below [of w] double_value_rank [of v] double_value_rank [of w]
    rank_value_eq [of "float_rank v" "float_rank w"]
  by (cases "is_nan v"; cases "is_nan w") (simp_all add: double_form_def float_rank_nan)

section \<open>Keys order as their columns do\<close>

lemma kind_Truth: "kind_of v = Some Truth \<Longrightarrow> \<exists>t. form_of v = Num (if t then 1 else 0) \<and> push v out = (True, out @ VALUE # [if t then 1 else 0])"
  by (cases v) auto

lemma kind_Signed: "kind_of v = Some Signed \<Longrightarrow> \<exists>s. form_of v = Num (sint s) \<and> push v out = (True, out @ VALUE # signed_key s)"
proof -
  have up: "sint (scast a :: u64) = sint a" "sint (scast b :: u64) = sint b" "sint (scast c :: u64) = sint c"
    for a :: u8 and b :: u16 and c :: u32 by (simp_all add: sint_up_scast is_up)
  then show "kind_of v = Some Signed \<Longrightarrow> ?thesis" by (cases v) (auto intro: up [symmetric])
qed

lemma kind_Unsigned: "kind_of v = Some Unsigned \<Longrightarrow> \<exists>s :: u64. form_of v = Num (uint s) \<and> push v out = (True, out @ VALUE # be_bytes 8 s)"
proof -
  have up: "uint (ucast a :: u64) = uint a" "uint (ucast b :: u64) = uint b" "uint (ucast c :: u64) = uint c"
    for a :: u8 and b :: u16 and c :: u32 by (simp_all add: uint_up_ucast is_up)
  then show "kind_of v = Some Unsigned \<Longrightarrow> ?thesis" by (cases v) (auto intro: up [symmetric])
qed

lemma kind_Wide:
  "kind_of v = Some Wide \<or> kind_of v = Some (Scaled n) \<Longrightarrow> \<exists>s. form_of v = Num (sint s) \<and> push v out = (True, out @ VALUE # wide_key s)"
  by (cases v) auto

lemma kind_UWide: "kind_of v = Some UWide \<Longrightarrow> \<exists>s :: u128. form_of v = Num (uint s) \<and> push v out = (True, out @ VALUE # be_bytes 16 s)"
  by (cases v) auto

lemma kind_Floating: "kind_of v = Some Floating \<Longrightarrow> \<exists>s. form_of v = double_form s \<and> push v out = (True, out @ VALUE # be_bytes 8 (float_key s))"
  by (cases v) auto

lemma kind_Bytes: "kind_of v = Some Bytes \<Longrightarrow> \<exists>s. form_of v = Text s \<and> push v out = (True, out @ VALUE # escape s @ [0])"
  by (cases v) (auto simp: text_key_eq)

lemma kind_None: "kind_of v = None \<Longrightarrow> v \<noteq> Null \<Longrightarrow> push v out = (False, out)"
  by (cases v) auto

lemma push_after:
  "push v out = (fst (push v []), out @ snd (push v []))"
  by (cases v) (simp_all add: text_key_eq)

lemma fixed_less: "length p = length q \<Longrightarrow> p @ x < q @ y \<longleftrightarrow> p < q \<or> (p = q \<and> x < y)"
  by (induction p q rule: list_induct2) auto

lemma escape_eq:
  assumes "tail_ok x" and "tail_ok y"
  shows "escape a @ 0 # x = escape b @ 0 # y \<longleftrightarrow> a = b \<and> x = y"
  using escape_less [OF assms, of a b] escape_less [OF assms(2,1), of b a]
  by (metis less_irrefl linorder_neqE)

lemma length_keys [simp]: "length (signed_key s) = 8" "length (wide_key t) = 16"
  by (simp_all add: signed_key_def wide_key_def)

lemmas key_orders =
  signed_key_order wide_key_order float_key_order be_bytes_order [where 'a = 64 and k = 8, simplified]
  be_bytes_order [where 'a = 128 and k = 16, simplified]

lemma column_order:
  assumes "kind_of v = Some k" and "kind_of w = Some k" and tails: "tail_ok x" "tail_ok y"
  shows "snd (push v []) @ x < snd (push w []) @ y \<longleftrightarrow>
           form_less (form_of v) (form_of w) \<or> (form_of v = form_of w \<and> x < y)"
    and "snd (push v []) @ x = snd (push w []) @ y \<longleftrightarrow> form_of v = form_of w \<and> x = y"
proof -
  have "(snd (push v []) @ x < snd (push w []) @ y \<longleftrightarrow>
           form_less (form_of v) (form_of w) \<or> (form_of v = form_of w \<and> x < y))
     \<and> (snd (push v []) @ x = snd (push w []) @ y \<longleftrightarrow> form_of v = form_of w \<and> x = y)"
  proof (cases k)
    case Truth
    then show ?thesis using kind_Truth [of v "[]"] kind_Truth [of w "[]"] assms by (auto split: if_splits)
  next
    case Signed
    then show ?thesis
      using kind_Signed [of v "[]"] kind_Signed [of w "[]"] assms by (auto simp: fixed_less key_orders)
  next
    case Unsigned
    then show ?thesis
      using kind_Unsigned [of v "[]"] kind_Unsigned [of w "[]"] assms
      by (auto simp: fixed_less key_orders word_less_def word_uint_eq_iff)
  next
    case Wide
    then show ?thesis
      using kind_Wide [of v _ "[]"] kind_Wide [of w _ "[]"] assms by (auto simp: fixed_less key_orders)
  next
    case (Scaled n)
    then show ?thesis
      using kind_Wide [of v n "[]"] kind_Wide [of w n "[]"] assms by (auto simp: fixed_less key_orders)
  next
    case UWide
    then show ?thesis
      using kind_UWide [of v "[]"] kind_UWide [of w "[]"] assms
      by (auto simp: fixed_less key_orders word_less_def word_uint_eq_iff)
  next
    case Floating
    then show ?thesis
      using kind_Floating [of v "[]"] kind_Floating [of w "[]"] assms
      by (auto simp: fixed_less float_key_order double_form_less double_form_eq)
  next
    case Bytes
    then show ?thesis
      using kind_Bytes [of v "[]"] kind_Bytes [of w "[]"] assms
      by (auto simp: escape_less [OF tails] escape_eq [OF tails])
  qed
  then show "snd (push v []) @ x < snd (push w []) @ y \<longleftrightarrow>
           form_less (form_of v) (form_of w) \<or> (form_of v = form_of w \<and> x < y)"
    and "snd (push v []) @ x = snd (push w []) @ y \<longleftrightarrow> form_of v = form_of w \<and> x = y" by auto
qed

lemma pushed_cases:
  assumes "fst (push v [])"
  obtains "v = Null" | k where "kind_of v = Some k" "hd (snd (push v [])) = VALUE" "snd (push v []) \<noteq> []"
  using assms by (cases v) (auto simp: text_key_eq)

lemma column_tail: "fst (push v []) \<Longrightarrow> tail_ok (snd (push v []) @ x)"
  by (erule pushed_cases) (auto simp: tail_ok_def NULL_def VALUE_def ESCAPED_def)

lemma null_order:
  assumes "fst (push v [])" "v \<noteq> Null"
  shows "form_of v \<noteq> Missing" "form_less Missing (form_of v)" "\<not> form_less (form_of v) Missing"
    "NULL # x < snd (push v []) @ y" "\<not> snd (push v []) @ y < NULL # x"
    "NULL # x \<noteq> snd (push v []) @ y" "snd (push v []) @ y \<noteq> NULL # x"
proof -
  show "form_of v \<noteq> Missing" using assms by (cases v) (auto simp: double_form_def)
  then show "form_less Missing (form_of v)" "\<not> form_less (form_of v) Missing" by (cases "form_of v"; simp)+
  obtain bs where "snd (push v []) = VALUE # bs"
    using assms(1) by (cases rule: pushed_cases) (use assms(2) in \<open>auto simp: neq_Nil_conv\<close>)
  then show "NULL # x < snd (push v []) @ y" "\<not> snd (push v []) @ y < NULL # x"
    "NULL # x \<noteq> snd (push v []) @ y" "snd (push v []) @ y \<noteq> NULL # x"
    by (simp_all add: NULL_def VALUE_def)
qed

lemma same_column_order:
  assumes "same_column v w" and ok: "fst (push v [])" "fst (push w [])" and "tail_ok x" "tail_ok y"
  shows "snd (push v []) @ x < snd (push w []) @ y \<longleftrightarrow>
           form_less (form_of v) (form_of w) \<or> (form_of v = form_of w \<and> x < y)"
    and "snd (push v []) @ x = snd (push w []) @ y \<longleftrightarrow> form_of v = form_of w \<and> x = y"
proof -
  consider "v = Null" "w = Null" | "v = Null" "w \<noteq> Null" | "v \<noteq> Null" "w = Null"
    | k where "kind_of v = Some k" "kind_of w = Some k"
    using assms(1) ok by (auto simp: same_column_def elim!: pushed_cases)
  then have "(snd (push v []) @ x < snd (push w []) @ y \<longleftrightarrow>
           form_less (form_of v) (form_of w) \<or> (form_of v = form_of w \<and> x < y))
     \<and> (snd (push v []) @ x = snd (push w []) @ y \<longleftrightarrow> form_of v = form_of w \<and> x = y)"
  proof cases
    case 4
    then show ?thesis using column_order [OF 4 assms(4,5)] by simp
  qed (use null_order [of v] null_order [of w] ok in auto)
  then show "snd (push v []) @ x < snd (push w []) @ y \<longleftrightarrow>
           form_less (form_of v) (form_of w) \<or> (form_of v = form_of w \<and> x < y)"
    and "snd (push v []) @ x = snd (push w []) @ y \<longleftrightarrow> form_of v = form_of w \<and> x = y" by auto
qed

lemma normalize_eq:
  "normalize vs out = (True, key) \<longleftrightarrow>
     list_all (\<lambda>v. fst (push v [])) vs \<and> key = out @ concat (map (\<lambda>v. snd (push v [])) vs)"
proof (induction vs arbitrary: out)
  case (Cons v vs)
  show ?case using Cons push_after [of v out] by (cases "push v []") (auto split: bool.splits)
qed auto

lemma keys_tail: "list_all (\<lambda>v. fst (push v [])) vs \<Longrightarrow> tail_ok (concat (map (\<lambda>v. snd (push v [])) vs))"
  by (cases vs) (auto simp: column_tail, simp add: tail_ok_def)

text \<open>Tuples of columns compare by the first in which they differ.\<close>

fun forms_less :: "form list \<Rightarrow> form list \<Rightarrow> bool" where
  "forms_less (f # fs) (g # gs) \<longleftrightarrow> form_less f g \<or> (f = g \<and> forms_less fs gs)"
| "forms_less _ _ \<longleftrightarrow> False"



end
