(* ===== verification/Sequences.thy ===== *)
theory Sequences
  imports Main "HOL-Library.AList"
begin

text \<open>
  The counters behind sequences: \<open>rudb-common/src/sequence.rs\<close>. An \<open>i64\<close> is an integer, with the range
  checked where the code checks or saturates, and \<open>None\<close> where plain arithmetic would overflow. The
  last part is the contract of \<open>ahead\<close>: if every commit writes the record \<open>ahead\<close> asks for, no value
  handed out before a crash is handed out again after it.
\<close>

section \<open>64 bit integers\<close>

definition I64_MIN :: int where
  "I64_MIN = - (2 ^ 63)"

definition I64_MAX :: int where
  "I64_MAX = 2 ^ 63 - 1"

definition is_i64 :: "int \<Rightarrow> bool" where
  "is_i64 x \<longleftrightarrow> I64_MIN \<le> x \<and> x \<le> I64_MAX"

definition saturate :: "int \<Rightarrow> int" where
  "saturate x = (if x < I64_MIN then I64_MIN else if I64_MAX < x then I64_MAX else x)"

definition saturating_add :: "int \<Rightarrow> int \<Rightarrow> int" where
  "saturating_add a b = saturate (a + b)"

definition saturating_mul :: "int \<Rightarrow> int \<Rightarrow> int" where
  "saturating_mul a b = saturate (a * b)"

definition checked :: "int \<Rightarrow> int option" where
  "checked x = (if is_i64 x then Some x else None)"

definition overflowing_add :: "int \<Rightarrow> int \<Rightarrow> int \<times> bool" where
  "overflowing_add a b =
     (let s = a + b in
      if s < I64_MIN then (s + 2 ^ 64, True) else if I64_MAX < s then (s - 2 ^ 64, True) else (s, False))"

section \<open>Counters\<close>

record SeqOptions =
  so_increment :: int
  so_min :: int
  so_max :: int
  so_start :: int
  so_cycle :: bool

record SeqState =
  sq_counter :: int
  sq_last :: "int option"
  sq_uses :: nat
  sq_durable :: nat

definition PREFETCH :: int where
  "PREFETCH = 32"

record Counter =
  ct_id :: nat
  ct_name :: string
  ct_options :: SeqOptions
  ct_state :: SeqState

text \<open>Every counter by number, with whether it is still alive, and the number the next gets.\<close>

record Registry =
  rg_all :: "(nat \<times> Counter option) list"
  rg_next :: nat

datatype seq_error = Reached_minimum int | Reached_maximum int | Not_yet_defined | Out_of_bounds int | No_longer_exists

definition fresh_state :: "SeqOptions \<Rightarrow> SeqState" where
  "fresh_state opts = \<lparr>sq_counter = so_start opts, sq_last = None, sq_uses = 0, sq_durable = 0\<rparr>"

definition register :: "string \<Rightarrow> SeqOptions \<Rightarrow> Registry \<Rightarrow> Counter \<times> Registry" where
  "register name opts reg =
     (let c = \<lparr>ct_id = rg_next reg, ct_name = name, ct_options = opts, ct_state = fresh_state opts\<rparr>
      in (c, \<lparr>rg_all = AList.update (ct_id c) (Some c) (filter (\<lambda>(i, c). c \<noteq> None) (rg_all reg)),
              rg_next = rg_next reg + 1\<rparr>))"

definition resume :: "string \<Rightarrow> SeqOptions \<Rightarrow> int \<Rightarrow> nat \<Rightarrow> Registry \<Rightarrow> Counter \<times> Registry" where
  "resume name opts counter uses reg =
     (case register name opts reg of (c, reg) \<Rightarrow>
        (let c = c\<lparr>ct_state := \<lparr>sq_counter = counter, sq_last = None, sq_uses = uses, sq_durable = uses\<rparr>\<rparr>
         in (c, reg\<lparr>rg_all := AList.update (ct_id c) (Some c) (rg_all reg)\<rparr>)))"

definition seq_lookup :: "nat \<Rightarrow> Registry \<Rightarrow> seq_error + Counter" where
  "seq_lookup i reg =
     (case map_of (rg_all reg) i of Some (Some c) \<Rightarrow> Inr c | _ \<Rightarrow> Inl No_longer_exists)"

definition snapshot :: "SeqState \<Rightarrow> int \<times> nat" where
  "snapshot s = (sq_counter s, sq_uses s)"

definition covered :: "nat \<Rightarrow> SeqState \<Rightarrow> SeqState" where
  "covered uses s = s\<lparr>sq_durable := uses\<rparr>"

definition moved_past :: "SeqState \<Rightarrow> bool" where
  "moved_past s \<longleftrightarrow> sq_durable s < sq_uses s"

definition ahead :: "SeqOptions \<Rightarrow> SeqState \<Rightarrow> ((int \<times> bool) option \<times> SeqState) option" where
  "ahead opts s =
     (if sq_uses s \<le> sq_durable s then Some (None, s)
      else
        (let increment = so_increment opts;
             counter = sq_counter s;
             target = saturating_add counter (saturating_mul increment PREFETCH);
             stage = (\<lambda>(value, called, covers).
               (Some (value, called), s\<lparr>sq_durable := sq_uses s + nat \<bar>covers\<bar>\<rparr>)) in
         if so_cycle opts then Some (stage (counter, False, 0))
         else if 0 < increment \<and> so_max opts < counter then Some (stage (so_max opts, True, 0))
         else if increment < 0 \<and> counter < so_min opts then Some (stage (so_min opts, True, 0))
         else if 0 < increment then
           (let value = min target (so_max opts)
            in map_option (\<lambda>d. stage (value, False, d div increment)) (checked (value - counter)))
         else
           (let value = max target (so_min opts)
            in Option.bind (checked (counter - value)) (\<lambda>d.
                 map_option (\<lambda>m. stage (value, False, d div m)) (checked (- increment))))))"

definition seq_advance :: "SeqOptions \<Rightarrow> SeqState \<Rightarrow> (seq_error + int) \<times> SeqState" where
  "seq_advance opts s =
     (let result = sq_counter s;
          (moved, overflow) = overflowing_add (sq_counter s) (so_increment opts);
          s = (if overflow then s else s\<lparr>sq_counter := moved\<rparr>);
          hand = (\<lambda>s. (Inr result, s\<lparr>sq_last := Some result, sq_uses := sq_uses s + 1\<rparr>)) in
      if so_cycle opts then
        hand (if overflow then s\<lparr>sq_counter := (if so_increment opts < 0 then so_max opts else so_min opts)\<rparr>
              else if sq_counter s < so_min opts then s\<lparr>sq_counter := so_max opts\<rparr>
              else if so_max opts < sq_counter s then s\<lparr>sq_counter := so_min opts\<rparr>
              else s)
      else if result < so_min opts \<or> overflow \<and> so_increment opts < 0 then (Inl (Reached_minimum (so_min opts)), s)
      else if so_max opts < result \<or> overflow then (Inl (Reached_maximum (so_max opts)), s)
      else hand s)"

definition seq_next :: "SeqOptions \<Rightarrow> SeqState \<Rightarrow> (seq_error + int) \<times> SeqState" where
  "seq_next opts s = seq_advance opts s"

definition seq_current :: "SeqState \<Rightarrow> seq_error + int" where
  "seq_current s = (case sq_last s of Some v \<Rightarrow> Inr v | None \<Rightarrow> Inl Not_yet_defined)"

definition seq_set :: "SeqOptions \<Rightarrow> int \<Rightarrow> bool \<Rightarrow> SeqState \<Rightarrow> (seq_error + int) \<times> SeqState" where
  "seq_set opts value called s =
     (if value < so_min opts \<or> so_max opts < value then (Inl (Out_of_bounds value), s)
      else
        (let s = s\<lparr>sq_counter := value, sq_durable := 0\<rparr> in
         if \<not> called then (Inr value, s\<lparr>sq_uses := sq_uses s + 1\<rparr>) else seq_advance opts s))"

section \<open>A counter that is committed, lost and read back\<close>

text \<open>
  A run hands out values and commits; \<open>ru_record\<close> is the last record a commit wrote, and
  \<open>ru_handed\<close> the values handed out. After a crash the counter is made anew and the record set on it.
\<close>

record SeqRun =
  ru_state :: SeqState
  ru_record :: "(int \<times> bool) option"
  ru_handed :: "int list"

datatype seq_op = Next | Stage

definition seq_step :: "SeqOptions \<Rightarrow> seq_op \<Rightarrow> SeqRun \<Rightarrow> SeqRun option" where
  "seq_step opts p r =
     (case p of
        Next \<Rightarrow>
          (case seq_next opts (ru_state r) of
             (Inl e, s) \<Rightarrow> Some (r\<lparr>ru_state := s\<rparr>)
           | (Inr v, s) \<Rightarrow> Some (r\<lparr>ru_state := s, ru_handed := v # ru_handed r\<rparr>))
      | Stage \<Rightarrow>
          (case ahead opts (ru_state r) of
             None \<Rightarrow> None
           | Some (None, s) \<Rightarrow> Some (r\<lparr>ru_state := s\<rparr>)
           | Some (Some rec, s) \<Rightarrow> Some (r\<lparr>ru_state := s, ru_record := Some rec\<rparr>)))"

fun seq_run :: "SeqOptions \<Rightarrow> seq_op list \<Rightarrow> SeqRun \<Rightarrow> SeqRun option" where
  "seq_run opts [] r = Some r"
| "seq_run opts (p # ps) r = Option.bind (seq_step opts p r) (seq_run opts ps)"

definition new_run :: "SeqOptions \<Rightarrow> SeqRun" where
  "new_run opts = \<lparr>ru_state = fresh_state opts, ru_record = None, ru_handed = []\<rparr>"

definition recovered :: "SeqOptions \<Rightarrow> (int \<times> bool) option \<Rightarrow> SeqState" where
  "recovered opts rec =
     (case rec of None \<Rightarrow> fresh_state opts
      | Some (value, called) \<Rightarrow> snd (seq_set opts value called (fresh_state opts)))"

section \<open>The contract of a record\<close>

definition seq_ok :: "SeqOptions \<Rightarrow> bool" where
  "seq_ok opts \<longleftrightarrow>
     so_increment opts \<noteq> 0 \<and> \<not> so_cycle opts
     \<and> so_min opts \<le> so_start opts \<and> so_start opts \<le> so_max opts
     \<and> is_i64 (so_min opts) \<and> is_i64 (so_max opts)"

text \<open>The way a counter moves: before is less for a counter that counts up and more for one that counts down.\<close>

definition before :: "SeqOptions \<Rightarrow> int \<Rightarrow> int \<Rightarrow> bool" where
  "before opts a b \<longleftrightarrow> (if 0 < so_increment opts then a < b else b < a)"

definition last_value :: "SeqOptions \<Rightarrow> int" where
  "last_value opts = (if 0 < so_increment opts then so_max opts else so_min opts)"

text \<open>The values left before the counter moves on past the last one a record covers.\<close>

definition reaches :: "SeqOptions \<Rightarrow> SeqState \<Rightarrow> int \<Rightarrow> bool" where
  "reaches opts s v \<longleftrightarrow> \<not> before opts v (sq_counter s + int (sq_durable s - sq_uses s) * so_increment opts)"

definition record_ok :: "SeqOptions \<Rightarrow> SeqState \<Rightarrow> int \<times> bool \<Rightarrow> bool" where
  "record_ok opts s rec =
     (case rec of (v, called) \<Rightarrow>
        so_min opts \<le> v \<and> v \<le> so_max opts
        \<and> (if called then v = last_value opts \<and> (sq_uses s \<le> sq_durable s \<longrightarrow> before opts v (sq_counter s))
            else sq_uses s \<le> sq_durable s \<longrightarrow> reaches opts s v))"

definition counter_ok :: "SeqOptions \<Rightarrow> SeqState \<Rightarrow> bool" where
  "counter_ok opts s \<longleftrightarrow> is_i64 (sq_counter s) \<and> \<not> before opts (sq_counter s) (so_start opts)"

definition run_ok :: "SeqOptions \<Rightarrow> SeqRun \<Rightarrow> bool" where
  "run_ok opts r \<longleftrightarrow>
     counter_ok opts (ru_state r)
     \<and> sq_uses (ru_state r) = length (ru_handed r)
     \<and> (\<forall>h \<in> set (ru_handed r). before opts h (sq_counter (ru_state r)))
     \<and> (case ru_record r of None \<Rightarrow> sq_durable (ru_state r) = 0 | Some rec \<Rightarrow> record_ok opts (ru_state r) rec)"

lemma seq_next_cases:
  assumes "\<not> so_cycle opts" and "is_i64 (sq_counter s)"
  obtains
    (stuck) e where "seq_next opts s = (Inl e, s)" "\<not> is_i64 (sq_counter s + so_increment opts)"
  | (past) e where "seq_next opts s = (Inl e, s\<lparr>sq_counter := sq_counter s + so_increment opts\<rparr>)"
      "sq_counter s < so_min opts \<or> so_max opts < sq_counter s" "is_i64 (sq_counter s + so_increment opts)"
  | (hand) "seq_next opts s =
        (Inr (sq_counter s), s\<lparr>sq_counter := sq_counter s + so_increment opts, sq_last := Some (sq_counter s),
                               sq_uses := sq_uses s + 1\<rparr>)"
      "so_min opts \<le> sq_counter s" "sq_counter s \<le> so_max opts" "is_i64 (sq_counter s + so_increment opts)"
proof -
  have over: "snd (overflowing_add a b) \<longleftrightarrow> \<not> is_i64 (a + b)"
    "is_i64 (a + b) \<Longrightarrow> fst (overflowing_add a b) = a + b" for a b
    by (auto simp: overflowing_add_def Let_def is_i64_def)
  show thesis
  proof (cases "is_i64 (sq_counter s + so_increment opts)")
    case True
    then have add: "overflowing_add (sq_counter s) (so_increment opts) = (sq_counter s + so_increment opts, False)"
      using over by (metis prod.collapse)
    show thesis
    proof (cases "sq_counter s < so_min opts \<or> so_max opts < sq_counter s")
      case out: True
      then show thesis
        using past [of "if sq_counter s < so_min opts then Reached_minimum (so_min opts) else Reached_maximum (so_max opts)"]
          True add assms by (auto simp: seq_next_def seq_advance_def)
    next
      case False
      then show thesis using hand True add assms by (auto simp: seq_next_def seq_advance_def Let_def)
    qed
  next
    case False
    then obtain w where "overflowing_add (sq_counter s) (so_increment opts) = (w, True)"
      using over(1) by (metis prod.collapse)
    then show thesis
      using stuck [of "if sq_counter s < so_min opts \<or> so_increment opts < 0 then Reached_minimum (so_min opts) else Reached_maximum (so_max opts)"]
        False assms by (auto simp: seq_next_def seq_advance_def Let_def)
  qed
qed

lemma reaches_inside:
  assumes "seq_ok opts" and "reaches opts s v" and "so_min opts \<le> v" and "v \<le> so_max opts"
    and "\<not> before opts (sq_counter s) (so_start opts)"
  shows "so_min opts \<le> sq_counter s \<and> sq_counter s \<le> so_max opts \<and> \<not> before opts v (sq_counter s)"
proof -
  define k where "k = int (sq_durable s - sq_uses s) * so_increment opts"
  have "0 \<le> k" if "0 < so_increment opts" using that by (simp add: k_def)
  moreover have "k \<le> 0" if "\<not> 0 < so_increment opts"
    unfolding k_def using that by (intro mult_nonneg_nonpos) simp_all
  ultimately show ?thesis
    using assms unfolding seq_ok_def reaches_def before_def k_def [symmetric]
    by (cases "0 < so_increment opts") auto
qed

lemma before_moves:
  assumes "seq_ok opts"
  shows "before opts a (a + so_increment opts)"
    and "before opts a b \<Longrightarrow> before opts a (b + so_increment opts)"
    and "\<not> before opts b a \<Longrightarrow> \<not> before opts (b + so_increment opts) a"
  using assms unfolding before_def seq_ok_def by (cases "0 < so_increment opts"; simp)+

lemma record_ok_past:
  assumes "seq_ok opts" and "record_ok opts s rec" and "counter_ok opts s"
    and "sq_counter s < so_min opts \<or> so_max opts < sq_counter s"
  shows "record_ok opts (s\<lparr>sq_counter := sq_counter s + so_increment opts\<rparr>) rec"
proof (cases rec)
  case (Pair v called)
  show ?thesis
  proof (cases called)
    case True
    then show ?thesis using assms(2) Pair before_moves(2) [OF assms(1)] by (auto simp: record_ok_def)
  next
    case False
    then have v: "so_min opts \<le> v" "v \<le> so_max opts" using assms(2) Pair by (simp_all add: record_ok_def)
    then have "\<not> reaches opts s v"
      using reaches_inside [OF assms(1) _ v, of s] assms(3,4) unfolding counter_ok_def by fastforce
    then show ?thesis using assms(2) Pair False v by (simp add: record_ok_def)
  qed
qed

lemma record_ok_hand:
  assumes "seq_ok opts" and "record_ok opts s rec"
  shows "record_ok opts (s\<lparr>sq_counter := sq_counter s + so_increment opts, sq_last := l, sq_uses := sq_uses s + 1\<rparr>) rec"
proof -
  have "reaches opts (s\<lparr>sq_counter := sq_counter s + so_increment opts, sq_last := l, sq_uses := sq_uses s + 1\<rparr>) v"
    if "reaches opts s v" "sq_uses s + 1 \<le> sq_durable s" for v
  proof -
    have "int (sq_durable s - sq_uses s) = int (sq_durable s - (sq_uses s + 1)) + 1" using that(2) by simp
    then have "sq_counter s + int (sq_durable s - sq_uses s) * so_increment opts =
        sq_counter s + so_increment opts + int (sq_durable s - (sq_uses s + 1)) * so_increment opts"
      by (simp only: ring_distribs)
    then show ?thesis using that(1) by (simp add: reaches_def add.assoc)
  qed
  then show ?thesis
    using assms by (cases rec) (auto simp: record_ok_def before_moves simp del: One_nat_def)
qed

lemma run_ok_next:
  assumes ok: "seq_ok opts" and r: "run_ok opts r" and step: "seq_step opts Next r = Some r'"
  shows "run_ok opts r'"
proof -
  let ?s = "ru_state r"
  have "\<not> so_cycle opts" "is_i64 (sq_counter ?s)" and c: "counter_ok opts ?s"
    using ok r by (simp_all add: seq_ok_def run_ok_def counter_ok_def)
  then show ?thesis
  proof (cases rule: seq_next_cases)
    case (stuck e)
    then show ?thesis using r step by (simp add: seq_step_def)
  next
    case (past e)
    then have "r' = r\<lparr>ru_state := ?s\<lparr>sq_counter := sq_counter ?s + so_increment opts\<rparr>\<rparr>"
      using step by (simp add: seq_step_def)
    then show ?thesis
      using r past(3) record_ok_past [OF ok _ c past(2)] before_moves [OF ok] c
      by (auto simp: run_ok_def counter_ok_def split: option.splits)
  next
    case hand
    then have "r' = r\<lparr>ru_state := ?s\<lparr>sq_counter := sq_counter ?s + so_increment opts, sq_last := Some (sq_counter ?s),
        sq_uses := sq_uses ?s + 1\<rparr>, ru_handed := sq_counter ?s # ru_handed r\<rparr>"
      using step by (simp add: seq_step_def)
    then show ?thesis
      using r hand(4) record_ok_hand [OF ok, of ?s] before_moves [OF ok] c
      by (auto simp: run_ok_def counter_ok_def split: option.splits)
  qed
qed

lemma target_past:
  assumes "is_i64 c"
  shows "0 < inc \<Longrightarrow> c \<le> saturating_add c (saturating_mul inc PREFETCH)"
    and "inc < 0 \<Longrightarrow> saturating_add c (saturating_mul inc PREFETCH) \<le> c"
  using assms by (simp_all add: saturating_add_def saturating_mul_def saturate_def PREFETCH_def is_i64_def
      I64_MIN_def I64_MAX_def)

lemma ahead_cases:
  assumes ok: "seq_ok opts" and c: "counter_ok opts s" and "ahead opts s = Some (staged, s')"
  obtains (covered) "staged = None" "s' = s" "sq_uses s \<le> sq_durable s"
  | (stage) rec where "staged = Some rec" "record_ok opts s' rec"
      "sq_uses s' \<le> sq_durable s'" "s' = s\<lparr>sq_durable := sq_durable s'\<rparr>"
proof (cases "sq_uses s \<le> sq_durable s")
  case True
  then show thesis using assms(3) covered by (simp add: ahead_def)
next
  case False
  let ?c = "sq_counter s" and ?inc = "so_increment opts"
  let ?target = "saturating_add ?c (saturating_mul ?inc PREFETCH)"
  have i64: "is_i64 ?c" using c by (simp add: counter_ok_def)
  note facts = ok [unfolded seq_ok_def] c [unfolded counter_ok_def]
  consider (past) "before opts (last_value opts) ?c" | (up) "0 < ?inc" "?c \<le> so_max opts"
    | (down) "?inc < 0" "so_min opts \<le> ?c"
    using facts unfolding before_def last_value_def by (metis linorder_neqE not_less)
  then show thesis
  proof cases
    case past
    then have "staged = Some (last_value opts, True)" "s' = s\<lparr>sq_durable := sq_uses s\<rparr>"
      using assms(3) False facts by (auto simp: ahead_def Let_def before_def last_value_def split: if_splits)
    then show thesis
      using past facts by (intro stage) (auto simp: record_ok_def last_value_def split: if_splits)
  next
    case up
    define v where "v = min ?target (so_max opts)"
    have v: "?c \<le> v" "v \<le> so_max opts" using target_past(1) [OF i64 up(1)] up by (simp_all add: v_def)
    have s': "staged = Some (v, False)" "s' = s\<lparr>sq_durable := sq_uses s + nat \<bar>(v - ?c) div ?inc\<bar>\<rparr>"
      using assms(3) False facts up
      by (auto simp: ahead_def Let_def v_def checked_def split: if_splits)
    have "int (nat \<bar>(v - ?c) div ?inc\<bar>) * ?inc \<le> v - ?c"
      using up v by (simp add: pos_imp_zdiv_nonneg_iff minus_mod_eq_div_mult [symmetric])
    then show thesis
      using s' v up facts
      by (intro stage) (auto simp: record_ok_def reaches_def before_def split: if_splits)
  next
    case down
    define v where "v = max ?target (so_min opts)"
    have v: "v \<le> ?c" "so_min opts \<le> v" using target_past(2) [OF i64 down(1)] down by (simp_all add: v_def)
    have s': "staged = Some (v, False)" "s' = s\<lparr>sq_durable := sq_uses s + nat \<bar>(?c - v) div (- ?inc)\<bar>\<rparr>"
      using assms(3) False facts down
      by (auto simp: ahead_def Let_def v_def checked_def bind_eq_Some_conv split: if_splits)
    have "0 \<le> (?c - v) div (- ?inc)" using down v by (simp add: pos_imp_zdiv_nonneg_iff)
    moreover have "(?c - v) div (- ?inc) * (- ?inc) \<le> ?c - v"
      using down by (simp add: minus_mod_eq_div_mult [symmetric] del: mult_minus_right)
    ultimately have "?c - v \<ge> - (int (nat \<bar>(?c - v) div (- ?inc)\<bar>) * ?inc)" by simp
    then show thesis
      using s' v down facts
      by (intro stage) (auto simp: record_ok_def reaches_def before_def split: if_splits)
  qed
qed

lemma run_ok_step:
  assumes ok: "seq_ok opts" and r: "run_ok opts r" and step: "seq_step opts p r = Some r'"
  shows "run_ok opts r' \<and> (p = Stage \<longrightarrow> sq_uses (ru_state r') \<le> sq_durable (ru_state r'))"
proof (cases p)
  case Next
  then show ?thesis using run_ok_next [OF ok r] step by simp
next
  case Stage
  then obtain staged s' where a: "ahead opts (ru_state r) = Some (staged, s')"
    using step by (auto simp: seq_step_def split: option.splits)
  have "counter_ok opts (ru_state r)" using r by (simp add: run_ok_def)
  from ok this a show ?thesis
  proof (cases rule: ahead_cases)
    case covered
    then show ?thesis using r step a Stage by (simp add: seq_step_def)
  next
    case (stage rec)
    have "r' = r\<lparr>ru_state := s', ru_record := Some rec\<rparr>" using step a Stage stage(1) by (simp add: seq_step_def)
    moreover have "sq_counter s' = sq_counter (ru_state r)" "sq_uses s' = sq_uses (ru_state r)"
      using stage(4) by (metis SeqState.select_convs(1,3) SeqState.surjective SeqState.update_convs(4))+
    ultimately show ?thesis using r stage by (simp add: run_ok_def counter_ok_def)
  qed
qed

lemma run_ok_run: "seq_ok opts \<Longrightarrow> run_ok opts r \<Longrightarrow> seq_run opts ps r = Some r' \<Longrightarrow> run_ok opts r'"
  by (induction ps arbitrary: r) (auto simp: bind_eq_Some_conv dest: run_ok_step)

lemma seq_run_append: "seq_run opts (ps @ qs) r = Option.bind (seq_run opts ps r) (seq_run opts qs)"
  by (induction ps arbitrary: r) (auto split: bind_splits)

lemma run_ok_new: "seq_ok opts \<Longrightarrow> run_ok opts (new_run opts)"
  by (simp add: run_ok_def new_run_def counter_ok_def fresh_state_def seq_ok_def before_def is_i64_def)

text \<open>What a counter hands out from a place on, and from its end.\<close>

definition from_on :: "SeqOptions \<Rightarrow> int \<Rightarrow> SeqRun \<Rightarrow> bool" where
  "from_on opts v r \<longleftrightarrow>
     is_i64 (sq_counter (ru_state r)) \<and> \<not> before opts (sq_counter (ru_state r)) v
     \<and> (\<forall>h \<in> set (ru_handed r). \<not> before opts h v)"

definition used_up :: "SeqOptions \<Rightarrow> SeqRun \<Rightarrow> bool" where
  "used_up opts r \<longleftrightarrow>
     is_i64 (sq_counter (ru_state r)) \<and> ru_handed r = []
     \<and> (before opts (last_value opts) (sq_counter (ru_state r)) \<or> \<not> is_i64 (sq_counter (ru_state r) + so_increment opts))"

lemma stage_keeps:
  assumes "seq_step opts Stage r = Some r'"
  shows "sq_counter (ru_state r') = sq_counter (ru_state r) \<and> ru_handed r' = ru_handed r"
  using assms
  by (auto simp: seq_step_def ahead_def Let_def bind_eq_Some_conv split: option.splits if_splits)

lemma from_on_step:
  assumes ok: "seq_ok opts" and r: "from_on opts v r" and step: "seq_step opts p r = Some r'"
  shows "from_on opts v r'"
proof (cases p)
  case Stage
  then show ?thesis using stage_keeps [of opts r r'] step r by (simp add: from_on_def)
next
  case Next
  have "\<not> so_cycle opts" "is_i64 (sq_counter (ru_state r))" using ok r by (simp_all add: seq_ok_def from_on_def)
  then show ?thesis
    by (cases rule: seq_next_cases)
      (use r step Next before_moves [OF ok] in \<open>auto simp: seq_step_def from_on_def\<close>)
qed

lemma used_up_step:
  assumes ok: "seq_ok opts" and r: "used_up opts r" and step: "seq_step opts p r = Some r'"
  shows "used_up opts r'"
proof (cases p)
  case Stage
  then show ?thesis using stage_keeps [of opts r r'] step r by (simp add: used_up_def)
next
  case Next
  have "\<not> so_cycle opts" "is_i64 (sq_counter (ru_state r))" using ok r by (simp_all add: seq_ok_def used_up_def)
  then show ?thesis
  proof (cases rule: seq_next_cases)
    case hand
    then show ?thesis using r ok by (auto simp: used_up_def before_def last_value_def seq_ok_def split: if_splits)
  qed (use r step Next before_moves [OF ok] in \<open>auto simp: seq_step_def used_up_def\<close>)
qed

lemma from_on_run: "seq_ok opts \<Longrightarrow> from_on opts v r \<Longrightarrow> seq_run opts ps r = Some r' \<Longrightarrow> from_on opts v r'"
  by (induction ps arbitrary: r) (auto simp: bind_eq_Some_conv dest: from_on_step)

lemma used_up_run: "seq_ok opts \<Longrightarrow> used_up opts r \<Longrightarrow> seq_run opts ps r = Some r' \<Longrightarrow> used_up opts r'"
  by (induction ps arbitrary: r) (auto simp: bind_eq_Some_conv dest: used_up_step)

definition restarted :: "SeqOptions \<Rightarrow> (int \<times> bool) option \<Rightarrow> SeqRun" where
  "restarted opts rec = \<lparr>ru_state = recovered opts rec, ru_record = None, ru_handed = []\<rparr>"

lemma restarted_from_on:
  assumes "seq_ok opts" and "so_min opts \<le> v" and "v \<le> so_max opts"
  shows "from_on opts v (restarted opts (Some (v, False)))"
  using assms by (auto simp: from_on_def restarted_def recovered_def seq_set_def Let_def before_def seq_ok_def is_i64_def)

lemma restarted_used_up:
  assumes ok: "seq_ok opts"
  shows "used_up opts (restarted opts (Some (last_value opts, True)))"
proof -
  define s where "s = (fresh_state opts)\<lparr>sq_counter := last_value opts, sq_durable := 0\<rparr>"
  have v: "so_min opts \<le> last_value opts" "last_value opts \<le> so_max opts" "is_i64 (last_value opts)"
    using ok by (auto simp: last_value_def seq_ok_def)
  then have s': "recovered opts (Some (last_value opts, True)) = snd (seq_next opts s)"
    by (simp add: recovered_def seq_set_def Let_def s_def seq_next_def)
  have "\<not> so_cycle opts" "is_i64 (sq_counter s)" using ok v by (auto simp: seq_ok_def s_def is_i64_def)
  then show ?thesis
    by (cases rule: seq_next_cases)
      (use v before_moves [OF ok] in \<open>auto simp: used_up_def restarted_def s' s_def\<close>)
qed


definition example_sequence :: SeqOptions where
  "example_sequence = \<lparr>so_increment = 2, so_min = 1, so_max = 100, so_start = 1, so_cycle = False\<rparr>"

lemmas sequence_eval =
  example_sequence_def new_run_def fresh_state_def seq_step_def seq_next_def seq_advance_def ahead_def
  overflowing_add_def saturating_add_def saturating_mul_def saturate_def checked_def is_i64_def PREFETCH_def
  I64_MIN_def I64_MAX_def restarted_def recovered_def seq_set_def Let_def


section \<open>Where a record goes wrong\<close>

text \<open>
  The record of a counter past its last value sets that value as handed out, which fails where the
  value after it is out of range: the statement the log replays is then an error.
\<close>


text \<open>The distance to what a record covers overflows for a counter that takes long steps down.\<close>

lemma ahead_overflows:
  "let opts = \<lparr>so_increment = - (2 ^ 60), so_min = I64_MIN, so_max = 2 ^ 60, so_start = 2 ^ 60, so_cycle = False\<rparr>
   in seq_ok opts \<and> seq_run opts [Next, Stage] (new_run opts) = None"
  by (simp add: seq_ok_def sequence_eval)

end
