(* ===== verification/Fsst.thy ===== *)
theory Fsst
  imports Prelude "HOL-Library.Product_Lexorder"
begin

text \<open>
  FSST, the string encoding: \<open>rudb-vector/src/fsst.rs\<close> but for training, which is in \<open>FsstTrain\<close>.

  A table of at most 255 symbols of one to eight bytes; compressing replaces the longest symbol the
  lookup tables reach by its one byte code and escapes a byte no symbol covers. The lookup tables are
  built from the symbols the first time something is compressed, which here is a function of the
  symbols. A panic, and a search that would go round its table for ever, is \<open>None\<close>; the errors the
  code reports are values of \<open>fsst_error\<close>.
\<close>

unbundle bit_operations_syntax

section \<open>Symbols\<close>

datatype fsst_error = Truncated | Not_a_symbol nat | Not_in_table u8 | Out_of_room

definition ESCAPE :: u8 where "ESCAPE = 255"
definition MAX_SYMBOLS :: nat where "MAX_SYMBOLS = 255"
definition MAX_SYMBOL_LEN :: nat where "MAX_SYMBOL_LEN = 8"
definition HASH_SLOTS :: nat where "HASH_SLOTS = 1024"
definition PROBE :: nat where "PROBE = 8"

record Symbol =
  sy_value :: u64
  sy_len :: nat

definition mask_of :: "nat \<Rightarrow> u64" where
  "mask_of len = (if 8 \<le> len then - 1 else push_bit (8 * len) 1 - 1)"

definition or_byte :: "u64 \<Rightarrow> nat \<times> u8 \<Rightarrow> u64" where
  "or_byte value ib = (case ib of (index, byte) \<Rightarrow> value OR push_bit (8 * index) (ucast byte))"

definition Symbol_new :: "bytes \<Rightarrow> Symbol" where
  "Symbol_new bs =
     (let len = min (length bs) MAX_SYMBOL_LEN
      in \<lparr>sy_value = foldl or_byte 0 (enumerate 0 (take len bs)), sy_len = len\<rparr>)"

definition Symbol_single :: "u8 \<Rightarrow> Symbol" where
  "Symbol_single byte = \<lparr>sy_value = ucast byte, sy_len = 1\<rparr>"

definition Symbol_mask :: "Symbol \<Rightarrow> u64" where
  "Symbol_mask s = mask_of (sy_len s)"

definition Symbol_bytes :: "Symbol \<Rightarrow> bytes" where
  "Symbol_bytes s = map (\<lambda>index. ucast (drop_bit (8 * index) (sy_value s))) [0..<sy_len s]"

definition Symbol_concat :: "Symbol \<Rightarrow> Symbol \<Rightarrow> Symbol" where
  "Symbol_concat s other =
     (if MAX_SYMBOL_LEN \<le> sy_len s then s
      else (let len = min (sy_len s + sy_len other) MAX_SYMBOL_LEN;
                value = sy_value s OR push_bit (8 * sy_len s) (sy_value other)
            in \<lparr>sy_value = value AND mask_of len, sy_len = len\<rparr>))"

section \<open>The lookup tables\<close>

text \<open>
  A search through the slots of a table of a power of two, from one slot on and round, until the body
  has an answer. After as many steps as there are slots without one it would go round for ever.
\<close>

fun probe :: "nat \<Rightarrow> nat \<Rightarrow> (nat \<Rightarrow> 'r option) \<Rightarrow> nat \<Rightarrow> 'r option" where
  "probe 0 wrap body slot = None"
| "probe (Suc n) wrap body slot =
     (case body slot of Some r \<Rightarrow> Some r | None \<Rightarrow> probe n wrap body ((slot + 1) AND wrap))"

definition hash_of :: "u64 \<Rightarrow> nat" where
  "hash_of word = (let key = word AND 0xffffff in unat (drop_bit (64 - 10) (key * 0x9e3779b97f4a7c15)))"

definition load :: "bytes \<Rightarrow> nat \<Rightarrow> u64" where
  "load input at =
     (if at + 8 \<le> length input then le_word (slice input at (at + 8))
      else if 8 \<le> length input
      then drop_bit (8 * (at + 8 - length input)) (le_word (drop (length input - 8) input))
      else foldl or_byte 0 (enumerate 0 (drop at input)))"

record Head =
  hd_key :: u32
  hd_first :: u16
  hd_count :: u16

definition NO_HEAD :: u32 where "NO_HEAD = - 1"

record Lookup =
  lk_single :: "u8 list"
  lk_short :: "u16 list"
  lk_heads :: "Head list"
  lk_long :: "(Symbol \<times> u8) list"

record Placing =
  pl_single :: "u8 list"
  pl_pair :: "u16 list"
  pl_placed :: "(Symbol \<times> u8) option list"
  pl_long :: "(Symbol \<times> u8) list"

definition free_slot :: "'a option list \<Rightarrow> nat \<Rightarrow> nat option" where
  "free_slot placed slot = (if placed ! slot = None then Some slot else None)"

definition Lookup_place :: "Placing \<Rightarrow> Symbol \<times> u8 \<Rightarrow> Placing" where
  "Lookup_place p sc =
     (case sc of (symbol, code) \<Rightarrow>
        if sy_len symbol = 1 then
          (let index = unat (sy_value symbol AND 0xff)
           in if pl_single p ! index = ESCAPE then p\<lparr>pl_single := (pl_single p)[index := code]\<rparr> else p)
        else if sy_len symbol = 2 then
          (let index = unat (sy_value symbol AND 0xffff)
           in if pl_pair p ! index = - 1 then p\<lparr>pl_pair := (pl_pair p)[index := ucast code]\<rparr> else p)
        else
          (case probe PROBE (HASH_SLOTS - 1) (free_slot (pl_placed p)) (hash_of (sy_value symbol)) of
             Some slot \<Rightarrow> p\<lparr>pl_placed := (pl_placed p)[slot := Some sc], pl_long := pl_long p @ [sc]\<rparr>
           | None \<Rightarrow> p))"

definition first_three :: "Symbol \<times> u8 \<Rightarrow> u64" where
  "first_three sc = sy_value (fst sc) AND 0xffffff"

function group_end :: "(Symbol \<times> u8) list \<Rightarrow> u64 \<Rightarrow> nat \<Rightarrow> nat" where
  "group_end long key fin =
     (if fin < length long \<and> first_three (long ! fin) = key then group_end long key (Suc fin) else fin)"
  by auto
termination by (relation "measure (\<lambda>(long, key, fin). length long - fin)") auto

declare group_end.simps [simp del]

definition no_head_at :: "Head list \<Rightarrow> nat \<Rightarrow> nat option" where
  "no_head_at heads slot = (if hd_key (heads ! slot) = NO_HEAD then Some slot else None)"

lemma group_end_ge: "fin \<le> group_end long key fin"
proof (induction long key fin rule: group_end.induct)
  case (1 long key fin)
  then show ?case by (subst group_end.simps) auto
qed

function heads_from :: "(Symbol \<times> u8) list \<Rightarrow> nat \<Rightarrow> Head list \<Rightarrow> Head list option" where
  "heads_from long start heads =
     (if start < length long then
        (let key = first_three (long ! start);
             fin = group_end long key (Suc start)
         in case probe HASH_SLOTS (HASH_SLOTS - 1) (no_head_at heads) (hash_of key) of
              None \<Rightarrow> None
            | Some slot \<Rightarrow>
                heads_from long fin
                  (heads[slot := \<lparr>hd_key = ucast key, hd_first = of_nat start, hd_count = of_nat (fin - start)\<rparr>]))
      else Some heads)"
  by auto
termination
  by (relation "measure (\<lambda>(long, start, heads). length long - start)")
    (auto intro!: diff_less_mono2 less_le_trans [OF _ group_end_ge])

declare heads_from.simps [simp del]

definition short_entry :: "u8 list \<Rightarrow> u16 list \<Rightarrow> nat \<Rightarrow> u16" where
  "short_entry singles pair index =
     (if pair ! index = - 1 then ucast (singles ! (index AND 0xff)) OR push_bit 8 1
      else pair ! index OR push_bit 8 2)"

definition Lookup_of :: "Symbol list \<Rightarrow> Lookup option" where
  "Lookup_of symbols =
     (let order = sort_key (\<lambda>(symbol, code). (- int (sy_len symbol), code))
                    (map (\<lambda>(code, symbol). (symbol, of_nat code)) (enumerate 0 symbols));
          p = foldl Lookup_place
                \<lparr>pl_single = replicate 256 ESCAPE, pl_pair = replicate 65536 (- 1),
                 pl_placed = replicate HASH_SLOTS None, pl_long = []\<rparr> order;
          long = sort_key first_three (pl_long p);
          none = \<lparr>hd_key = NO_HEAD, hd_first = 0, hd_count = 0\<rparr>
      in map_option (\<lambda>heads.
           \<lparr>lk_single = pl_single p, lk_short = map (short_entry (pl_single p) (pl_pair p)) [0..<65536],
            lk_heads = heads, lk_long = long\<rparr>)
         (heads_from long 0 (replicate HASH_SLOTS none)))"

definition symbol_matches :: "u64 \<Rightarrow> nat \<Rightarrow> Symbol \<times> u8 \<Rightarrow> bool" where
  "symbol_matches word remaining sc \<longleftrightarrow>
     sy_len (fst sc) \<le> remaining \<and> word AND Symbol_mask (fst sc) = sy_value (fst sc)"

definition group_at :: "Lookup \<Rightarrow> Head \<Rightarrow> (Symbol \<times> u8) list option" where
  "group_at l h = get_range (lk_long l) (unat (hd_first h)) (unat (hd_first h) + unat (hd_count h))"

text \<open>The body of the search of \<open>long_at\<close>: the outer option is whether it returns, the inner a panic.\<close>

definition long_here :: "Lookup \<Rightarrow> u64 \<Rightarrow> nat \<Rightarrow> nat \<Rightarrow> (u8 \<times> nat) option option option" where
  "long_here l word remaining slot =
     (let h = lk_heads l ! slot in
      if hd_key h = ucast (word AND 0xffffff) then
        Some (map_option (\<lambda>group.
          map_option (\<lambda>sc. (snd sc, sy_len (fst sc))) (find (symbol_matches word remaining) group))
          (group_at l h))
      else if hd_key h = NO_HEAD then Some (Some None)
      else None)"

definition long_at :: "Lookup \<Rightarrow> u64 \<Rightarrow> nat \<Rightarrow> (u8 \<times> nat) option option" where
  "long_at l word remaining =
     Option.bind (probe HASH_SLOTS (HASH_SLOTS - 1) (long_here l word remaining) (hash_of word)) (\<lambda>r. r)"

definition match_short :: "Lookup \<Rightarrow> u64 \<Rightarrow> nat \<Rightarrow> u8 \<times> nat" where
  "match_short l word remaining =
     (if 2 \<le> remaining then
        (let entry = lk_short l ! unat (word AND 0xffff)
         in (ucast (entry AND 0xff), unat (drop_bit 8 entry)))
      else (lk_single l ! unat (word AND 0xff), 1))"

definition match_at :: "Lookup \<Rightarrow> bytes \<Rightarrow> nat \<Rightarrow> (u8 \<times> nat) option" where
  "match_at l input at =
     (let remaining = length input - at;
          word = load input at
      in if 3 \<le> remaining then
           (case long_at l word remaining of
              None \<Rightarrow> None
            | Some (Some found) \<Rightarrow> Some found
            | Some None \<Rightarrow> Some (match_short l word remaining))
         else Some (match_short l word remaining))"

section \<open>Tables, compressing and decompressing\<close>

record Decode =
  de_values :: "u64 list"
  de_lens :: "nat list"

definition decode_entry :: "Decode \<Rightarrow> nat \<times> Symbol \<Rightarrow> Decode" where
  "decode_entry d cs = (case cs of (code, symbol) \<Rightarrow>
     d\<lparr>de_values := (de_values d)[code := sy_value symbol], de_lens := (de_lens d)[code := sy_len symbol]\<rparr>)"

definition Decode_of :: "Symbol list \<Rightarrow> Decode" where
  "Decode_of symbols =
     foldl decode_entry \<lparr>de_values = replicate 256 0, de_lens = replicate 256 0\<rparr>
       (take MAX_SYMBOLS (enumerate 0 symbols))"

record SymbolTable =
  st_symbols :: "Symbol list"
  st_decode :: Decode

definition SymbolTable_build :: "Symbol list \<Rightarrow> SymbolTable" where
  "SymbolTable_build symbols = \<lparr>st_symbols = symbols, st_decode = Decode_of symbols\<rparr>"

definition SymbolTable_empty :: SymbolTable where
  "SymbolTable_empty = SymbolTable_build []"

definition SymbolTable_len :: "SymbolTable \<Rightarrow> nat" where
  "SymbolTable_len t = length (st_symbols t)"

definition SymbolTable_is_empty :: "SymbolTable \<Rightarrow> bool" where
  "SymbolTable_is_empty t \<longleftrightarrow> st_symbols t = []"

definition SymbolTable_symbol :: "SymbolTable \<Rightarrow> u8 \<Rightarrow> (bytes \<times> nat) option" where
  "SymbolTable_symbol t code =
     (if unat code < length (st_symbols t)
      then (let symbol = st_symbols t ! unat code in Some (le_bytes 8 (sy_value symbol), sy_len symbol))
      else None)"

definition serialized_len :: "SymbolTable \<Rightarrow> nat" where
  "serialized_len t = 1 + sum_list (map (\<lambda>symbol. 1 + sy_len symbol) (st_symbols t))"

definition serialize :: "SymbolTable \<Rightarrow> bytes \<Rightarrow> bytes" where
  "serialize t out =
     foldl (\<lambda>out symbol. out @ [of_nat (sy_len symbol)] @ Symbol_bytes symbol)
       (out @ [of_nat (length (st_symbols t))]) (st_symbols t)"

fun read_symbols :: "nat \<Rightarrow> bytes \<Rightarrow> nat \<Rightarrow> Symbol list \<Rightarrow> fsst_error + Symbol list \<times> nat" where
  "read_symbols 0 bs at symbols = Inr (symbols, at)"
| "read_symbols (Suc n) bs at symbols =
     (if at < length bs then
        (let len = unat (bs ! at) in
         if len = 0 \<or> MAX_SYMBOL_LEN < len then Inl (Not_a_symbol len)
         else (let at = at + 1; fin = at + len in
               if length bs < fin then Inl Truncated
               else read_symbols n bs fin (symbols @ [Symbol_new (slice bs at fin)])))
      else Inl Truncated)"

definition deserialize :: "bytes \<Rightarrow> fsst_error + SymbolTable \<times> nat" where
  "deserialize bs =
     (case bs of
        [] \<Rightarrow> Inl Truncated
      | count # _ \<Rightarrow>
          (case read_symbols (unat count) bs 1 [] of
             Inl e \<Rightarrow> Inl e
           | Inr (symbols, at) \<Rightarrow> Inr (SymbolTable_build symbols, at)))"

partial_function (option) compress_loop :: "Lookup \<Rightarrow> bytes \<Rightarrow> nat \<Rightarrow> bytes \<Rightarrow> bytes option" where
  "compress_loop l input at out =
     (if at < length input then
        (case match_at l input at of
           None \<Rightarrow> None
         | Some (code, len) \<Rightarrow>
             compress_loop l input (at + len)
               (if code = ESCAPE then out @ [ESCAPE, input ! at] else out @ [code]))
      else Some out)"

definition compress :: "SymbolTable \<Rightarrow> bytes \<Rightarrow> bytes \<Rightarrow> bytes option" where
  "compress t input out =
     (case Lookup_of (st_symbols t) of None \<Rightarrow> None | Some l \<Rightarrow> compress_loop l input 0 out)"

fun decompress :: "SymbolTable \<Rightarrow> bytes \<Rightarrow> bytes \<Rightarrow> fsst_error + bytes" where
  "decompress t [] out = Inr out"
| "decompress t (code # codes) out =
     (if code = ESCAPE then
        (case codes of [] \<Rightarrow> Inl Truncated | literal # codes \<Rightarrow> decompress t codes (out @ [literal]))
      else if unat code < length (st_symbols t) then
        (let symbol = st_symbols t ! unat code;
             out = out @ le_bytes 8 (sy_value symbol)
         in decompress t codes (take (length out - (MAX_SYMBOL_LEN - sy_len symbol)) out))
      else Inl (Not_in_table code))"

text \<open>Decompressing into a buffer gives where it ended, and the buffer also where it fails.\<close>

fun decompress_near_end :: "SymbolTable \<Rightarrow> bytes \<Rightarrow> bytes \<Rightarrow> nat \<Rightarrow> (fsst_error + nat) \<times> bytes" where
  "decompress_near_end t [] out at = (Inr at, out)"
| "decompress_near_end t (code # codes) out at =
     (if code = ESCAPE then
        (case codes of
           [] \<Rightarrow> (Inl Truncated, out)
         | literal # codes \<Rightarrow>
             if at < length out then decompress_near_end t codes (out[at := literal]) (at + 1)
             else (Inl Out_of_room, out))
      else if unat code < length (st_symbols t) then
        (let symbol = st_symbols t ! unat code in
         if at + MAX_SYMBOL_LEN \<le> length out
         then decompress_near_end t codes (copy_at out at (le_bytes 8 (sy_value symbol))) (at + sy_len symbol)
         else (Inl Out_of_room, out))
      else (Inl (Not_in_table code), out))"

fun decompress_fast :: "Decode \<Rightarrow> nat \<Rightarrow> bytes \<Rightarrow> bytes \<Rightarrow> nat \<Rightarrow> (fsst_error + nat) \<times> bytes" where
  "decompress_fast d lst [] out at = (Inr at, out)"
| "decompress_fast d lst (code # codes) out at =
     (let len = de_lens d ! unat code in
      if len = 0 then
        (if code \<noteq> ESCAPE then (Inl (Not_in_table code), out)
         else (case codes of
                 [] \<Rightarrow> (Inl Truncated, out)
               | literal # codes \<Rightarrow>
                   if at < length out then decompress_fast d lst codes (out[at := literal]) (at + 1)
                   else (Inl Out_of_room, out)))
      else if lst < at then (Inl Out_of_room, out)
      else decompress_fast d lst codes (copy_at out at (le_bytes 8 (de_values d ! unat code))) (at + len))"

definition decompress_at :: "SymbolTable \<Rightarrow> bytes \<Rightarrow> bytes \<Rightarrow> nat \<Rightarrow> (fsst_error + nat) \<times> bytes" where
  "decompress_at t input out at =
     (if length out < MAX_SYMBOL_LEN then decompress_near_end t input out at
      else decompress_fast (st_decode t) (length out - MAX_SYMBOL_LEN) input out at)"

section \<open>Searching a table of slots\<close>

lemma and_mask_mod: "(a :: nat) AND (2 ^ k - Suc 0) = a mod 2 ^ k"
  by (metis One_nat_def mask_eq_exp_minus_1 take_bit_eq_mask take_bit_eq_mod)

lemma probe_Some:
  assumes "probe m (2 ^ k - 1) body s = Some r" and "s < 2 ^ k"
  shows "\<exists>j < 2 ^ k. body j = Some r"
  using assms
proof (induction m arbitrary: s)
  case (Suc m)
  then show ?case by (auto simp: and_mask_mod split: option.splits)
qed simp

lemma probe_reaches:
  assumes "i < m" and "body ((s + i) mod 2 ^ k) \<noteq> None" and "s < 2 ^ k"
  shows "probe m (2 ^ k - 1) body s \<noteq> None"
  using assms
proof (induction m arbitrary: s i)
  case (Suc m)
  show ?case
  proof (cases i)
    case 0
    then show ?thesis using Suc.prems by auto
  next
    case (Suc j)
    then have "body (((s + 1) mod 2 ^ k + j) mod 2 ^ k) \<noteq> None" "j < m"
      using Suc.prems by (simp_all add: mod_add_left_eq)
    then have "probe m (2 ^ k - 1) body ((s + 1) mod 2 ^ k) \<noteq> None" by (intro Suc.IH) auto
    then show ?thesis by (auto simp: and_mask_mod split: option.split)
  qed
qed simp

lemma probe_first:
  assumes "s < 2 ^ k"
  shows "probe m (2 ^ k - 1) body s = Some r \<longleftrightarrow>
    (\<exists>n < m. body ((s + n) mod 2 ^ k) = Some r \<and> (\<forall>i < n. body ((s + i) mod 2 ^ k) = None))"
  using assms
proof (induction m arbitrary: s)
  case (Suc m)
  have IH: "probe m (2 ^ k - 1) body ((s + 1) mod 2 ^ k) = Some r \<longleftrightarrow>
    (\<exists>n < m. body ((s + Suc n) mod 2 ^ k) = Some r \<and> (\<forall>i < n. body ((s + Suc i) mod 2 ^ k) = None))"
    using Suc.IH [of "(s + 1) mod 2 ^ k"] by (simp add: mod_add_left_eq)
  show ?case
  proof (cases "body s")
    case None
    then show ?thesis using IH Suc.prems by (simp add: and_mask_mod Ex_less_Suc2 All_less_Suc2)
  next
    case (Some q)
    then show ?thesis using Suc.prems by (auto simp: Ex_less_Suc2 All_less_Suc2)
  qed
qed simp

lemma probe_complete:
  assumes "body j \<noteq> None" and "j < 2 ^ k" and "s < 2 ^ k"
  shows "\<exists>r. probe (2 ^ k) (2 ^ k - 1) body s = Some r"
proof -
  let ?i = "(j + (2 ^ k - s)) mod 2 ^ k"
  have "(s + ?i) mod 2 ^ k = (s + (j + (2 ^ k - s))) mod 2 ^ k" by (simp add: mod_add_right_eq)
  also have "\<dots> = j" using assms(2,3) by simp
  finally have "probe (2 ^ k) (2 ^ k - 1) body s \<noteq> None"
    using assms by (intro probe_reaches [of ?i]) simp_all
  then show ?thesis by blast
qed

lemma HASH_SLOTS_pow: "HASH_SLOTS = 2 ^ 10"
  by (simp add: HASH_SLOTS_def)

lemma hash_of_less: "hash_of w < 2 ^ 10"
proof -
  have "unat (drop_bit (64 - 10) v) < 2 ^ 10" for v :: u64
    using unsigned_less [of v, where 'a = nat] unat_drop_bit_eq [of "64 - 10" v]
    by (simp only: drop_bit_eq_div) (simp add: less_mult_imp_div_less)
  then show ?thesis by (simp only: hash_of_def Let_def)
qed

lemma filter_update_le: "length (filter P (xs[i := x])) \<le> Suc (length (filter P xs))"
  by (induction xs arbitrary: i) (auto simp: less_Suc_eq_le split: nat.split)

lemma filter_short_ex: "length (filter P xs) < length xs \<Longrightarrow> \<exists>i < length xs. \<not> P (xs ! i)"
  by (metis filter_True in_set_conv_nth less_irrefl)

lemma foldl_keeps:
  "P s \<Longrightarrow> (\<And>s x. P s \<Longrightarrow> x \<in> set xs \<Longrightarrow> P (f s x)) \<Longrightarrow> P (foldl f s xs)"
  by (induction xs arbitrary: s) simp_all

section \<open>The bytes of symbols and of the input\<close>

definition symbol_ok :: "Symbol \<Rightarrow> bool" where
  "symbol_ok s \<longleftrightarrow> 1 \<le> sy_len s \<and> sy_len s \<le> 8 \<and> sy_value s AND mask_of (sy_len s) = sy_value s"

definition table_ok :: "Symbol list \<Rightarrow> bool" where
  "table_ok symbols \<longleftrightarrow> length symbols \<le> MAX_SYMBOLS \<and> (\<forall>s \<in> set symbols. symbol_ok s)"

lemma table_nth: "table_ok symbols \<Longrightarrow> i < length symbols \<Longrightarrow> symbol_ok (symbols ! i)"
  by (simp add: table_ok_def)

lemma bit_mask_of: "bit (mask_of n) i \<longleftrightarrow> i < 64 \<and> i < 8 * n"
proof -
  have "push_bit (8 * n) 1 - 1 = (mask (8 * n) :: u64)" by (simp add: mask_eq_exp_minus_1 push_bit_eq_mult)
  then show ?thesis by (auto simp: mask_of_def bit_mask_iff bit_minus_1_iff)
qed

lemma foldl_or_byte:
  "foldl or_byte v (enumerate k bs) = v OR push_bit (8 * k) (le_word bs)"
proof (induction bs arbitrary: v k)
  case (Cons b bs)
  have "push_bit (8 + 8 * k) (le_word bs :: u64) = push_bit (8 * k) (push_bit 8 (le_word bs))"
    by (simp add: add.commute)
  then show ?case using Cons.IH [of _ "Suc k"]
    by (simp add: or_byte_def or.assoc push_bit_or)
qed simp

lemma Symbol_new_value: "sy_value (Symbol_new bs) = le_word (take 8 bs)" "sy_len (Symbol_new bs) = min (length bs) 8"
  by (simp_all add: Symbol_new_def Let_def foldl_or_byte MAX_SYMBOL_LEN_def min_def)

lemma bit_load:
  assumes "at < length input"
  shows "bit (load input at) i \<longleftrightarrow>
    i < 64 \<and> at + i div 8 < length input \<and> bit (input ! (at + i div 8)) (i mod 8)"
proof -
  consider "at + 8 \<le> length input" | "length input < at + 8" "8 \<le> length input" | "length input < 8" by linarith
  then show ?thesis
  proof cases
    case 1
    then have "i < 64 \<Longrightarrow> i div 8 < 8" by linarith
    then show ?thesis using 1 by (auto simp: load_def bit_le_word nth_slice)
  next
    case 2
    let ?k = "at + 8 - length input"
    have k: "8 * ?k + i < 64 \<and> (8 * ?k + i) div 8 < 8 \<and>
        bit (input ! (length input - 8 + (8 * ?k + i) div 8)) ((8 * ?k + i) mod 8)
      \<longleftrightarrow> i < 64 \<and> at + i div 8 < length input \<and> bit (input ! (at + i div 8)) (i mod 8)"
    proof -
      have "(8 * ?k + i) div 8 = ?k + i div 8" "(8 * ?k + i) mod 8 = i mod 8" by simp_all
      moreover have "length input - 8 + (?k + i div 8) = at + i div 8" using 2 by linarith
      moreover have "8 * ?k + i < 64 \<and> ?k + i div 8 < 8 \<longleftrightarrow> i < 64 \<and> at + i div 8 < length input"
        using 2 assms by linarith
      ultimately show ?thesis by metis
    qed
    have "load input at = drop_bit (8 * ?k) (le_word (drop (length input - 8) input))"
      using 2 by (simp add: load_def)
    then show ?thesis using 2 k by (simp add: bit_drop_bit_eq bit_le_word)
  next
    case 3
    then show ?thesis using assms by (auto simp: load_def foldl_or_byte bit_le_word)
  qed
qed

lemma match_bytes:
  assumes at: "at < length input" and ok: "symbol_ok s" and len: "sy_len s \<le> length input - at"
    and eq: "load input at AND mask_of (sy_len s) = sy_value s"
  shows "Symbol_bytes s = slice input at (at + sy_len s)"
proof (rule nth_equalityI)
  show "length (Symbol_bytes s) = length (slice input at (at + sy_len s))"
    using len by (simp add: Symbol_bytes_def)
next
  fix j assume "j < length (Symbol_bytes s)"
  then have j: "j < sy_len s" by (simp add: Symbol_bytes_def)
  have "bit (ucast (drop_bit (8 * j) (sy_value s)) :: u8) k = bit (input ! (at + j)) k" if "k < 8" for k
  proof -
    have "(8 * j + k) div 8 = j" "(8 * j + k) mod 8 = k" "8 * j + k < 64"
      using that j ok by (auto simp: symbol_ok_def)
    then have "bit (sy_value s) (8 * j + k) = bit (input ! (at + j)) k"
      using that j len unfolding eq [symmetric] by (auto simp: bit_and_iff bit_mask_of bit_load [OF at])
    then show ?thesis using that by (simp add: bit_ucast_iff bit_drop_bit_eq)
  qed
  then have "ucast (drop_bit (8 * j) (sy_value s)) = input ! (at + j)" by (intro bit_word_eqI) simp
  then show "Symbol_bytes s ! j = slice input at (at + sy_len s) ! j"
    using j len at by (simp add: Symbol_bytes_def nth_slice)
qed

section \<open>What the lookup tables hold\<close>

text \<open>A symbol listed with its code, and the entries the flat tables may have.\<close>

definition coded :: "Symbol list \<Rightarrow> Symbol \<times> u8 \<Rightarrow> bool" where
  "coded symbols sc \<longleftrightarrow> unat (snd sc) < length symbols \<and> symbols ! unat (snd sc) = fst sc"

definition single_ok :: "Symbol list \<Rightarrow> u8 list \<Rightarrow> bool" where
  "single_ok symbols singles \<longleftrightarrow> length singles = 256 \<and>
     (\<forall>i < 256. singles ! i \<noteq> ESCAPE \<longrightarrow>
        (\<exists>s. coded symbols (s, singles ! i) \<and> sy_len s = 1 \<and> unat (sy_value s AND 0xff) = i))"

definition pair_ok :: "Symbol list \<Rightarrow> u16 list \<Rightarrow> bool" where
  "pair_ok symbols pair \<longleftrightarrow> length pair = 65536 \<and>
     (\<forall>i < 65536. pair ! i \<noteq> - 1 \<longrightarrow>
        (\<exists>s c. coded symbols (s, c) \<and> pair ! i = ucast c \<and> sy_len s = 2 \<and> unat (sy_value s AND 0xffff) = i))"

definition placing_ok :: "Symbol list \<Rightarrow> Placing \<Rightarrow> bool" where
  "placing_ok symbols p \<longleftrightarrow>
     single_ok symbols (pl_single p) \<and> pair_ok symbols (pl_pair p) \<and> (\<forall>sc \<in> set (pl_long p). coded symbols sc)"

lemma single_ok_update:
  assumes "single_ok symbols singles" and "coded symbols (s, c)" and "sy_len s = 1"
  shows "single_ok symbols (singles[unat (sy_value s AND 0xff) := c])"
  unfolding single_ok_def
proof (intro conjI allI impI)
  fix i assume "i < (256 :: nat)" and "singles[unat (sy_value s AND 0xff) := c] ! i \<noteq> ESCAPE"
  then show "\<exists>t. coded symbols (t, singles[unat (sy_value s AND 0xff) := c] ! i) \<and> sy_len t = 1
      \<and> unat (sy_value t AND 0xff) = i"
    using assms by (cases "unat (sy_value s AND 0xff) = i") (auto simp: single_ok_def)
qed (use assms in \<open>simp add: single_ok_def\<close>)

lemma pair_ok_update:
  assumes "pair_ok symbols pair" and "coded symbols (s, c)" and "sy_len s = 2"
  shows "pair_ok symbols (pair[unat (sy_value s AND 0xffff) := ucast c])"
  unfolding pair_ok_def
proof (intro conjI allI impI)
  fix i assume "i < (65536 :: nat)" and "pair[unat (sy_value s AND 0xffff) := ucast c] ! i \<noteq> - 1"
  then show "\<exists>t d. coded symbols (t, d) \<and> pair[unat (sy_value s AND 0xffff) := ucast c] ! i = ucast d
      \<and> sy_len t = 2 \<and> unat (sy_value t AND 0xffff) = i"
    using assms by (cases "unat (sy_value s AND 0xffff) = i") (auto simp: pair_ok_def)
qed (use assms in \<open>simp add: pair_ok_def\<close>)

lemma placing_ok_place:
  assumes "placing_ok symbols p" and "coded symbols sc"
  shows "placing_ok symbols (Lookup_place p sc)"
proof -
  obtain s c where sc: "sc = (s, c)" by (cases sc)
  consider "sy_len s = 1" | "sy_len s = 2" | "sy_len s \<noteq> 1" "sy_len s \<noteq> 2" by blast
  then show ?thesis
  proof cases
    case 1
    then show ?thesis using assms single_ok_update [of symbols "pl_single p" s c]
      unfolding sc by (simp add: Lookup_place_def Let_def placing_ok_def)
  next
    case 2
    then show ?thesis using assms pair_ok_update [of symbols "pl_pair p" s c]
      unfolding sc by (simp add: Lookup_place_def Let_def placing_ok_def)
  next
    case 3
    then show ?thesis using assms unfolding sc by (simp add: Lookup_place_def placing_ok_def split: option.split)
  qed
qed

lemma length_long_place: "length (pl_long (foldl Lookup_place p xs)) \<le> length (pl_long p) + length xs"
proof (induction xs arbitrary: p)
  case (Cons x xs)
  have "length (pl_long (Lookup_place p x)) \<le> Suc (length (pl_long p))"
    by (cases x) (simp add: Lookup_place_def Let_def split: option.splits)
  then show ?case using Cons.IH [of "Lookup_place p x"] by simp
qed simp

lemma group_end_le: "fin \<le> length long \<Longrightarrow> group_end long key fin \<le> length long"
proof (induction long key fin rule: group_end.induct)
  case (1 long key fin)
  then show ?case by (subst group_end.simps) auto
qed

definition head_ok :: "(Symbol \<times> u8) list \<Rightarrow> Head \<Rightarrow> bool" where
  "head_ok long h \<longleftrightarrow> hd_key h = NO_HEAD \<or> unat (hd_first h) + unat (hd_count h) \<le> length long"

definition taken_heads :: "Head list \<Rightarrow> nat" where
  "taken_heads heads = length (filter (\<lambda>h. hd_key h \<noteq> NO_HEAD) heads)"

lemma probe_no_head:
  assumes "length heads = HASH_SLOTS" and "taken_heads heads < HASH_SLOTS"
  shows "\<exists>slot < HASH_SLOTS. probe HASH_SLOTS (HASH_SLOTS - 1) (no_head_at heads) (hash_of key) = Some slot"
proof -
  obtain j where j: "j < HASH_SLOTS" "hd_key (heads ! j) = NO_HEAD"
    using assms filter_short_ex [of "\<lambda>h. hd_key h \<noteq> NO_HEAD" heads] by (auto simp: taken_heads_def)
  then obtain r where r: "probe HASH_SLOTS (HASH_SLOTS - 1) (no_head_at heads) (hash_of key) = Some r"
    using probe_complete [of "no_head_at heads" j 10 "hash_of key"] hash_of_less
    unfolding HASH_SLOTS_pow by (auto simp: no_head_at_def)
  then have "r < HASH_SLOTS"
    using probe_Some [of HASH_SLOTS 10 "no_head_at heads" "hash_of key" r] hash_of_less
    unfolding HASH_SLOTS_pow by (auto simp: no_head_at_def split: if_splits)
  with r show ?thesis by blast
qed

lemma unat_u16_small: "n < 65536 \<Longrightarrow> unat (of_nat n :: u16) = n"
  by (simp add: unat_of_nat)

lemma heads_from_ok:
  assumes "length long < HASH_SLOTS" and "length heads = HASH_SLOTS" and "taken_heads heads \<le> start"
    and "\<forall>h \<in> set heads. head_ok long h" and "start \<le> length long"
  shows "\<exists>hs. heads_from long start heads = Some hs \<and> length hs = HASH_SLOTS
    \<and> taken_heads hs \<le> length long \<and> (\<forall>h \<in> set hs. head_ok long h)"
  using assms
proof (induction long start heads rule: heads_from.induct)
  case (1 long start heads)
  show ?case
  proof (cases "start < length long")
    case True
    let ?key = "first_three (long ! start)" let ?fin = "group_end long ?key (Suc start)"
    let ?h = "\<lparr>hd_key = ucast ?key, hd_first = of_nat start, hd_count = of_nat (?fin - start)\<rparr>"
    obtain slot where slot: "probe HASH_SLOTS (HASH_SLOTS - 1) (no_head_at heads) (hash_of ?key) = Some slot"
      using probe_no_head [of heads ?key] 1 True by auto
    have fin: "Suc start \<le> ?fin" "?fin \<le> length long"
      using group_end_ge group_end_le [of "Suc start" long] True by auto
    have "unat (of_nat start :: u16) = start" "unat (of_nat (?fin - start) :: u16) = ?fin - start"
      using fin 1(2) by (auto intro!: unat_u16_small simp: HASH_SLOTS_def simp del: of_nat_diff)
    then have "head_ok long ?h" using fin by (simp add: head_ok_def)
    moreover have "taken_heads (heads[slot := ?h]) \<le> Suc (taken_heads heads)"
      unfolding taken_heads_def by (rule filter_update_le)
    ultimately have "\<exists>hs. heads_from long ?fin (heads[slot := ?h]) = Some hs \<and> length hs = HASH_SLOTS
        \<and> taken_heads hs \<le> length long \<and> (\<forall>h \<in> set hs. head_ok long h)"
      using 1(2-6) fin by (intro 1(1) [OF True refl refl slot]) (auto dest: set_update_subset_insert [THEN subsetD])
    then show ?thesis using True slot by (subst heads_from.simps) (simp add: Let_def)
  next
    case False
    then show ?thesis using 1 by (subst heads_from.simps) simp
  qed
qed

definition lookup_ok :: "Symbol list \<Rightarrow> Lookup \<Rightarrow> bool" where
  "lookup_ok symbols l \<longleftrightarrow>
     single_ok symbols (lk_single l)
     \<and> (\<exists>pair. pair_ok symbols pair \<and> lk_short l = map (short_entry (lk_single l) pair) [0..<65536])
     \<and> (\<forall>sc \<in> set (lk_long l). coded symbols sc)
     \<and> length (lk_heads l) = HASH_SLOTS \<and> taken_heads (lk_heads l) < HASH_SLOTS
     \<and> (\<forall>h \<in> set (lk_heads l). head_ok (lk_long l) h)"

lemma coded_enumerate:
  assumes "length symbols \<le> MAX_SYMBOLS"
    and "sc \<in> set (map (\<lambda>(code, symbol). (symbol, of_nat code)) (enumerate 0 symbols))"
  shows "coded symbols sc"
proof -
  obtain i where i: "i < length symbols" "sc = (symbols ! i, of_nat i)"
    using assms(2) by (auto simp: in_set_enumerate_eq)
  then have "unat (of_nat i :: u8) = i" using assms(1) by (simp add: unat_of_nat MAX_SYMBOLS_def)
  with i show ?thesis by (simp add: coded_def)
qed

lemma Lookup_of_ok:
  assumes "length symbols \<le> MAX_SYMBOLS"
  shows "\<exists>l. Lookup_of symbols = Some l \<and> lookup_ok symbols l"
proof -
  let ?listed = "map (\<lambda>(code, symbol). (symbol, of_nat code :: u8)) (enumerate 0 symbols)"
  let ?order = "sort_key (\<lambda>(symbol, code). (- int (sy_len symbol), code)) ?listed"
  let ?init = "\<lparr>pl_single = replicate 256 ESCAPE, pl_pair = replicate 65536 (- 1),
               pl_placed = replicate HASH_SLOTS None, pl_long = []\<rparr>"
  let ?p = "foldl Lookup_place ?init ?order" let ?long = "sort_key first_three (pl_long ?p)"
  let ?none = "\<lparr>hd_key = NO_HEAD, hd_first = 0, hd_count = 0\<rparr>"
  have "placing_ok symbols ?init" by (simp add: placing_ok_def single_ok_def pair_ok_def)
  moreover have "placing_ok symbols (Lookup_place q x)" if "placing_ok symbols q" "x \<in> set ?order" for q x
    using that placing_ok_place [of symbols q x] coded_enumerate [OF assms, of x] by (simp only: set_sort)
  ultimately have p: "placing_ok symbols ?p" by (rule foldl_keeps [where P = "placing_ok symbols"])
  have "length ?long \<le> length symbols"
    using length_long_place [of ?init ?order] by (simp add: length_enumerate)
  then have long: "length ?long < HASH_SLOTS" using assms by (simp add: MAX_SYMBOLS_def HASH_SLOTS_def)
  obtain hs where "heads_from ?long 0 (replicate HASH_SLOTS ?none) = Some hs" "length hs = HASH_SLOTS"
      "taken_heads hs \<le> length ?long" "\<forall>h \<in> set hs. head_ok ?long h"
    using heads_from_ok [OF long, of "replicate HASH_SLOTS ?none" 0]
    by (auto simp: taken_heads_def head_ok_def)
  then show ?thesis using p long
    by (auto simp: Lookup_of_def Let_def lookup_ok_def placing_ok_def simp del: map_map)
qed

text \<open>What a match at a place of the input has to be for the output to be read back.\<close>

definition match_ok :: "Symbol list \<Rightarrow> bytes \<Rightarrow> nat \<Rightarrow> u8 \<times> nat \<Rightarrow> bool" where
  "match_ok symbols input at cl \<longleftrightarrow> (case cl of (code, len) \<Rightarrow>
     code = ESCAPE \<and> len = 1
     \<or> code \<noteq> ESCAPE \<and> unat code < length symbols \<and> len = sy_len (symbols ! unat code)
       \<and> at + len \<le> length input \<and> Symbol_bytes (symbols ! unat code) = slice input at (at + len))"

lemma coded_match_ok:
  assumes "table_ok symbols" and "coded symbols (s, c)" and "at < length input"
    and "sy_len s \<le> length input - at" and "load input at AND mask_of (sy_len s) = sy_value s"
  shows "match_ok symbols input at (c, sy_len s)"
proof -
  have s: "symbol_ok s" and c: "unat c < length symbols" "symbols ! unat c = s"
    using assms(1,2) by (auto simp: table_ok_def coded_def)
  have "unat c < 255" using c assms(1) by (simp add: table_ok_def MAX_SYMBOLS_def)
  then have "c \<noteq> ESCAPE" by (auto simp: ESCAPE_def)
  then show ?thesis using match_bytes [OF assms(3) s assms(4,5)] assms(3,4) c by (simp add: match_ok_def)
qed

lemma value_low:
  assumes "symbol_ok s" and "sy_len s = n" and "n < 8" and "unat (sy_value s AND m) = unat (w AND m)"
    and "mask_of n = m"
  shows "w AND mask_of (sy_len s) = sy_value s"
  using assms word_unat_eq_iff [of "sy_value s AND m" "w AND m"] by (auto simp: symbol_ok_def)

lemma unat_and_le: "unat (w AND m) \<le> unat m"
  by (simp add: word_and_le1 flip: word_le_nat_alt)

lemma short_parts:
  fixes c :: u8 and k :: u16
  assumes "k < 256"
  shows "ucast ((ucast c OR push_bit 8 k) AND 0xff) = c" and "drop_bit 8 (ucast c OR push_bit 8 k) = k"
proof -
  have m: "(0xff :: u16) = mask 8" by (simp add: mask_eq_exp_minus_1)
  show "ucast ((ucast c OR push_bit 8 k) AND 0xff) = c"
    unfolding m by (rule bit_word_eqI) (auto simp: bit_ucast_iff bit_and_iff bit_or_iff bit_push_bit_iff bit_mask_iff)
  have k: "take_bit 8 (unat k) = unat k" using assms by (simp add: take_bit_nat_eq_self_iff word_less_nat_alt)
  have "\<not> bit k i" if "8 \<le> i" for i
    using that arg_cong [OF k, of "\<lambda>n. bit n i"] by (simp add: bit_take_bit_iff bit_unsigned_iff)
  then show "drop_bit 8 (ucast c OR push_bit 8 k) = k"
    by (intro bit_word_eqI) (auto simp: bit_drop_bit_eq bit_or_iff bit_push_bit_iff bit_ucast_iff
        dest: bit_imp_le_length)
qed

lemma match_short_ok:
  assumes t: "table_ok symbols" and l: "lookup_ok symbols l" and at: "at < length input"
  shows "match_ok symbols input at (match_short l (load input at) (length input - at))"
proof -
  let ?w = "load input at"
  have m1: "mask_of 1 = 0xff" and m2: "mask_of 2 = 0xffff" by (simp_all add: mask_of_def)
  have index1: "unat (?w AND 0xff) < 256" and index2: "unat (?w AND 0xffff) < 65536"
    using unat_and_le [of ?w "0xff"] unat_and_le [of ?w "0xffff"] by simp_all
  have one: "match_ok symbols input at (lk_single l ! unat (?w AND 0xff), 1)"
  proof (cases "lk_single l ! unat (?w AND 0xff) = ESCAPE")
    case False
    then obtain s where s: "coded symbols (s, lk_single l ! unat (?w AND 0xff))" "sy_len s = 1"
        "unat (sy_value s AND 0xff) = unat (?w AND 0xff)"
      using l index1 unfolding lookup_ok_def single_ok_def by blast
    moreover have "symbol_ok s" using s(1) t by (auto simp: coded_def table_ok_def)
    ultimately show ?thesis
      using coded_match_ok [OF t s(1) at] value_low [of s 1 "0xff" ?w] m1 at by simp
  qed (simp add: match_ok_def)
  show ?thesis
  proof (cases "2 \<le> length input - at")
    case True
    obtain pair where pair: "pair_ok symbols pair" "lk_short l = map (short_entry (lk_single l) pair) [0..<65536]"
      using l by (auto simp: lookup_ok_def)
    let ?i = "unat (?w AND 0xffff)"
    have "unat (?w AND 0xffff) AND 0xff = unat (?w AND 0xff)" by (simp add: unsigned_and_eq and.assoc)
    then have entry: "lk_short l ! ?i = (if pair ! ?i = - 1 then ucast (lk_single l ! unat (?w AND 0xff)) OR push_bit 8 1
        else pair ! ?i OR push_bit 8 2)"
      using index2 pair(2) by (simp add: short_entry_def)
    show ?thesis
    proof (cases "pair ! ?i = - 1")
      case False
      then obtain s c where s: "coded symbols (s, c)" "pair ! ?i = ucast c" "sy_len s = 2"
          "unat (sy_value s AND 0xffff) = unat (?w AND 0xffff)"
        using pair(1) index2 unfolding pair_ok_def by blast
      moreover have "symbol_ok s" using s(1) t by (auto simp: coded_def table_ok_def)
      ultimately have "match_ok symbols input at (c, 2)"
        using coded_match_ok [OF t s(1) at] value_low [of s 2 "0xffff" ?w] m2 True by simp
      then show ?thesis using True False s(2) entry short_parts [of 2 c] by (simp add: match_short_def Let_def)
    qed (use True entry one short_parts [of 1 "lk_single l ! unat (?w AND 0xff)"] in \<open>simp add: match_short_def Let_def\<close>)
  next
    case False
    then show ?thesis using one by (simp add: match_short_def)
  qed
qed

lemma long_at_ok:
  assumes t: "table_ok symbols" and l: "lookup_ok symbols l" and at: "at < length input"
  shows "\<exists>r. long_at l (load input at) (length input - at) = Some r
    \<and> (\<forall>cl. r = Some cl \<longrightarrow> match_ok symbols input at cl)"
proof -
  let ?w = "load input at" let ?rem = "length input - at"
  have heads: "length (lk_heads l) = HASH_SLOTS" "taken_heads (lk_heads l) < HASH_SLOTS"
      "\<forall>h \<in> set (lk_heads l). head_ok (lk_long l) h"
    using l by (simp_all add: lookup_ok_def)
  then obtain j where "j < HASH_SLOTS" "hd_key (lk_heads l ! j) = NO_HEAD"
    using filter_short_ex [of "\<lambda>h. hd_key h \<noteq> NO_HEAD" "lk_heads l"] by (auto simp: taken_heads_def)
  then have "j < HASH_SLOTS" "long_here l ?w ?rem j \<noteq> None" by (simp_all add: long_here_def Let_def)
  then obtain r where r: "probe HASH_SLOTS (HASH_SLOTS - 1) (long_here l ?w ?rem) (hash_of ?w) = Some r"
    using probe_complete [of "long_here l ?w ?rem" j 10 "hash_of ?w"] hash_of_less
    unfolding HASH_SLOTS_pow by auto
  then obtain k where k: "k < HASH_SLOTS" "long_here l ?w ?rem k = Some r"
    using probe_Some [of HASH_SLOTS 10 "long_here l ?w ?rem" "hash_of ?w" r] hash_of_less
    unfolding HASH_SLOTS_pow by auto
  have key: "(ucast (?w AND 0xffffff) :: u32) \<noteq> NO_HEAD"
  proof
    assume "(ucast (?w AND 0xffffff) :: u32) = NO_HEAD"
    then have "bit (ucast (?w AND 0xffffff) :: u32) 31" by (simp add: NO_HEAD_def)
    moreover have "(0xffffff :: u64) = mask 24" by (simp add: mask_eq_exp_minus_1)
    ultimately show False by (simp add: bit_ucast_iff bit_and_iff bit_mask_iff)
  qed
  have "\<exists>q. r = Some q \<and> (\<forall>cl. q = Some cl \<longrightarrow> match_ok symbols input at cl)"
  proof (cases "hd_key (lk_heads l ! k) = ucast (?w AND 0xffffff)")
    case True
    then have "head_ok (lk_long l) (lk_heads l ! k)" using heads k(1) by simp
    then obtain group where g: "group_at l (lk_heads l ! k) = Some group" "set group \<subseteq> set (lk_long l)"
      using True key by (auto simp: head_ok_def group_at_def get_range_def slice_def
          dest!: in_set_takeD in_set_dropD)
    have "match_ok symbols input at (snd sc, sy_len (fst sc))" if "find (symbol_matches ?w ?rem) group = Some sc" for sc
    proof -
      have "symbol_matches ?w ?rem sc" "sc \<in> set group" using that by (auto simp: find_Some_iff)
      then show ?thesis
        using coded_match_ok [OF t _ at, of "fst sc" "snd sc"] g(2) l
        by (auto simp: symbol_matches_def Symbol_mask_def lookup_ok_def)
    qed
    then show ?thesis using k(2) True g(1) by (auto simp: long_here_def Let_def)
  next
    case False
    then show ?thesis using k(2) by (auto simp: long_here_def Let_def split: if_splits)
  qed
  then show ?thesis using r by (auto simp: long_at_def)
qed

lemma match_at_ok:
  assumes "table_ok symbols" and "lookup_ok symbols l" and "at < length input"
  shows "\<exists>cl. match_at l input at = Some cl \<and> match_ok symbols input at cl"
proof -
  obtain r where r: "long_at l (load input at) (length input - at) = Some r"
      "\<forall>cl. r = Some cl \<longrightarrow> match_ok symbols input at cl"
    using long_at_ok [OF assms] by blast
  then show ?thesis using match_short_ok [OF assms]
    by (cases r) (simp_all add: match_at_def Let_def del: split_paired_Ex)
qed

section \<open>Reading back what was compressed\<close>

lemma Symbol_bytes_le: "Symbol_bytes s = le_bytes (sy_len s) (sy_value s)"
  by (simp add: Symbol_bytes_def le_bytes_def)

lemma take_le_bytes: "m \<le> n \<Longrightarrow> take m (le_bytes n w) = le_bytes m w"
  by (simp add: le_bytes_def take_map)

lemma decompress_code:
  assumes "c \<noteq> ESCAPE" and "unat c < length (st_symbols t)" and "sy_len (st_symbols t ! unat c) \<le> 8"
  shows "decompress t (c # codes) out = decompress t codes (out @ Symbol_bytes (st_symbols t ! unat c))"
  using assms by (simp add: Let_def MAX_SYMBOL_LEN_def Symbol_bytes_le take_le_bytes)

lemma compress_loop_read_back:
  assumes t: "table_ok (st_symbols t)" and l: "lookup_ok (st_symbols t) l"
  shows "\<exists>codes. (\<forall>out. compress_loop l input at out = Some (out @ codes))
    \<and> (\<forall>out. decompress t codes out = Inr (out @ drop at input))"
proof (induction "length input - at" arbitrary: at rule: less_induct)
  case less
  show ?case
  proof (cases "at < length input")
    case False
    then show ?thesis by (subst compress_loop.simps) (auto intro!: exI [of _ "[]"])
  next
    case True
    obtain c len where m: "match_at l input at = Some (c, len)" "match_ok (st_symbols t) input at (c, len)"
      using match_at_ok [OF t l True] by auto
    have len: "0 < len" using m(2) table_nth [OF t] by (fastforce simp: match_ok_def symbol_ok_def)
    then have "length input - (at + len) < length input - at" using True by simp
    from less [OF this] obtain codes where codes: "\<And>out. compress_loop l input (at + len) out = Some (out @ codes)"
        "\<And>out. decompress t codes out = Inr (out @ drop (at + len) input)"
      by blast
    have step: "compress_loop l input at out
        = compress_loop l input (at + len) (if c = ESCAPE then out @ [ESCAPE, input ! at] else out @ [c])" for out
      using True m(1) by (subst compress_loop.simps) simp
    show ?thesis
    proof (cases "c = ESCAPE")
      case esc: True
      then have "len = 1" using m(2) by (simp add: match_ok_def)
      then have "drop at input = input ! at # drop (at + len) input" using True by (simp add: Cons_nth_drop_Suc)
      then have "decompress t (ESCAPE # input ! at # codes) out = Inr (out @ drop at input)" for out
        using codes(2) by simp
      then show ?thesis using step codes(1) esc by (intro exI [of _ "ESCAPE # input ! at # codes"]) simp
    next
      case False
      then have c: "unat c < length (st_symbols t)" "Symbol_bytes (st_symbols t ! unat c) = slice input at (at + len)"
          "sy_len (st_symbols t ! unat c) \<le> 8"
        using m(2) table_nth [OF t] by (auto simp: match_ok_def symbol_ok_def)
      have "slice input at (at + len) @ drop (at + len) input = drop at input"
        by (simp add: slice_def) (metis append_take_drop_id drop_drop add.commute)
      then have "decompress t (c # codes) out = Inr (out @ drop at input)" for out
        using decompress_code [OF False c(1,3)] codes(2) c(2) by simp
      then show ?thesis using step codes(1) False by (intro exI [of _ "c # codes"]) simp
    qed
  qed
qed

lemma compress_read_back:
  assumes "table_ok (st_symbols t)"
  shows "\<exists>codes. compress t input out = Some (out @ codes) \<and> (\<forall>to. decompress t codes to = Inr (to @ input))"
proof -
  obtain l where l: "Lookup_of (st_symbols t) = Some l" "lookup_ok (st_symbols t) l"
    using Lookup_of_ok assms by (auto simp: table_ok_def)
  then show ?thesis using compress_loop_read_back [OF assms l(2), of input 0] by (auto simp: compress_def)
qed

section \<open>Reading a table back\<close>

lemma le_word_and_mask: "length bs \<le> n \<Longrightarrow> le_word bs AND mask_of n = le_word bs"
proof (rule bit_word_eqI)
  fix i assume "i < LENGTH(64)" and "length bs \<le> n"
  then show "bit (le_word bs AND mask_of n) i = bit (le_word bs :: u64) i"
    by (auto simp: bit_and_iff bit_mask_of bit_le_word)
qed

lemma symbol_ok_new: "1 \<le> length bs \<Longrightarrow> length bs \<le> 8 \<Longrightarrow> symbol_ok (Symbol_new bs)"
  by (simp add: symbol_ok_def Symbol_new_value le_word_and_mask)

lemma le_word_le_bytes_mask: "n \<le> 8 \<Longrightarrow> le_word (le_bytes n v) = v AND mask_of n"
proof (rule bit_word_eqI)
  fix i assume "i < LENGTH(64)" and "n \<le> 8"
  then show "bit (le_word (le_bytes n v) :: u64) i = bit (v AND mask_of n) i"
    by (auto simp: bit_le_word nth_le_bytes bit_ucast_iff bit_drop_bit_eq bit_and_iff bit_mask_of)
qed

lemma Symbol_new_bytes: "symbol_ok s \<Longrightarrow> Symbol_new (Symbol_bytes s) = s"
  by (cases s) (simp add: symbol_ok_def Symbol_new_def Let_def foldl_or_byte Symbol_bytes_le
      MAX_SYMBOL_LEN_def le_word_le_bytes_mask)

definition symbol_image :: "Symbol \<Rightarrow> bytes" where
  "symbol_image s = of_nat (sy_len s) # Symbol_bytes s"

lemma foldl_symbol_image:
  "foldl (\<lambda>out symbol. out @ [of_nat (sy_len symbol)] @ Symbol_bytes symbol) out ss = out @ concat (map symbol_image ss)"
  by (induction ss arbitrary: out) (simp_all add: symbol_image_def)

lemma serialize_image: "serialize t out = out @ of_nat (length (st_symbols t)) # concat (map symbol_image (st_symbols t))"
  unfolding serialize_def foldl_symbol_image by simp

lemma length_symbol_image [simp]: "length (symbol_image s) = 1 + sy_len s"
  by (simp add: symbol_image_def Symbol_bytes_le)

lemma read_symbols_image:
  assumes "\<forall>s \<in> set ss. symbol_ok s"
  shows "read_symbols (length ss) (pre @ concat (map symbol_image ss) @ rest) (length pre) acc
    = Inr (acc @ ss, length pre + length (concat (map symbol_image ss)))"
  using assms
proof (induction ss arbitrary: pre acc)
  case (Cons s ss)
  let ?bs = "pre @ symbol_image s @ concat (map symbol_image ss) @ rest"
  have s: "symbol_ok s" using Cons.prems by simp
  then have at: "unat (?bs ! length pre) = sy_len s"
    by (simp add: symbol_image_def symbol_ok_def nth_append unat_of_nat)
  have "slice ?bs (length pre + 1) (length pre + 1 + sy_len s) = Symbol_bytes s"
    by (simp add: slice_append_right symbol_image_def slice_def Symbol_bytes_le)
  then have "read_symbols (Suc (length ss)) ?bs (length pre) acc
      = read_symbols (length ss) ?bs (length pre + 1 + sy_len s) (acc @ [s])"
    using s at Symbol_new_bytes [OF s] by (simp add: symbol_ok_def MAX_SYMBOL_LEN_def Let_def)
  also have "\<dots> = Inr ((acc @ [s]) @ ss, length pre + 1 + sy_len s + length (concat (map symbol_image ss)))"
    using Cons.IH [of "pre @ symbol_image s" "acc @ [s]"] Cons.prems by (simp add: add.assoc)
  finally show ?case by (simp add: add.assoc)
qed simp

lemma deserialize_serialize:
  assumes "table_ok ss"
  shows "deserialize (serialize (SymbolTable_build ss) [] @ rest)
    = Inr (SymbolTable_build ss, serialized_len (SymbolTable_build ss))"
proof -
  have n: "unat (of_nat (length ss) :: u8) = length ss"
    using assms by (simp add: table_ok_def MAX_SYMBOLS_def unat_of_nat)
  have "length (concat (map symbol_image ss)) = sum_list (map (\<lambda>s. Suc (sy_len s)) ss)"
    by (induction ss) simp_all
  then show ?thesis using read_symbols_image [of ss "[of_nat (length ss)]" rest "[]"] assms n
    by (simp add: deserialize_def serialize_image SymbolTable_build_def serialized_len_def table_ok_def)
qed

lemma read_symbols_ok:
  "read_symbols n bs at acc = Inr (ss, fin) \<Longrightarrow> \<forall>s \<in> set acc. symbol_ok s \<Longrightarrow>
     (\<forall>s \<in> set ss. symbol_ok s) \<and> length ss = length acc + n"
proof (induction n bs at acc rule: read_symbols.induct)
  case (2 n bs at symbols)
  then show ?case
    by (auto simp: Let_def MAX_SYMBOL_LEN_def symbol_ok_new split: if_splits)
qed simp

lemma deserialize_ok:
  assumes "deserialize bs = Inr (t, n)"
  shows "table_ok (st_symbols t)" and "t = SymbolTable_build (st_symbols t)"
proof -
  obtain c cs ss where c: "bs = c # cs" "read_symbols (unat c) bs 1 [] = Inr (ss, n)" "t = SymbolTable_build ss"
    using assms by (auto simp: deserialize_def split: list.splits sum.splits)
  then show "table_ok (st_symbols t)" "t = SymbolTable_build (st_symbols t)"
    using read_symbols_ok [OF c(2)] unsigned_less [of c, where 'a = nat]
    by (auto simp: table_ok_def MAX_SYMBOLS_def SymbolTable_build_def)
qed

section \<open>Decompressing in place\<close>

lemma foldl_decode_entry:
  assumes "length (de_values d) = 256" and "length (de_lens d) = 256" and "k + length ss \<le> 256" and "i < 256"
  shows "de_values (foldl decode_entry d (enumerate k ss)) ! i
      = (if k \<le> i \<and> i < k + length ss then sy_value (ss ! (i - k)) else de_values d ! i)
    \<and> de_lens (foldl decode_entry d (enumerate k ss)) ! i
      = (if k \<le> i \<and> i < k + length ss then sy_len (ss ! (i - k)) else de_lens d ! i)"
  using assms
proof (induction ss arbitrary: d k)
  case (Cons s ss)
  let ?d = "decode_entry d (k, s)"
  have d: "de_values ?d = (de_values d)[k := sy_value s]" "de_lens ?d = (de_lens d)[k := sy_len s]"
    by (simp_all add: decode_entry_def)
  then show ?case using Cons.IH [of ?d "Suc k"] Cons.prems by (cases "i = k") (auto simp: nth_Cons')
qed auto

lemma Decode_of_nth:
  fixes c :: u8
  assumes "table_ok ss"
  shows "de_values (Decode_of ss) ! unat c = (if unat c < length ss then sy_value (ss ! unat c) else 0)"
    and "de_lens (Decode_of ss) ! unat c = (if unat c < length ss then sy_len (ss ! unat c) else 0)"
proof -
  have "unat c < 256" using unsigned_less [of c, where 'a = nat] by simp
  moreover have "take MAX_SYMBOLS (enumerate 0 ss) = enumerate 0 ss"
    using assms by (simp add: table_ok_def length_enumerate)
  ultimately show "de_values (Decode_of ss) ! unat c = (if unat c < length ss then sy_value (ss ! unat c) else 0)"
    "de_lens (Decode_of ss) ! unat c = (if unat c < length ss then sy_len (ss ! unat c) else 0)"
    using foldl_decode_entry [of "\<lparr>de_values = replicate 256 0, de_lens = replicate 256 0\<rparr>" 0 ss "unat c"] assms
    by (simp_all add: Decode_of_def table_ok_def MAX_SYMBOLS_def)
qed

lemma table_escape:
  assumes "table_ok ss"
  shows "\<not> unat ESCAPE < length ss"
  using assms by (simp add: table_ok_def MAX_SYMBOLS_def ESCAPE_def)

text \<open>
  A step of the fast loop: an escape is known by its length of zero, which no symbol has, so the loop
  takes the branches \<open>decompress\<close> takes.
\<close>

lemma decompress_fast_code:
  assumes "table_ok ss" and "c \<noteq> ESCAPE"
  shows "decompress_fast (Decode_of ss) lst (c # codes) out at =
     (if \<not> unat c < length ss then (Inl (Not_in_table c), out)
      else if lst < at then (Inl Out_of_room, out)
      else decompress_fast (Decode_of ss) lst codes (copy_at out at (le_bytes 8 (sy_value (ss ! unat c))))
             (at + sy_len (ss ! unat c)))"
  using Decode_of_nth [OF assms(1), of c] table_nth [OF assms(1), of "unat c"] assms(2)
  by (auto simp: Let_def symbol_ok_def)

lemma decompress_fast_escape:
  assumes "table_ok ss"
  shows "decompress_fast (Decode_of ss) lst (ESCAPE # codes) out at =
     (case codes of [] \<Rightarrow> (Inl Truncated, out)
      | b # codes \<Rightarrow> if at < length out then decompress_fast (Decode_of ss) lst codes (out[at := b]) (at + 1)
                     else (Inl Out_of_room, out))"
  using Decode_of_nth [OF assms, of ESCAPE] table_escape [OF assms] by (simp add: Let_def)

declare decompress_fast.simps(2) [simp del]

text \<open>The bytes a list of codes stands for, and what a decoder has done when it wrote them at \<open>at\<close>.\<close>

fun expand :: "Symbol list \<Rightarrow> bytes \<Rightarrow> fsst_error + bytes" where
  "expand symbols [] = Inr []"
| "expand symbols (code # codes) =
     (if code = ESCAPE then
        (case codes of [] \<Rightarrow> Inl Truncated | literal # codes \<Rightarrow> map_sum id (Cons literal) (expand symbols codes))
      else if unat code < length symbols
      then map_sum id (append (Symbol_bytes (symbols ! unat code))) (expand symbols codes)
      else Inl (Not_in_table code))"

definition wrote :: "bytes \<Rightarrow> nat \<Rightarrow> bytes \<Rightarrow> (fsst_error + nat) \<times> bytes \<Rightarrow> bool" where
  "wrote out at s r \<longleftrightarrow>
     (\<exists>out'. r = (Inr (at + length s), out') \<and> length out' = length out \<and> take (at + length s) out' = take at out @ s)"

lemma decompress_expand:
  "table_ok (st_symbols t) \<Longrightarrow> decompress t codes out = map_sum id (append out) (expand (st_symbols t) codes)"
proof (induction t codes out rule: decompress.induct)
  case (2 t c codes out)
  show ?case
  proof (cases "c = ESCAPE")
    case True
    then show ?thesis using 2 by (cases codes) (simp_all add: sum.map_comp o_def)
  next
    case False
    then show ?thesis
      using 2(2) [OF False _ refl refl] 2(3) table_nth [OF 2(3), of "unat c"]
      by (cases "unat c < length (st_symbols t)")
        (simp_all add: decompress_code symbol_ok_def sum.map_comp o_def Let_def MAX_SYMBOL_LEN_def
          Symbol_bytes_le take_le_bytes)
  qed
qed simp

lemma decompress_expand_Nil:
  "table_ok (st_symbols t) \<Longrightarrow> decompress t codes [] = expand (st_symbols t) codes"
  by (cases "expand (st_symbols t) codes") (simp_all add: decompress_expand)

lemma wrote_literal:
  assumes "wrote (out[at := b]) (Suc at) u r" and "at < length out"
  shows "wrote out at (b # u) r"
  using assms by (auto simp: wrote_def take_Suc_conv_app_nth)

lemma wrote_symbol:
  assumes "wrote (copy_at out at (le_bytes 8 v)) (at + n) u r" and "at + 8 \<le> length out" and "n \<le> 8"
  shows "wrote out at (le_bytes n v @ u) r"
proof -
  have "take (at + n) (copy_at out at (le_bytes 8 v)) = take at out @ le_bytes n v"
    using assms(2,3) by (simp add: copy_at_def take_le_bytes)
  then show ?thesis using assms by (auto simp: wrote_def length_copy_at add.assoc)
qed

definition tells :: "fsst_error + bytes \<Rightarrow> bytes \<Rightarrow> nat \<Rightarrow> (fsst_error + nat) \<times> bytes \<Rightarrow> bool" where
  "tells answer out at r \<longleftrightarrow>
     (case answer of
        Inr s \<Rightarrow> wrote out at s r \<or> fst r = Inl Out_of_room \<and> length out < at + length s + 8
      | Inl e \<Rightarrow> fst r = Inl e \<or> fst r = Inl Out_of_room)"

lemma tells_literal:
  "tells answer (out[at := b]) (Suc at) r \<Longrightarrow> at < length out \<Longrightarrow> tells (map_sum id (Cons b) answer) out at r"
  by (cases answer) (auto simp: tells_def dest: wrote_literal)

lemma tells_symbol:
  "tells answer (copy_at out at (le_bytes 8 v)) (at + n) r \<Longrightarrow> at + 8 \<le> length out \<Longrightarrow> n \<le> 8 \<Longrightarrow>
     tells (map_sum id (append (le_bytes n v)) answer) out at r"
  by (cases answer) (auto simp: tells_def length_copy_at dest: wrote_symbol)

lemma tells_no_room:
  "length out < at + 8 \<Longrightarrow> tells answer out at (Inl Out_of_room, out')"
  by (cases answer) (auto simp: tells_def)

lemma decompress_fast_tells:
  "table_ok symbols \<Longrightarrow> 8 \<le> length out \<Longrightarrow>
     tells (expand symbols codes) out at (decompress_fast (Decode_of symbols) (length out - 8) codes out at)"
proof (induction symbols codes arbitrary: out at rule: expand.induct)
  case (1 symbols)
  then show ?case by (simp add: tells_def wrote_def)
next
  case (2 symbols c codes)
  show ?case
  proof (cases "c = ESCAPE")
    case True
    show ?thesis
    proof (cases codes)
      case Nil
      then show ?thesis using True 2(3) by (simp add: decompress_fast_escape tells_def)
    next
      case (Cons b bs)
      have "tells (expand symbols bs) (out[at := b]) (Suc at)
          (decompress_fast (Decode_of symbols) (length out - 8) bs (out[at := b]) (Suc at))"
        using 2(1) [OF True Cons, of "out[at := b]" "Suc at"] 2(3,4) by simp
      then show ?thesis using True Cons 2(3) tells_literal tells_no_room
        by (simp add: decompress_fast_escape)
    qed
  next
    case False
    show ?thesis
    proof (cases "unat c < length symbols")
      case c: True
      let ?out = "copy_at out at (le_bytes 8 (sy_value (symbols ! unat c)))" let ?n = "sy_len (symbols ! unat c)"
      have n: "?n \<le> 8" using table_nth [OF 2(3) c] by (simp add: symbol_ok_def)
      show ?thesis
      proof (cases "at + 8 \<le> length out")
        case True
        then have "length ?out = length out" by (simp add: length_copy_at)
        then have "tells (expand symbols codes) ?out (at + ?n)
            (decompress_fast (Decode_of symbols) (length out - 8) codes ?out (at + ?n))"
          using 2(2) [OF False c, of ?out "at + ?n"] 2(3,4) by simp
        moreover have "\<not> length out - 8 < at" using True by linarith
        ultimately show ?thesis using tells_symbol [OF _ True n] False c 2(3)
          by (simp add: decompress_fast_code Symbol_bytes_le)
      next
        case no: False
        then have "length out - 8 < at" using 2(4) by linarith
        then show ?thesis using no False c 2(3) by (simp add: decompress_fast_code tells_no_room)
      qed
    next
      case no: False
      then show ?thesis using False 2(3) by (simp add: decompress_fast_code tells_def)
    qed
  qed
qed

lemma decompress_near_end_tells:
  "table_ok (st_symbols t) \<Longrightarrow> length out < 8 \<Longrightarrow>
     tells (expand (st_symbols t) codes) out at (decompress_near_end t codes out at)"
proof (induction t codes out at rule: decompress_near_end.induct)
  case (1 t out at)
  then show ?case by (simp add: tells_def wrote_def)
next
  case (2 t c codes out at)
  show ?case
  proof (cases "c = ESCAPE")
    case True
    show ?thesis
    proof (cases codes)
      case Nil
      then show ?thesis using True by (simp add: tells_def)
    next
      case (Cons b bs)
      then show ?thesis using True 2(1) [OF True Cons] 2(3,4) tells_literal tells_no_room by simp
    qed
  next
    case False
    then show ?thesis using 2(4) by (simp add: Let_def MAX_SYMBOL_LEN_def tells_no_room) (simp add: tells_def)
  qed
qed

lemma decompress_at_tells:
  assumes "table_ok symbols"
  shows "tells (decompress (SymbolTable_build symbols) codes []) out at (decompress_at (SymbolTable_build symbols) codes out at)"
proof -
  have "decompress (SymbolTable_build symbols) codes [] = expand symbols codes"
    using decompress_expand_Nil [of "SymbolTable_build symbols" codes] assms by (simp add: SymbolTable_build_def)
  then show ?thesis
    using decompress_fast_tells [OF assms, of out codes at]
      decompress_near_end_tells [of "SymbolTable_build symbols" out codes at] assms
    by (simp add: decompress_at_def MAX_SYMBOL_LEN_def SymbolTable_build_def)
qed


definition http_table :: SymbolTable where
  "http_table = SymbolTable_build [Symbol_new [104, 116, 116, 112]]"

lemma http_decompressed: "decompress http_table [0, 255, 58] [] = Inr [104, 116, 116, 112, 58]"
  by code_simp

lemma http_table_ok: "table_ok [Symbol_new [104, 116, 116, 112]]"
  by (simp add: table_ok_def MAX_SYMBOLS_def symbol_ok_new)


end
