(* ===== verification/FsstTrain.thy ===== *)
theory FsstTrain
  imports Fsst
begin

text \<open>
  Training a symbol table: \<open>Gains\<close>, \<open>Counts\<close> and \<open>SymbolTable::train\<close> of \<open>rudb-vector/src/fsst.rs\<close>.

  A generation compresses the samples with the table so far, counts symbols and pairs, and makes the
  best of them the next table. The counts belong to the thread and are used again by its next
  training; \<open>held\<close> is what the thread has, \<open>None\<close> before its first. Counters wrap as they do in a
  release build. A search of the table of candidates that would not end is \<open>None\<close>.
\<close>

unbundle bit_operations_syntax

section \<open>The candidates\<close>

definition GENERATIONS :: nat where "GENERATIONS = 5"
definition IDS :: nat where "IDS = 512"
definition SINGLE_BYTE_BOOST :: u64 where "SINGLE_BYTE_BOOST = 8"

record Gains =
  ga_gains :: "(Symbol \<times> u64) list"
  ga_places :: "u32 list"
  ga_taken :: "u32 list"

definition Gains_default :: Gains where
  "Gains_default = \<lparr>ga_gains = [], ga_places = [], ga_taken = []\<rparr>"

text \<open>\<open>usize::next_power_of_two\<close>.\<close>

definition next_power_of_two :: "nat \<Rightarrow> nat" where
  "next_power_of_two n = 2 ^ length (takeWhile (\<lambda>k. 2 ^ k < n) [0..<n])"

definition Gains_clear :: "nat \<Rightarrow> Gains \<Rightarrow> Gains" where
  "Gains_clear most g =
     (let places = foldl (\<lambda>places place. places[unat place := - 1]) (ga_places g) (ga_taken g);
          wanted = next_power_of_two (most * 2)
      in \<lparr>ga_gains = [], ga_places = (if length places < wanted then replicate wanted (- 1) else places),
          ga_taken = []\<rparr>)"

definition gain_hash :: "Symbol \<Rightarrow> nat" where
  "gain_hash s = unat (drop_bit 32 ((sy_value s XOR of_nat (sy_len s)) * 0x9e3779b97f4a7c15))"

text \<open>A round of the search in \<open>add\<close>: an empty place, or where the symbol is in the list.\<close>

definition place_of :: "Gains \<Rightarrow> Symbol \<Rightarrow> nat \<Rightarrow> (nat + nat) option" where
  "place_of g symbol place =
     (let at = ga_places g ! place in
      if at = - 1 then Some (Inl place)
      else if fst (ga_gains g ! unat at) = symbol then Some (Inr (unat at))
      else None)"

definition Gains_add :: "Symbol \<times> u64 \<Rightarrow> Gains \<Rightarrow> Gains option" where
  "Gains_add sc g =
     (case sc of (symbol, uses) \<Rightarrow>
        (let gain = uses * of_nat (sy_len symbol);
             wrap = length (ga_places g) - 1
         in case probe (length (ga_places g)) wrap (place_of g symbol) (gain_hash symbol AND wrap) of
              None \<Rightarrow> None
            | Some (Inl place) \<Rightarrow>
                Some (g\<lparr>ga_places := (ga_places g)[place := of_nat (length (ga_gains g))],
                        ga_taken := ga_taken g @ [of_nat place], ga_gains := ga_gains g @ [(symbol, gain)]\<rparr>)
            | Some (Inr at) \<Rightarrow>
                Some (g\<lparr>ga_gains := (ga_gains g)[at := (fst (ga_gains g ! at), snd (ga_gains g ! at) + gain)]\<rparr>)))"

fun add_all :: "(Symbol \<times> u64) list \<Rightarrow> Gains \<Rightarrow> Gains option" where
  "add_all [] g = Some g"
| "add_all (sc # scs) g = Option.bind (Gains_add sc g) (add_all scs)"

section \<open>Counting\<close>

record Counts =
  ct_single :: "u32 list"
  ct_pairs :: "u32 list"
  ct_seen :: "u32 list"
  ct_gains :: Gains

definition Counts_new :: Counts where
  "Counts_new = \<lparr>ct_single = replicate IDS 0, ct_pairs = replicate (IDS * IDS) 0, ct_seen = [], ct_gains = Gains_default\<rparr>"

definition Counts_clear :: "Counts \<Rightarrow> Counts" where
  "Counts_clear c =
     c\<lparr>ct_single := replicate (length (ct_single c)) 0,
       ct_pairs := foldl (\<lambda>pairs slot. pairs[unat slot := 0]) (ct_pairs c) (ct_seen c), ct_seen := []\<rparr>"

definition Counts_one :: "nat \<Rightarrow> Counts \<Rightarrow> Counts" where
  "Counts_one ident c = c\<lparr>ct_single := (ct_single c)[ident := ct_single c ! ident + 1]\<rparr>"

definition Counts_two :: "nat \<Rightarrow> nat \<Rightarrow> Counts \<Rightarrow> Counts" where
  "Counts_two first second c =
     (let slot = first * IDS + second;
          c = (if ct_pairs c ! slot = 0 then c\<lparr>ct_seen := ct_seen c @ [of_nat slot]\<rparr> else c)
      in c\<lparr>ct_pairs := (ct_pairs c)[slot := ct_pairs c ! slot + 1]\<rparr>)"

definition symbol_of :: "Symbol list \<Rightarrow> nat \<Rightarrow> Symbol" where
  "symbol_of symbols ident = (if ident < length symbols then symbols ! ident else Symbol_single (of_nat (ident - 256)))"

definition candidates :: "Symbol list \<Rightarrow> Counts \<Rightarrow> (Symbol \<times> u64) list" where
  "candidates symbols c =
     map (\<lambda>(ident, uses).
            (let symbol = symbol_of symbols ident
             in (symbol, (if sy_len symbol = 1 then SINGLE_BYTE_BOOST else 1) * ucast uses)))
       (filter (\<lambda>(ident, uses). uses \<noteq> 0) (enumerate 0 (ct_single c)))
     @ map (\<lambda>slot.
            (Symbol_concat (symbol_of symbols (unat slot div IDS)) (symbol_of symbols (unat slot mod IDS)),
             ucast (ct_pairs c ! unat slot)))
       (ct_seen c)"

text \<open>
  Selecting the first 255 of the order and sorting them is the start of the sorted list: the order is
  total on distinct symbols.
\<close>

definition ranked :: "(Symbol \<times> u64) list \<Rightarrow> (Symbol \<times> u64) list" where
  "ranked gains =
     take MAX_SYMBOLS (sort_key (\<lambda>(symbol, gain). (- uint gain, sy_value symbol, sy_len symbol)) gains)"

definition Counts_best :: "Symbol list \<Rightarrow> Counts \<Rightarrow> (Symbol list \<times> Counts) option" where
  "Counts_best symbols c =
     map_option (\<lambda>g. (map fst (ranked (ga_gains g)), c\<lparr>ct_gains := g\<lparr>ga_gains := ranked (ga_gains g)\<rparr>\<rparr>))
       (add_all (candidates symbols c) (Gains_clear (IDS + length (ct_seen c)) (ct_gains c)))"

section \<open>Generations\<close>

partial_function (option) count_loop ::
  "Lookup \<Rightarrow> bytes \<Rightarrow> nat \<Rightarrow> nat option \<Rightarrow> Counts \<Rightarrow> Counts option" where
  "count_loop l input at previous c =
     (if at < length input then
        (case match_at l input at of
           None \<Rightarrow> None
         | Some (code, len) \<Rightarrow>
             (let ident = (if code = ESCAPE then 256 + unat (input ! at) else unat code);
                  c = Counts_one ident c;
                  c = (case previous of Some p \<Rightarrow> Counts_two p ident c | None \<Rightarrow> c)
              in count_loop l input (at + len) (Some ident) c))
      else Some c)"

definition SymbolTable_count :: "SymbolTable \<Rightarrow> bytes \<Rightarrow> Counts \<Rightarrow> Counts option" where
  "SymbolTable_count t input c =
     (case Lookup_of (st_symbols t) of None \<Rightarrow> None | Some l \<Rightarrow> count_loop l input 0 None c)"

fun count_each :: "SymbolTable \<Rightarrow> bytes list \<Rightarrow> Counts \<Rightarrow> Counts option" where
  "count_each t [] c = Some c"
| "count_each t (sample # samples) c = Option.bind (SymbolTable_count t sample c) (count_each t samples)"

fun generations :: "nat \<Rightarrow> bytes list \<Rightarrow> SymbolTable \<Rightarrow> Counts \<Rightarrow> (SymbolTable \<times> Counts) option" where
  "generations 0 samples t c = Some (t, c)"
| "generations (Suc n) samples t c =
     (case Option.bind (count_each t samples (Counts_clear c)) (Counts_best (st_symbols t)) of
        None \<Rightarrow> None
      | Some (symbols, c) \<Rightarrow>
          if symbols = [] then Some (t, c) else generations n samples (SymbolTable_build symbols) c)"

definition train_with :: "bytes list \<Rightarrow> Counts \<Rightarrow> (SymbolTable \<times> Counts) option" where
  "train_with samples c = generations GENERATIONS samples SymbolTable_empty c"

definition SymbolTable_train :: "bytes list \<Rightarrow> Counts option \<Rightarrow> (SymbolTable \<times> Counts) option" where
  "SymbolTable_train samples held = train_with samples (case held of Some c \<Rightarrow> c | None \<Rightarrow> Counts_new)"

section \<open>The table of candidates is a list of totals\<close>

text \<open>What adding a candidate means: its gain goes to the entry of its symbol, or it is a new entry.\<close>

fun tally :: "Symbol \<Rightarrow> u64 \<Rightarrow> (Symbol \<times> u64) list \<Rightarrow> (Symbol \<times> u64) list" where
  "tally s gain [] = [(s, gain)]"
| "tally s gain ((t, h) # rest) = (if t = s then (t, h + gain) # rest else (t, h) # tally s gain rest)"

lemma tally_new: "s \<notin> fst ` set xs \<Longrightarrow> tally s gain xs = xs @ [(s, gain)]"
  by (induction xs) auto

lemma tally_old:
  "distinct (map fst xs) \<Longrightarrow> i < length xs \<Longrightarrow>
     tally (fst (xs ! i)) gain xs = xs[i := (fst (xs ! i), snd (xs ! i) + gain)]"
proof (induction xs arbitrary: i)
  case (Cons x xs)
  moreover have "fst (xs ! j) \<noteq> fst x" if "j < length xs" for j
    using Cons.prems(1) that by (metis distinct.simps(2) image_eqI list.set_map list.simps(9) nth_mem)
  ultimately show ?case by (cases x; cases i) auto
qed simp

lemma length_tally: "length (tally s gain xs) \<le> Suc (length xs)"
  by (induction s gain xs rule: tally.induct) simp_all

lemma fst_tally: "fst ` set (tally s gain xs) = insert s (fst ` set xs)"
  by (induction s gain xs rule: tally.induct) auto

text \<open>
  An entry is reached when the places from its symbol's hash up to the one that names it are all
  taken, so a search for the symbol does not stop before.
\<close>

definition reached :: "u32 list \<Rightarrow> Symbol \<Rightarrow> nat \<Rightarrow> bool" where
  "reached places s i \<longleftrightarrow>
     (\<exists>n < length places. places ! ((gain_hash s + n) mod length places) = of_nat i
        \<and> (\<forall>m < n. places ! ((gain_hash s + m) mod length places) \<noteq> - 1))"

definition places_ok :: "Gains \<Rightarrow> bool" where
  "places_ok g \<longleftrightarrow> (\<exists>k \<le> 32. length (ga_places g) = 2 ^ k)
     \<and> (\<forall>p < length (ga_places g). ga_places g ! p \<noteq> - 1 \<longrightarrow> of_nat p \<in> set (ga_taken g))"

definition gains_ok :: "Gains \<Rightarrow> bool" where
  "gains_ok g \<longleftrightarrow> places_ok g \<and> distinct (map fst (ga_gains g))
     \<and> length (filter (\<lambda>a. a \<noteq> - 1) (ga_places g)) \<le> length (ga_gains g)
     \<and> (\<forall>p < length (ga_places g). ga_places g ! p \<noteq> - 1 \<longrightarrow> unat (ga_places g ! p) < length (ga_gains g))
     \<and> (\<forall>i < length (ga_gains g). reached (ga_places g) (fst (ga_gains g ! i)) i)"

lemma unat_index: "i < 2 ^ 32 - 1 \<Longrightarrow> unat (of_nat i :: u32) = i \<and> (of_nat i :: u32) \<noteq> - 1"
proof -
  assume i: "i < 2 ^ 32 - 1"
  then have u: "unat (of_nat i :: u32) = i" by (simp add: unat_of_nat)
  moreover have "unat (- 1 :: u32) = 2 ^ 32 - 1" by (simp add: unsigned_minus_1_eq_mask mask_eq_exp_minus_1)
  ultimately show ?thesis using i by (metis less_irrefl)
qed

lemma probe_place:
  assumes "length (ga_places g) = 2 ^ k"
  shows "probe (length (ga_places g)) (length (ga_places g) - 1) (place_of g s)
      (gain_hash s AND (length (ga_places g) - 1)) = Some r
    \<longleftrightarrow> (\<exists>n < length (ga_places g). place_of g s ((gain_hash s + n) mod length (ga_places g)) = Some r
       \<and> (\<forall>m < n. place_of g s ((gain_hash s + m) mod length (ga_places g)) = None))"
  using probe_first [of "gain_hash s mod 2 ^ k" k "2 ^ k" "place_of g s" r] assms
  by (simp add: and_mask_mod mod_add_left_eq)

lemma Gains_add_old:
  assumes g: "gains_ok g" and i: "i < length (ga_gains g)" and s: "fst (ga_gains g ! i) = s"
    and small: "length (ga_gains g) < 2 ^ 32 - 1"
  shows "probe (length (ga_places g)) (length (ga_places g) - 1) (place_of g s)
      (gain_hash s AND (length (ga_places g) - 1)) = Some (Inr i)"
proof -
  let ?L = "length (ga_places g)" let ?q = "\<lambda>n. (gain_hash s + n) mod ?L"
  obtain k where k: "?L = 2 ^ k" using g by (auto simp: gains_ok_def places_ok_def)
  obtain n where n: "n < ?L" "ga_places g ! ?q n = of_nat i" "\<forall>m < n. ga_places g ! ?q m \<noteq> - 1"
    using g i s by (auto simp: gains_ok_def reached_def)
  have hit: "place_of g s (?q n) = Some (Inr i)"
    using n(2) unat_index [of i] i s small by (simp add: place_of_def)
  obtain m where m: "place_of g s (?q m) \<noteq> None" "m \<le> n" "\<And>j. j < m \<Longrightarrow> place_of g s (?q j) = None"
    using hit exists_least_iff [of "\<lambda>m. place_of g s (?q m) \<noteq> None"] by (metis linorder_not_less option.distinct(1))
  have "place_of g s (?q m) = Some (Inr i)"
  proof (cases "m = n")
    case False
    then have ne: "ga_places g ! ?q m \<noteq> - 1" using m(2) n(3) by simp
    have "?q m < ?L" using n(1) by (intro mod_less_divisor) linarith
    then have less: "unat (ga_places g ! ?q m) < length (ga_gains g)" using g ne by (simp add: gains_ok_def)
    moreover have "fst (ga_gains g ! unat (ga_places g ! ?q m)) = s" using m(1) ne by (auto simp: place_of_def Let_def split: if_splits)
    ultimately have "unat (ga_places g ! ?q m) = i"
      using g i s nth_eq_iff_index_eq [of "map fst (ga_gains g)" _ i] by (simp add: gains_ok_def)
    then show ?thesis using ne s by (simp add: place_of_def)
  qed (use hit in simp)
  then show ?thesis using probe_place [OF k, of s "Inr i"] m n(1) by (metis le_less_trans)
qed

lemma Gains_add_new:
  assumes g: "gains_ok g" and s: "s \<notin> fst ` set (ga_gains g)" and room: "length (ga_gains g) < length (ga_places g)"
  shows "\<exists>n < length (ga_places g). probe (length (ga_places g)) (length (ga_places g) - 1) (place_of g s)
      (gain_hash s AND (length (ga_places g) - 1)) = Some (Inl ((gain_hash s + n) mod length (ga_places g)))
    \<and> ga_places g ! ((gain_hash s + n) mod length (ga_places g)) = - 1
    \<and> (\<forall>m < n. ga_places g ! ((gain_hash s + m) mod length (ga_places g)) \<noteq> - 1)"
proof -
  let ?L = "length (ga_places g)" let ?q = "\<lambda>n. (gain_hash s + n) mod ?L"
  obtain k where k: "?L = 2 ^ k" using g by (auto simp: gains_ok_def places_ok_def)
  obtain j where j: "j < ?L" "ga_places g ! j = - 1"
    using filter_short_ex [of "\<lambda>a. a \<noteq> - 1" "ga_places g"] g room by (auto simp: gains_ok_def)
  then have "place_of g s j \<noteq> None" by (simp add: place_of_def)
  then obtain r where r: "probe ?L (?L - 1) (place_of g s) (gain_hash s AND (?L - 1)) = Some r"
    using probe_complete [of "place_of g s" j k "gain_hash s mod 2 ^ k"] j(1) k by (auto simp: and_mask_mod)
  then obtain n where n: "n < ?L" "place_of g s (?q n) = Some r" "\<forall>m < n. place_of g s (?q m) = None"
    using probe_place [OF k, of s r] by blast
  have "?q n < ?L" using n(1) by (intro mod_less_divisor) linarith
  then have "ga_places g ! ?q n = - 1 \<and> r = Inl (?q n)"
    using n(2) g s by (auto simp: place_of_def Let_def gains_ok_def image_iff split: if_splits) (metis nth_mem)
  moreover have "\<forall>m < n. ga_places g ! ?q m \<noteq> - 1" using n(3) by (auto simp: place_of_def Let_def split: if_splits)
  ultimately show ?thesis using n(1) r by blast
qed

lemma reached_update:
  assumes "reached places s i" and "places ! p = - 1" and "i < 2 ^ 32 - 1" and "a \<noteq> - 1"
  shows "reached (places[p := a]) s i"
proof -
  obtain n where n: "n < length places" "places ! ((gain_hash s + n) mod length places) = of_nat i"
      "\<forall>m < n. places ! ((gain_hash s + m) mod length places) \<noteq> - 1"
    using assms(1) by (auto simp: reached_def)
  have "(gain_hash s + n) mod length places \<noteq> p" using n(2) assms(2) unat_index [OF assms(3)] by auto
  then have "places[p := a] ! ((gain_hash s + n) mod length places) = of_nat i" using n(2) by simp
  moreover have "\<forall>m < n. places[p := a] ! ((gain_hash s + m) mod length places) \<noteq> - 1"
    using n(3) assms(2,4) by (metis nth_list_update_neq)
  ultimately show ?thesis using n(1) by (auto simp: reached_def)
qed

lemma gains_ok_push:
  assumes g: "gains_ok g" and s: "s \<notin> fst ` set (ga_gains g)" and small: "length (ga_gains g) < 2 ^ 32 - 1"
    and n: "n < length (ga_places g)" "p = (gain_hash s + n) mod length (ga_places g)" "ga_places g ! p = - 1"
      "\<forall>m < n. ga_places g ! ((gain_hash s + m) mod length (ga_places g)) \<noteq> - 1"
  shows "gains_ok (g\<lparr>ga_places := (ga_places g)[p := of_nat (length (ga_gains g))],
    ga_taken := ga_taken g @ [of_nat p], ga_gains := ga_gains g @ [(s, gain)]\<rparr>)"
proof -
  let ?a = "of_nat (length (ga_gains g)) :: u32"
  have a: "unat ?a = length (ga_gains g)" "?a \<noteq> - 1" using unat_index [OF small] by auto
  have p: "p < length (ga_places g)" unfolding n(2) using n(1) by (intro mod_less_divisor) linarith
  have "reached ((ga_places g)[p := ?a]) (fst ((ga_gains g @ [(s, gain)]) ! i)) i"
    if i: "i < Suc (length (ga_gains g))" for i
  proof (cases "i = length (ga_gains g)")
    case True
    have "(ga_places g)[p := ?a] ! ((gain_hash s + m) mod length (ga_places g)) \<noteq> - 1" if "m < n" for m
      using that n(4) a(2) p by (metis nth_list_update_eq nth_list_update_neq)
    then show ?thesis using n p True unfolding reached_def by (intro exI [of _ n]) (auto simp: nth_append)
  next
    case False
    then show ?thesis using i reached_update [OF _ n(3) _ a(2)] g small by (simp add: gains_ok_def nth_append)
  qed
  moreover have "length (filter (\<lambda>a. a \<noteq> - 1) ((ga_places g)[p := ?a])) \<le> Suc (length (ga_gains g))"
    using filter_update_le [of "\<lambda>a. a \<noteq> - 1" "ga_places g" p ?a] g by (simp add: gains_ok_def)
  moreover have "(ga_places g)[p := ?a] ! q = (if q = p then ?a else ga_places g ! q)" for q using p by simp
  ultimately show ?thesis using g s a(1) by (simp add: gains_ok_def places_ok_def less_Suc_eq)
qed

lemma Gains_add_tally:
  assumes g: "gains_ok g" and "length (ga_gains g) < length (ga_places g)" and "length (ga_gains g) < 2 ^ 32 - 1"
  shows "\<exists>g'. Gains_add (s, uses) g = Some g' \<and> gains_ok g' \<and> length (ga_places g') = length (ga_places g)
    \<and> ga_gains g' = tally s (uses * of_nat (sy_len s)) (ga_gains g)"
proof (cases "s \<in> fst ` set (ga_gains g)")
  case True
  then obtain i where i: "i < length (ga_gains g)" "fst (ga_gains g ! i) = s" by (auto simp: in_set_conv_nth)
  have "map fst ((ga_gains g)[i := (s, v)]) = map fst (ga_gains g)" for v
    using i by (metis list_update_id map_update fst_conv)
  moreover have "fst ((ga_gains g)[i := (s, v)] ! j) = fst (ga_gains g ! j)" if "j < length (ga_gains g)" for j v
    using i that by (metis fst_conv nth_list_update_eq nth_list_update_neq)
  ultimately show ?thesis
    using Gains_add_old [OF g i assms(3)] g i(2) tally_old [of "ga_gains g" i "uses * of_nat (sy_len s)"] i(1)
    by (simp add: Gains_add_def Let_def gains_ok_def places_ok_def)
next
  case False
  obtain n where n: "n < length (ga_places g)"
      "probe (length (ga_places g)) (length (ga_places g) - 1) (place_of g s) (gain_hash s AND (length (ga_places g) - 1))
       = Some (Inl ((gain_hash s + n) mod length (ga_places g)))"
      "ga_places g ! ((gain_hash s + n) mod length (ga_places g)) = - 1"
      "\<forall>m < n. ga_places g ! ((gain_hash s + m) mod length (ga_places g)) \<noteq> - 1"
    using Gains_add_new [OF g False assms(2)] by blast
  then show ?thesis
    using gains_ok_push [OF g False assms(3) n(1) refl n(3,4)] tally_new [OF False]
    by (simp add: Gains_add_def Let_def)
qed

definition tally_all :: "(Symbol \<times> u64) list \<Rightarrow> (Symbol \<times> u64) list \<Rightarrow> (Symbol \<times> u64) list" where
  "tally_all scs xs = foldl (\<lambda>xs (s, uses). tally s (uses * of_nat (sy_len s)) xs) xs scs"

lemma add_all_tally:
  assumes "gains_ok g" and "length (ga_gains g) + length scs \<le> length (ga_places g)"
    and "length (ga_gains g) + length scs < 2 ^ 32"
  shows "\<exists>g'. add_all scs g = Some g' \<and> gains_ok g' \<and> ga_gains g' = tally_all scs (ga_gains g)"
  using assms
proof (induction scs arbitrary: g)
  case (Cons sc scs)
  obtain s uses where sc: "sc = (s, uses)" by (cases sc)
  obtain g' where g': "Gains_add (s, uses) g = Some g'" "gains_ok g'" "length (ga_places g') = length (ga_places g)"
      "ga_gains g' = tally s (uses * of_nat (sy_len s)) (ga_gains g)"
    using Gains_add_tally [of g s uses] Cons.prems by auto
  then show ?case
    using Cons.IH [of g'] Cons.prems length_tally [of s "uses * of_nat (sy_len s)" "ga_gains g"]
    by (simp add: sc tally_all_def)
qed (simp add: tally_all_def)

section \<open>Between two trainings\<close>

lemma next_power_of_two_ge: "n \<le> next_power_of_two n"
proof -
  let ?l = "length (takeWhile (\<lambda>k. 2 ^ k < n) [0..<n])"
  show ?thesis
  proof (cases "?l < n")
    case True
    then have "\<not> 2 ^ ([0..<n] ! ?l) < n" using nth_length_takeWhile [of "\<lambda>k. 2 ^ k < n" "[0..<n]"] by simp
    then show ?thesis using True by (simp add: next_power_of_two_def)
  next
    case False
    then have "n \<le> ?l" by simp
    then have "(2 :: nat) ^ n \<le> 2 ^ ?l" by (intro power_increasing) simp_all
    moreover have "n \<le> 2 ^ n" by (rule less_imp_le) (rule less_exp)
    ultimately show ?thesis unfolding next_power_of_two_def by (rule order_trans [rotated])
  qed
qed

lemma next_power_of_two_small:
  assumes "n \<le> 2 ^ k"
  shows "\<exists>j \<le> k. next_power_of_two n = 2 ^ j"
proof -
  let ?t = "takeWhile (\<lambda>k. 2 ^ k < n) [0..<n]"
  have "length ?t \<le> k"
  proof (rule ccontr)
    assume "\<not> length ?t \<le> k"
    then have k: "k < length ?t" by simp
    then have "?t ! k = k" by (metis length_takeWhile_le length_upt minus_nat.diff_0 nth_upt add_0 takeWhile_nth less_le_trans)
    then have "2 ^ k < n" using k set_takeWhileD [of "?t ! k"] nth_mem [OF k] by metis
    then show False using assms by simp
  qed
  then show ?thesis by (auto simp: next_power_of_two_def)
qed

lemma length_foldl_reset: "length (foldl (\<lambda>ps x. ps[unat x := v]) ps xs) = length ps"
  by (induction xs arbitrary: ps) simp_all

lemma nth_foldl_reset:
  "q < length ps \<Longrightarrow> foldl (\<lambda>ps x. ps[unat x := v]) ps xs ! q = (if q \<in> unat ` set xs then v else ps ! q)"
  by (induction xs arbitrary: ps) (auto simp: nth_list_update)

lemma foldl_reset_all:
  fixes xs :: "u32 list"
  assumes "length ps \<le> 2 ^ 32" and "\<forall>q < length ps. ps ! q \<noteq> v \<longrightarrow> of_nat q \<in> set xs"
  shows "foldl (\<lambda>ps x. ps[unat x := v]) ps xs = replicate (length ps) v"
proof (rule nth_equalityI)
  fix q assume "q < length (foldl (\<lambda>ps x. ps[unat x := v]) ps xs)"
  then have q: "q < length ps" by (simp add: length_foldl_reset)
  then have "unat (of_nat q :: u32) = q" using assms(1) by (simp add: unat_of_nat)
  then have "ps ! q \<noteq> v \<Longrightarrow> q \<in> unat ` set xs" using assms(2) q by (metis imageI)
  then show "foldl (\<lambda>ps x. ps[unat x := v]) ps xs ! q = replicate (length ps) v ! q"
    using q by (auto simp: nth_foldl_reset)
qed (simp add: length_foldl_reset)

definition idle :: "Gains \<Rightarrow> bool" where
  "idle g \<longleftrightarrow> ga_places g = [] \<or> places_ok g"

lemma gains_ok_replicate:
  "k \<le> 32 \<Longrightarrow> gains_ok \<lparr>ga_gains = [], ga_places = replicate (2 ^ k) (- 1), ga_taken = []\<rparr>"
  by (auto simp: gains_ok_def places_ok_def)

lemma Gains_clear_ok:
  assumes "idle g" and "0 < most" and "most \<le> 2 ^ 31"
  shows "gains_ok (Gains_clear most g) \<and> most \<le> length (ga_places (Gains_clear most g))
    \<and> ga_gains (Gains_clear most g) = []"
proof -
  let ?ps = "foldl (\<lambda>places place. places[unat place := - 1]) (ga_places g) (ga_taken g)"
  obtain j where j: "j \<le> 32" "next_power_of_two (most * 2) = 2 ^ j"
    using next_power_of_two_small [of "most * 2" 32] assms(3) by auto
  have le: "most \<le> 2 ^ j" using next_power_of_two_ge [of "most * 2"] j by simp
  show ?thesis
  proof (cases "length ?ps < 2 ^ j")
    case True
    then show ?thesis using j le gains_ok_replicate [OF j(1)] by (simp add: Gains_clear_def Let_def)
  next
    case False
    then have "ga_places g \<noteq> []" by (auto simp: length_foldl_reset)
    then have ok: "places_ok g" using assms(1) by (simp add: idle_def)
    then obtain k where k: "k \<le> 32" "length (ga_places g) = 2 ^ k" by (auto simp: places_ok_def)
    have "(2 :: nat) ^ k \<le> 2 ^ 32" using k(1) by (rule power_increasing) simp
    then have "?ps = replicate (2 ^ k) (- 1)"
      using foldl_reset_all [of "ga_places g" "- 1" "ga_taken g"] ok k by (simp add: places_ok_def)
    moreover have "most \<le> 2 ^ k"
      using False le k(2) length_foldl_reset [of "- 1" "ga_places g" "ga_taken g"] by linarith
    ultimately show ?thesis using False j k gains_ok_replicate [OF k(1)] by (simp add: Gains_clear_def Let_def)
  qed
qed

section \<open>What training makes is a table\<close>

lemma symbol_ok_single: "symbol_ok (Symbol_single b)"
proof -
  have "(ucast b :: u64) AND mask_of 1 = ucast b"
    by (rule bit_word_eqI) (auto simp: bit_and_iff bit_mask_of bit_ucast_iff dest: bit_imp_le_length)
  then show ?thesis by (simp add: symbol_ok_def Symbol_single_def)
qed

lemma symbol_ok_concat: "symbol_ok s \<Longrightarrow> symbol_ok t \<Longrightarrow> symbol_ok (Symbol_concat s t)"
  by (simp add: symbol_ok_def Symbol_concat_def Let_def MAX_SYMBOL_LEN_def and.assoc)

lemma symbol_ok_of: "table_ok symbols \<Longrightarrow> symbol_ok (symbol_of symbols i)"
  using table_nth [of symbols i] by (simp add: symbol_of_def symbol_ok_single)

lemma candidates_ok: "table_ok symbols \<Longrightarrow> sc \<in> set (candidates symbols c) \<Longrightarrow> symbol_ok (fst sc)"
  by (auto simp: candidates_def Let_def symbol_ok_of symbol_ok_concat)

lemma fst_tally_all: "fst ` set (tally_all scs xs) \<subseteq> fst ` set scs \<union> fst ` set xs"
proof (induction scs arbitrary: xs)
  case (Cons sc scs)
  obtain s uses where sc: "sc = (s, uses)" by (cases sc)
  have "tally_all (sc # scs) xs = tally_all scs (tally s (uses * of_nat (sy_len s)) xs)"
    by (simp add: tally_all_def sc)
  then show ?case using Cons.IH [of "tally s (uses * of_nat (sy_len s)) xs"] by (simp add: fst_tally sc)
qed (simp add: tally_all_def)

definition next_symbols :: "Symbol list \<Rightarrow> Counts \<Rightarrow> Symbol list" where
  "next_symbols symbols c = map fst (ranked (tally_all (candidates symbols c) []))"

lemma next_symbols_ok:
  assumes "table_ok symbols"
  shows "table_ok (next_symbols symbols c)"
proof -
  have "s \<in> fst ` set (candidates symbols c)" if "s \<in> set (next_symbols symbols c)" for s
  proof -
    have "s \<in> fst ` set (tally_all (candidates symbols c) [])"
      using that by (auto simp: next_symbols_def ranked_def dest!: in_set_takeD)
    then show ?thesis using fst_tally_all [of "candidates symbols c" "[]"] by auto
  qed
  then have "\<forall>s \<in> set (next_symbols symbols c). symbol_ok s" using candidates_ok [OF assms] by blast
  then show ?thesis by (simp add: table_ok_def) (simp add: next_symbols_def ranked_def)
qed

section \<open>Counting never wraps a pair to zero\<close>

definition counted :: "nat \<Rightarrow> Counts \<Rightarrow> bool" where
  "counted n c \<longleftrightarrow> length (ct_single c) = IDS \<and> length (ct_pairs c) = IDS * IDS
     \<and> distinct (ct_seen c) \<and> (\<forall>x \<in> set (ct_seen c). unat x < IDS * IDS \<and> ct_pairs c ! unat x \<noteq> 0)
     \<and> (\<forall>i < IDS * IDS. unat (ct_pairs c ! i) \<le> n \<and> (ct_pairs c ! i \<noteq> 0 \<longrightarrow> of_nat i \<in> set (ct_seen c)))"

lemma counted_mono: "counted n c \<Longrightarrow> n \<le> m \<Longrightarrow> counted m c"
  by (auto simp: counted_def intro: order_trans)

lemma counted_one: "counted n c \<Longrightarrow> counted n (Counts_one i c)"
  by (simp add: counted_def Counts_one_def)

lemma unat_succ: "a \<noteq> - 1 \<Longrightarrow> unat (a + 1) = Suc (unat a) \<and> a + 1 \<noteq> (0 :: u32)"
proof -
  assume "a \<noteq> - 1"
  then have "a + 1 \<noteq> 0" by (simp add: eq_neg_iff_add_eq_0)
  then show ?thesis using unatSuc [of a] by (simp add: add.commute)
qed

lemma unat_slot: "i < IDS * IDS \<Longrightarrow> unat (of_nat i :: u32) = i"
  by (simp add: IDS_def unat_of_nat)

lemma counted_two:
  assumes c: "counted n c" and i: "first < IDS" "second < IDS" and n: "n < 2 ^ 32 - 1"
  shows "counted (Suc n) (Counts_two first second c)"
proof -
  let ?s = "first * IDS + second" let ?v = "ct_pairs c ! ?s"
  let ?seen = "if ?v = 0 then ct_seen c @ [of_nat ?s] else ct_seen c"
  have s: "?s < IDS * IDS"
  proof -
    have "first * IDS + second < (first + 1) * IDS" using i by simp
    also have "\<dots> \<le> IDS * IDS" using i(1) by (intro mult_right_mono) simp_all
    finally show ?thesis .
  qed
  have v: "unat ?v \<le> n" using c s by (simp add: counted_def)
  then have "?v \<noteq> - 1" using n unat_index [of "unat ?v"] by auto
  then have v1: "unat (?v + 1) = Suc (unat ?v)" "?v + 1 \<noteq> 0" using unat_succ [of ?v] by blast+
  have new: "of_nat ?s \<notin> set (ct_seen c)" if "?v = 0"
    using c that unat_slot [OF s] by (metis (no_types, lifting) counted_def)
  have nth: "(ct_pairs c)[?s := ?v + 1] ! j = (if j = ?s then ?v + 1 else ct_pairs c ! j)" for j
    using s c by (simp add: counted_def)
  have "unat ((ct_pairs c)[?s := ?v + 1] ! j) \<le> Suc n
      \<and> ((ct_pairs c)[?s := ?v + 1] ! j \<noteq> 0 \<longrightarrow> of_nat j \<in> set ?seen)" if "j < IDS * IDS" for j
    using that c v v1 unfolding nth by (cases "j = ?s") (auto simp: counted_def intro: le_SucI)
  moreover have "unat x < IDS * IDS \<and> (ct_pairs c)[?s := ?v + 1] ! unat x \<noteq> 0" if "x \<in> set ?seen" for x
    using that c v1(2) s unat_slot [OF s] unfolding nth by (auto simp: counted_def split: if_splits)
  moreover have "distinct ?seen" using c new by (simp add: counted_def)
  moreover have "Counts_two first second c = c\<lparr>ct_seen := ?seen, ct_pairs := (ct_pairs c)[?s := ?v + 1]\<rparr>"
    by (simp add: Counts_two_def Let_def)
  ultimately show ?thesis using c by (simp add: counted_def)
qed

lemma seen_bound: "counted n c \<Longrightarrow> length (ct_seen c) \<le> IDS * IDS"
proof -
  assume c: "counted n c"
  have "inj_on unat (set (ct_seen c))" by (simp add: inj_on_def word_unat_eq_iff)
  then have "length (ct_seen c) = card (unat ` set (ct_seen c))"
    using c by (simp add: card_image distinct_card counted_def)
  also have "\<dots> \<le> card {..<IDS * IDS}" using c by (intro card_mono) (auto simp: counted_def)
  finally show ?thesis by simp
qed

text \<open>
  Counting a sample returns, and does the same to the counts whatever candidates they carry; a byte of
  the sample is counted at most once.
\<close>

definition with_gains :: "Gains \<Rightarrow> Counts \<Rightarrow> Counts" where
  "with_gains g c = c\<lparr>ct_gains := g\<rparr>"

lemma with_gains_step:
  "Counts_one i (with_gains g c) = with_gains g (Counts_one i c)"
  "Counts_two i j (with_gains g c) = with_gains g (Counts_two i j c)"
  by (simp_all add: with_gains_def Counts_one_def Counts_two_def Let_def)

lemma count_loop_counted:
  assumes t: "table_ok symbols" and l: "lookup_ok symbols l"
  shows "counted n c \<Longrightarrow> n + (length input - at) < 2 ^ 32 \<Longrightarrow> (\<forall>p. previous = Some p \<longrightarrow> p < IDS) \<Longrightarrow>
    \<exists>c'. counted (n + (length input - at)) c' \<and> (\<forall>g. count_loop l input at previous (with_gains g c) = Some (with_gains g c'))"
proof (induction "length input - at" arbitrary: at n c previous rule: less_induct)
  case less
  show ?case
  proof (cases "at < length input")
    case False
    then show ?thesis using less.prems by (subst count_loop.simps) auto
  next
    case True
    obtain code len where m: "match_at l input at = Some (code, len)" "match_ok symbols input at (code, len)"
      using match_at_ok [OF t l True] by auto
    have len: "0 < len" "at + len \<le> length input"
      using m(2) table_nth [OF t] True by (fastforce simp: match_ok_def symbol_ok_def)+
    let ?i = "if code = ESCAPE then 256 + unat (input ! at) else unat code"
    have i: "?i < IDS"
      using unsigned_less [of code, where 'a = nat] unsigned_less [of "input ! at", where 'a = nat] by (simp add: IDS_def)
    let ?c = "case previous of Some p \<Rightarrow> Counts_two p ?i (Counts_one ?i c) | None \<Rightarrow> Counts_one ?i c"
    have "counted (Suc n) (Counts_one ?i c)" using counted_one [OF less.prems(1)] by (rule counted_mono) simp
    then have "counted (Suc n) ?c"
      using counted_two [OF counted_one [OF less.prems(1)] _ i] less.prems(2,3) True
      by (auto split: option.split)
    then have "counted (n + len) ?c" by (rule counted_mono) (use len(1) in simp)
    moreover have "length input - (at + len) < length input - at" "n + len + (length input - (at + len)) < 2 ^ 32"
      using less.prems(2) len True by linarith+
    ultimately obtain c' where c': "counted (n + len + (length input - (at + len))) c'"
        "\<And>g. count_loop l input (at + len) (Some ?i) (with_gains g ?c) = Some (with_gains g c')"
      using less(1) [of "at + len" "n + len" ?c "Some ?i"] i by blast
    moreover have "n + len + (length input - (at + len)) = n + (length input - at)" using len(2) by simp
    moreover have "count_loop l input at previous (with_gains g c)
        = count_loop l input (at + len) (Some ?i) (with_gains g ?c)" for g
      using True m(1) by (subst count_loop.simps) (simp add: Let_def with_gains_step split: option.split)
    ultimately show ?thesis by auto
  qed
qed

definition small_samples :: "bytes list \<Rightarrow> bool" where
  "small_samples samples \<longleftrightarrow> sum_list (map length samples) < 2 ^ 32"

lemma count_each_counted:
  assumes "table_ok (st_symbols t)"
  shows "counted n c \<Longrightarrow> n + sum_list (map length samples) < 2 ^ 32 \<Longrightarrow>
    \<exists>c'. counted (n + sum_list (map length samples)) c' \<and> (\<forall>g. count_each t samples (with_gains g c) = Some (with_gains g c'))"
proof (induction samples arbitrary: n c)
  case (Cons sample samples)
  obtain l where l: "Lookup_of (st_symbols t) = Some l" "lookup_ok (st_symbols t) l"
    using Lookup_of_ok assms by (auto simp: table_ok_def)
  obtain c1 where c1: "counted (n + length sample) c1"
      "\<forall>g. count_loop l sample 0 None (with_gains g c) = Some (with_gains g c1)"
    using count_loop_counted [OF assms l(2) Cons.prems(1), of sample 0 None] Cons.prems(2) by auto
  then show ?case using Cons.IH [OF c1(1)] Cons.prems(2) l(1)
    by (auto simp: SymbolTable_count_def add.assoc)
qed auto

section \<open>Training\<close>

definition resting :: "Counts \<Rightarrow> bool" where
  "resting c \<longleftrightarrow> length (ct_single c) = IDS \<and> length (ct_pairs c) = IDS * IDS
     \<and> (\<forall>i < IDS * IDS. ct_pairs c ! i \<noteq> 0 \<longrightarrow> of_nat i \<in> set (ct_seen c)) \<and> idle (ct_gains c)"

lemma resting_new: "resting Counts_new"
  by (simp add: resting_def Counts_new_def idle_def Gains_default_def)

lemma resting_counted: "counted n c \<Longrightarrow> idle g \<Longrightarrow> resting (with_gains g c)"
  by (simp add: resting_def counted_def with_gains_def)

lemma Counts_clear_resting: "resting c \<Longrightarrow> Counts_clear c = with_gains (ct_gains c) Counts_new"
  using foldl_reset_all [of "ct_pairs c" 0 "ct_seen c"]
  by (cases c) (simp add: resting_def Counts_clear_def Counts_new_def with_gains_def IDS_def)

lemma counted_new: "counted 0 Counts_new"
  by (simp add: counted_def Counts_new_def)

lemma Counts_best_counted:
  assumes "counted n c" and "idle g"
  shows "\<exists>g'. Counts_best symbols (with_gains g c) = Some (next_symbols symbols c, with_gains g' c) \<and> idle g'"
proof -
  let ?g = "Gains_clear (IDS + length (ct_seen c)) g" let ?scs = "candidates symbols c"
  have "length (filter (\<lambda>(i, uses). uses \<noteq> 0) (enumerate 0 (ct_single c))) \<le> IDS"
    using length_filter_le [of "\<lambda>(i, uses). uses \<noteq> 0" "enumerate 0 (ct_single c)"] assms(1)
    by (simp add: counted_def length_enumerate)
  then have scs: "length ?scs \<le> IDS + length (ct_seen c)" by (simp add: candidates_def)
  have seen: "length (ct_seen c) \<le> 262144" using seen_bound [OF assms(1)] by (simp add: IDS_def)
  have g: "gains_ok ?g" "IDS + length (ct_seen c) \<le> length (ga_places ?g)" "ga_gains ?g = []"
    using Gains_clear_ok [OF assms(2), of "IDS + length (ct_seen c)"] seen by (simp_all add: IDS_def)
  then obtain g' where g': "add_all ?scs ?g = Some g'" "gains_ok g'" "ga_gains g' = tally_all ?scs []"
    using add_all_tally [OF g(1), of ?scs] scs seen by (auto simp: IDS_def)
  have "candidates symbols (with_gains g c) = ?scs" by (simp add: candidates_def with_gains_def)
  moreover have "idle (g'\<lparr>ga_gains := xs\<rparr>)" for xs using g'(2) by (simp add: idle_def gains_ok_def places_ok_def)
  ultimately show ?thesis using g'
    by (auto simp: Counts_best_def with_gains_def next_symbols_def)
qed

text \<open>A generation gives the same next table whatever is left in the counts, and leaves them resting.\<close>

lemma generation_step:
  assumes t: "table_ok (st_symbols t)" and "small_samples samples"
  shows "\<exists>symbols. table_ok symbols \<and> (\<forall>c. resting c \<longrightarrow>
    (\<exists>c'. resting c' \<and> Option.bind (count_each t samples (Counts_clear c)) (Counts_best (st_symbols t)) = Some (symbols, c')))"
proof -
  obtain c0 where c0: "counted (sum_list (map length samples)) c0"
      "\<And>g. count_each t samples (with_gains g Counts_new) = Some (with_gains g c0)"
    using count_each_counted [OF t counted_new, of samples] assms(2) by (auto simp: small_samples_def)
  have "\<exists>c'. resting c' \<and> Option.bind (count_each t samples (Counts_clear c)) (Counts_best (st_symbols t))
      = Some (next_symbols (st_symbols t) c0, c')" if "resting c" for c
    using Counts_best_counted [OF c0(1), of "ct_gains c" "st_symbols t"] that c0
    by (auto simp: Counts_clear_resting resting_def [of c] dest: resting_counted)
  then show ?thesis using next_symbols_ok [OF t] by blast
qed

lemma generations_table:
  assumes "small_samples samples"
  shows "table_ok symbols \<Longrightarrow> \<exists>symbols'. table_ok symbols' \<and> (\<forall>c. resting c \<longrightarrow>
    (\<exists>c'. resting c' \<and> generations n samples (SymbolTable_build symbols) c = Some (SymbolTable_build symbols', c')))"
proof (induction n arbitrary: symbols)
  case (Suc n)
  obtain next' where next': "table_ok next'" "\<And>c. resting c \<Longrightarrow> \<exists>c'. resting c'
      \<and> Option.bind (count_each (SymbolTable_build symbols) samples (Counts_clear c)) (Counts_best symbols) = Some (next', c')"
    using generation_step [of "SymbolTable_build symbols", OF _ assms] Suc.prems by (auto simp: SymbolTable_build_def)
  show ?case
  proof (cases "next' = []")
    case True
    then show ?thesis using next'(2) Suc.prems
      by (intro exI [of _ symbols]) (fastforce simp: SymbolTable_build_def)
  next
    case False
    obtain symbols' where "table_ok symbols'" "\<And>c. resting c \<Longrightarrow> \<exists>c'. resting c'
        \<and> generations n samples (SymbolTable_build next') c = Some (SymbolTable_build symbols', c')"
      using Suc.IH [OF next'(1)] by blast
    then show ?thesis using next'(2) False
      by (intro exI [of _ symbols']) (fastforce simp: SymbolTable_build_def)
  qed
qed auto

text \<open>The trainings a thread has done, one after the other, with what each leaves to the next.\<close>

fun train_each :: "bytes list list \<Rightarrow> Counts option \<Rightarrow> Counts option option" where
  "train_each [] held = Some held"
| "train_each (samples # rest) held =
     (case SymbolTable_train samples held of None \<Rightarrow> None | Some (t, c) \<Rightarrow> train_each rest (Some c))"

definition resting_held :: "Counts option \<Rightarrow> bool" where
  "resting_held held \<longleftrightarrow> (\<forall>c. held = Some c \<longrightarrow> resting c)"

lemma train_table:
  assumes "small_samples samples"
  shows "\<exists>symbols. table_ok symbols \<and> (\<forall>held. resting_held held \<longrightarrow>
    (\<exists>c. resting c \<and> SymbolTable_train samples held = Some (SymbolTable_build symbols, c)))"
proof -
  have "table_ok []" by (simp add: table_ok_def)
  from generations_table [OF assms this, of GENERATIONS] obtain symbols where s: "table_ok symbols"
      "\<And>c. resting c \<Longrightarrow> \<exists>c'. resting c' \<and> train_with samples c = Some (SymbolTable_build symbols, c')"
    unfolding train_with_def SymbolTable_empty_def by blast
  then have "\<exists>c. resting c \<and> SymbolTable_train samples held = Some (SymbolTable_build symbols, c)" if "resting_held held" for held
    using that resting_new by (cases held) (auto simp: SymbolTable_train_def resting_held_def)
  with s(1) show ?thesis by blast
qed

lemma train_each_resting:
  "\<forall>samples \<in> set past. small_samples samples \<Longrightarrow> resting_held held \<Longrightarrow>
     \<exists>held'. train_each past held = Some held' \<and> resting_held held'"
proof (induction past arbitrary: held)
  case (Cons samples past)
  obtain t c where c: "resting c" "SymbolTable_train samples held = Some (t, c)"
    using train_table [of samples] Cons.prems by auto
  then show ?case using Cons.IH [of "Some c"] Cons.prems by (simp add: resting_held_def)
qed simp

text \<open>
  C10. A string compressed with a trained table is read back as it was, by the table itself and by the
  table as it is written to a file. Training always ends, and what the thread trained before makes no
  difference to the table. This is for samples of less than four gigabytes in all.
\<close>

theorem trained_strings_read_back:
  assumes "\<forall>samples \<in> set past. small_samples samples" and "small_samples samples"
  shows "\<exists>held t c c'. train_each past None = Some held
    \<and> SymbolTable_train samples held = Some (t, c) \<and> SymbolTable_train samples None = Some (t, c')
    \<and> (\<exists>codes. compress t input [] = Some codes \<and> decompress t codes [] = Inr input)
    \<and> deserialize (serialize t [] @ rest) = Inr (t, serialized_len t)"
proof -
  obtain symbols where s: "table_ok symbols" "\<And>held. resting_held held \<Longrightarrow>
      \<exists>c. SymbolTable_train samples held = Some (SymbolTable_build symbols, c)"
    using train_table [OF assms(2)] by blast
  have none: "resting_held None" by (simp add: resting_held_def)
  obtain held where held: "train_each past None = Some held" "resting_held held"
    using train_each_resting [OF assms(1) none] by blast
  have "\<exists>codes. compress (SymbolTable_build symbols) input [] = Some codes
      \<and> decompress (SymbolTable_build symbols) codes [] = Inr input"
    using compress_read_back [of "SymbolTable_build symbols" input "[]"] s(1) by (auto simp: SymbolTable_build_def)
  then show ?thesis using s(2) [OF none] s(2) [OF held(2)] held(1) deserialize_serialize [OF s(1)] by blast
qed

lemma trained_strings_read_back_witness:
  "\<exists>held t c c'. train_each [[[104, 116, 116, 112]], []] None = Some held
    \<and> SymbolTable_train [[104, 116, 116, 112, 115], [104, 116]] held = Some (t, c)
    \<and> SymbolTable_train [[104, 116, 116, 112, 115], [104, 116]] None = Some (t, c')
    \<and> (\<exists>codes. compress t [104, 116, 0] [] = Some codes \<and> decompress t codes [] = Inr [104, 116, 0])
    \<and> deserialize (serialize t [] @ [7]) = Inr (t, serialized_len t)"
  by (rule trained_strings_read_back) (simp_all add: small_samples_def)

end
