(* ===== verification/Patterns.thy ===== *)
theory Patterns
  imports Fsst "HOL-Library.Sublist"
begin

text \<open>
  Whether a string holds some pieces in order, which is what \<open>LIKE '%a%b%'\<close> asks:
  \<open>rudb-encoding/src/sequence.rs\<close>.

  \<open>Sequence_new\<close> builds the automaton of the pieces as a table of bytes, \<open>Sequence_holds\<close> walks a
  string through it, and \<open>Coded_holds\<close> walks the codes of a compressed string, learning where a code
  takes a state the first time it is asked. \<open>grams\<close> is the sketch that turns strings away unwalked.
\<close>

unbundle bit_operations_syntax

section \<open>The automaton\<close>

definition UNKNOWN :: u8 where "UNKNOWN = - 1"

record Sequence =
  pa_next :: "u8 list"
  pa_done :: u8
  pa_needs :: u64

definition gram :: "u8 \<Rightarrow> u8 \<Rightarrow> u8 \<Rightarrow> u64" where
  "gram a b c =
     (let run = push_bit 16 (ucast a) OR push_bit 8 (ucast b) OR ucast c :: u32
      in push_bit (unat (drop_bit 26 (run * 0x9E3779B1))) 1)"

fun windows :: "bytes \<Rightarrow> (u8 \<times> u8 \<times> u8) list" where
  "windows (a # b # c # rest) = (a, b, c) # windows (b # c # rest)"
| "windows _ = []"

definition grams :: "bytes \<Rightarrow> u64" where
  "grams text = foldl (\<lambda>bits (a, b, c). bits OR gram a b c) 0 (windows text)"

text \<open>
  The loop over the bytes of a piece after its first: the row of a state is the row of where the walk
  of the piece without its first byte has got to, but for the byte that goes on.
\<close>

fun piece_rows :: "nat \<Rightarrow> nat \<Rightarrow> bytes \<Rightarrow> nat \<Rightarrow> u8 list \<Rightarrow> u8 list option" where
  "piece_rows base offset [] restart next = Some next"
| "piece_rows base offset (byte # rest) restart next =
     (let state = base + offset in
      if restart < state then
        (let next = copy_at next (state * 256) (slice next (restart * 256) (restart * 256 + 256));
             next = next[state * 256 + unat byte := of_nat (state + 1)]
         in piece_rows base (Suc offset) rest (unat (next ! (restart * 256 + unat byte))) next)
      else None)"

definition add_piece :: "nat \<Rightarrow> bytes \<Rightarrow> u8 list \<Rightarrow> u8 list option" where
  "add_piece base piece next =
     (let next = copy_at next (base * 256) (replicate 256 (of_nat base));
          next = next[base * 256 + unat (piece ! 0) := of_nat (base + 1)]
      in piece_rows base 1 (drop 1 piece) base next)"

fun add_pieces :: "nat \<Rightarrow> bytes list \<Rightarrow> u8 list \<Rightarrow> u8 list option" where
  "add_pieces base [] next = Some next"
| "add_pieces base (piece # pieces) next =
     (case add_piece base piece next of None \<Rightarrow> None | Some next \<Rightarrow> add_pieces (base + length piece) pieces next)"

text \<open>The outer option is a panic, which does not happen; the inner one is the answer of \<open>new\<close>.\<close>

definition Sequence_new :: "bytes list \<Rightarrow> Sequence option option" where
  "Sequence_new pieces =
     (let pieces = filter (\<lambda>piece. piece \<noteq> []) pieces;
          total = sum_list (map length pieces)
      in if pieces = [] \<or> unat UNKNOWN \<le> total then Some None
         else
           (case add_pieces 0 pieces (replicate ((total + 1) * 256) 0) of
              None \<Rightarrow> None
            | Some next \<Rightarrow>
                Some (Some \<lparr>pa_next = copy_at next (total * 256) (replicate 256 (of_nat total)),
                            pa_done = of_nat total,
                            pa_needs = foldl (\<lambda>bits piece. bits OR grams piece) 0 pieces\<rparr>)))"

definition Sequence_needs :: "Sequence \<Rightarrow> u64" where
  "Sequence_needs s = pa_needs s"

definition Sequence_states :: "Sequence \<Rightarrow> nat" where
  "Sequence_states s = unat (pa_done s) + 1"

definition step_of :: "Sequence \<Rightarrow> u8 \<Rightarrow> u8 \<Rightarrow> u8" where
  "step_of s state byte = pa_next s ! (unat state * 256 + unat byte)"

fun holds_from :: "Sequence \<Rightarrow> u8 \<Rightarrow> bytes \<Rightarrow> bool" where
  "holds_from s state [] = False"
| "holds_from s state (byte # text) =
     (let state = step_of s state byte in if state = pa_done s then True else holds_from s state text)"

definition Sequence_holds :: "Sequence \<Rightarrow> bytes \<Rightarrow> bool" where
  "Sequence_holds s text = holds_from s 0 text"

section \<open>Walking codes\<close>

record Coded =
  co_sequence :: Sequence
  co_table :: SymbolTable
  co_steps :: "u8 list"

definition Sequence_over :: "Sequence \<Rightarrow> SymbolTable \<Rightarrow> Coded" where
  "Sequence_over s t = \<lparr>co_sequence = s, co_table = t, co_steps = replicate (Sequence_states s * 256) UNKNOWN\<rparr>"

definition learn :: "u8 \<Rightarrow> u8 \<Rightarrow> Coded \<Rightarrow> (fsst_error + u8) \<times> Coded" where
  "learn from_state code w =
     (case SymbolTable_symbol (co_table w) code of
        None \<Rightarrow> (Inl (Not_in_table code), w)
      | Some (bs, len) \<Rightarrow>
          (let state = foldl (step_of (co_sequence w)) from_state (take len bs)
           in (Inr state, w\<lparr>co_steps := (co_steps w)[unat from_state * 256 + unat code := state]\<rparr>)))"

definition code_step :: "u8 \<Rightarrow> u8 \<Rightarrow> Coded \<Rightarrow> (fsst_error + u8) \<times> Coded" where
  "code_step state code w =
     (let slot = unat state * 256 + unat code in
      if co_steps w ! slot \<noteq> UNKNOWN then (Inr (co_steps w ! slot), w) else learn state code w)"

fun walk_codes :: "u8 \<Rightarrow> bytes \<Rightarrow> Coded \<Rightarrow> (fsst_error + bool) \<times> Coded" where
  "walk_codes state [] w = (Inr False, w)"
| "walk_codes state (code # codes) w =
     (if code = ESCAPE then
        (case codes of
           [] \<Rightarrow> (Inl Truncated, w)
         | byte # codes \<Rightarrow>
             (let state = step_of (co_sequence w) state byte
              in if state = pa_done (co_sequence w) then (Inr True, w) else walk_codes state codes w))
      else
        (case code_step state code w of
           (Inl e, w) \<Rightarrow> (Inl e, w)
         | (Inr state, w) \<Rightarrow>
             if state = pa_done (co_sequence w) then (Inr True, w) else walk_codes state codes w))"

definition Coded_holds :: "bytes \<Rightarrow> Coded \<Rightarrow> (fsst_error + bool) \<times> Coded" where
  "Coded_holds codes w = walk_codes 0 codes w"

section \<open>What it is to hold pieces in order\<close>

fun in_order :: "bytes list \<Rightarrow> bytes \<Rightarrow> bool" where
  "in_order [] text = True"
| "in_order (p # ps) [] = (p = [] \<and> in_order ps [])"
| "in_order (p # ps) (c # text) =
     (prefix p (c # text) \<and> in_order ps (drop (length p) (c # text)) \<or> in_order (p # ps) text)"

lemma in_order_iff: "in_order (p # ps) str \<longleftrightarrow> (\<exists>u v. str = u @ p @ v \<and> in_order ps v)"
proof (induction str)
  case (Cons c str)
  show ?case
  proof
    assume "in_order (p # ps) (c # str)"
    then consider "prefix p (c # str)" "in_order ps (drop (length p) (c # str))" | "in_order (p # ps) str" by auto
    then show "\<exists>u v. c # str = u @ p @ v \<and> in_order ps v"
    proof cases
      case 1
      then obtain v where "c # str = p @ v" by (auto simp: prefix_def)
      then show ?thesis using 1(2) by (intro exI [of _ "[]"] exI [of _ v]) simp
    next
      case 2
      then show ?thesis using Cons.IH by (metis append_Cons)
    qed
  next
    assume "\<exists>u v. c # str = u @ p @ v \<and> in_order ps v"
    then obtain u v where uv: "c # str = u @ p @ v" "in_order ps v" by blast
    then show "in_order (p # ps) (c # str)"
    proof (cases u)
      case (Cons d u')
      then have "str = u' @ p @ v" using uv(1) by simp
      then show ?thesis using Cons.IH uv(2) by auto
    next
      case Nil
      then have "prefix p (c # str)" "drop (length p) (c # str) = v" using uv(1) by simp_all
      then show ?thesis using uv(2) by simp
    qed
  qed
qed auto

lemma in_order_suffix: "suffix v t \<Longrightarrow> in_order ps v \<Longrightarrow> in_order ps t"
proof (cases ps)
  case (Cons p ps')
  assume "suffix v t" "in_order ps v"
  then obtain x u w where "t = x @ v" "v = u @ p @ w" "in_order ps' w" unfolding suffix_def Cons in_order_iff by blast
  then show ?thesis unfolding Cons in_order_iff by (intro exI [of _ "x @ u"] exI [of _ w]) simp
qed simp

text \<open>Only the first place a piece can be found at matters.\<close>

lemma in_order_first:
  assumes "suffix p w" and "\<forall>x. strict_prefix x w \<longrightarrow> \<not> suffix p x"
  shows "in_order (p # ps) (w @ t) = in_order ps t"
proof
  assume "in_order (p # ps) (w @ t)"
  then obtain u v where uv: "w @ t = u @ p @ v" "in_order ps v" unfolding in_order_iff by blast
  have "\<not> strict_prefix (u @ p) w" using assms(2) by (auto simp: suffix_def)
  moreover have "prefix (u @ p) w \<or> prefix w (u @ p)"
    using uv(1) by (metis append.assoc prefixI prefix_same_cases)
  ultimately have "prefix w (u @ p)" by (auto simp: strict_prefix_def)
  then obtain x where "u @ p = w @ x" by (auto simp: prefix_def)
  then have "t = x @ v" using uv(1) by (metis append.assoc same_append_eq)
  then show "in_order ps t" using in_order_suffix [OF _ uv(2)] by (simp add: suffix_def)
next
  assume "in_order ps t"
  moreover obtain u where "w = u @ p" using assms(1) by (auto simp: suffix_def)
  ultimately show "in_order (p # ps) (w @ t)" unfolding in_order_iff by auto
qed

lemma in_order_ends: "in_order (p # ps) w \<Longrightarrow> \<exists>x. prefix x w \<and> suffix p x"
  unfolding in_order_iff by (metis append.assoc prefixI suffixI)

section \<open>How much of a piece has been found\<close>

definition found :: "bytes \<Rightarrow> bytes \<Rightarrow> nat" where
  "found p w = Max {k. k \<le> length p \<and> suffix (take k p) w}"

lemma found_props:
  shows found_le: "found p w \<le> length p" and found_suffix: "suffix (take (found p w) p) w"
    and found_max: "k \<le> length p \<Longrightarrow> suffix (take k p) w \<Longrightarrow> k \<le> found p w"
proof -
  let ?S = "{k. k \<le> length p \<and> suffix (take k p) w}"
  have fin: "finite ?S" by simp
  have "found p w \<in> ?S" unfolding found_def by (rule Max_in [OF fin]) (auto intro: exI [of _ 0])
  then show "found p w \<le> length p" "suffix (take (found p w) p) w" by simp_all
  show "k \<le> length p \<Longrightarrow> suffix (take k p) w \<Longrightarrow> k \<le> found p w" unfolding found_def using fin by (simp add: Max_ge)
qed

lemma found_full: "found p w = length p \<longleftrightarrow> suffix p w"
  using found_suffix [of p w] found_max [of "length p" p w] found_le [of p w] by auto

lemma found_length: "found p w \<le> length w"
  using found_suffix [of p w] found_le [of p w] by (auto dest!: suffix_length_le)

lemma found_cong:
  assumes "\<And>k. k \<le> length p \<Longrightarrow> suffix (take k p) v \<longleftrightarrow> suffix (take k p) w"
  shows "found p v = found p w"
  unfolding found_def using assms by (intro arg_cong [of _ _ Max]) blast

lemma suffix_snoc_take:
  assumes "Suc k \<le> length p"
  shows "suffix (take (Suc k) p) (w @ [b]) \<longleftrightarrow> suffix (take k p) w \<and> p ! k = b"
  using assms by (auto simp: take_Suc_conv_app_nth)

lemma found_step: "found p (w @ [b]) = found p (take (found p w) p @ [b])"
proof (rule found_cong)
  fix k assume k: "k \<le> length p"
  show "suffix (take k p) (w @ [b]) \<longleftrightarrow> suffix (take k p) (take (found p w) p @ [b])"
  proof (cases k)
    case (Suc j)
    have "suffix (take j p) w \<longleftrightarrow> suffix (take j p) (take (found p w) p)"
    proof
      assume j: "suffix (take j p) w"
      then have "j \<le> found p w" using found_max Suc k by simp
      then show "suffix (take j p) (take (found p w) p)"
        using suffix_length_suffix [OF j found_suffix] found_le [of p w] Suc k by simp
    next
      assume "suffix (take j p) (take (found p w) p)"
      then show "suffix (take j p) w" using found_suffix by (rule suffix_order.trans)
    qed
    then show ?thesis using k unfolding Suc by (simp only: suffix_snoc_take)
  qed simp
qed

lemma found_tl:
  assumes "found p w < length w"
  shows "found p w = found p (tl w)"
proof -
  have "k \<le> found p w \<Longrightarrow> suffix (take k p) w \<longleftrightarrow> suffix (take k p) (tl w)" if "k \<le> length p" for k
  proof -
    assume "k \<le> found p w"
    then have "length (take k p) < length w" using assms that by simp
    moreover have "take k p \<noteq> w" using calculation by auto
    ultimately show ?thesis by (cases w) (auto simp: suffix_Cons)
  qed
  moreover have "suffix (take k p) (tl w) \<Longrightarrow> suffix (take k p) w" for k
    by (cases w) (auto simp: suffix_Cons)
  ultimately have "k \<le> length p \<Longrightarrow> suffix (take k p) w \<longleftrightarrow> suffix (take k p) (tl w)" for k
    using found_max by blast
  then show ?thesis by (rule found_cong)
qed

section \<open>The rows of the table\<close>

definition row :: "u8 list \<Rightarrow> nat \<Rightarrow> u8 \<Rightarrow> u8" where
  "row tab q b = tab ! (q * 256 + unat b)"

lemma unat_u8: "unat (b :: u8) < 256"
  using unsigned_less [of b, where 'a = nat] by simp

lemma row_index: "q * 256 + unat (b :: u8) = q' * 256 + unat (c :: u8) \<longleftrightarrow> q = q' \<and> b = c"
proof
  assume eq: "q * 256 + unat b = q' * 256 + unat c"
  then have "(q * 256 + unat b) div 256 = (q' * 256 + unat c) div 256" by simp
  then have "q = q'" using unat_u8 [of b] unat_u8 [of c] by simp
  then show "q = q' \<and> b = c" using eq by (simp add: word_unat_eq_iff)
qed simp

lemma row_bound: "q < n \<Longrightarrow> q * 256 + unat (b :: u8) < n * 256"
  using unat_u8 [of b] by linarith

lemma row_copy_at:
  assumes "length tab = n * 256" and "state < n" and "length r = 256" and "q < n"
  shows "row (copy_at tab (state * 256) r) q b = (if q = state then r ! unat b else row tab q b)"
proof -
  have "state * 256 + length r \<le> length tab" using assms by linarith
  moreover have "state * 256 \<le> q * 256 + unat b \<and> q * 256 + unat b < state * 256 + 256 \<longleftrightarrow> q = state"
    using unat_u8 [of b] by linarith
  ultimately show ?thesis using row_bound [OF assms(4), of b] assms(1,3) by (simp add: row_def nth_copy_at)
qed

lemma row_put:
  assumes "length tab = n * 256" and "state < n"
  shows "row (tab[state * 256 + unat c := v]) q b = (if q = state \<and> b = c then v else row tab q b)"
proof -
  have "row (tab[state * 256 + unat c := v]) q b
      = (if q * 256 + unat b = state * 256 + unat c then v else tab ! (q * 256 + unat b))"
    using row_bound [OF assms(2), of c] assms(1) by (auto simp: row_def)
  then show ?thesis unfolding row_index by (simp add: row_def)
qed

lemma nth_row_slice:
  "length tab = n * 256 \<Longrightarrow> q < n \<Longrightarrow> slice tab (q * 256) (q * 256 + 256) ! unat b = row tab q b"
  using unat_u8 [of b] by (simp add: row_def nth_slice)

lemma length_row_slice: "length tab = n * 256 \<Longrightarrow> q < n \<Longrightarrow> length (slice tab (q * 256) (q * 256 + 256)) = 256"
  by simp

definition rows_ok :: "u8 list \<Rightarrow> nat \<Rightarrow> bytes \<Rightarrow> nat \<Rightarrow> bool" where
  "rows_ok tab base p j \<longleftrightarrow> (\<forall>i < j. \<forall>b. row tab (base + i) b = of_nat (base + found p (take i p @ [b])))"

lemma found_next: "j < length p \<Longrightarrow> found p (take j p @ [p ! j]) = Suc j"
proof -
  assume j: "j < length p"
  then have "take j p @ [p ! j] = take (Suc j) p" by (simp add: take_Suc_conv_app_nth)
  then show ?thesis using found_max [of "Suc j" p "take (Suc j) p"] found_length [of p "take (Suc j) p"] j by auto
qed

lemma found_other:
  assumes "j < length p" and "b \<noteq> p ! j" and "1 \<le> j"
  shows "found p (take j p @ [b]) = found p (take (found p (drop 1 (take j p))) p @ [b])"
proof -
  let ?w = "take j p @ [b]"
  have "found p ?w \<noteq> length ?w"
  proof
    assume "found p ?w = length ?w"
    then have f: "found p ?w = Suc j" using assms(1) by simp
    then obtain zs where zs: "?w = zs @ take (Suc j) p" using found_suffix [of p ?w] by (auto simp: suffix_def)
    have "zs = []" using arg_cong [OF zs, of length] assms(1) by simp
    then have "take (Suc j) p = ?w" using zs by simp
    then show False using assms(1,2) by (simp add: take_Suc_conv_app_nth)
  qed
  then have "found p ?w = found p (tl ?w)" using found_tl found_length [of p ?w] by simp
  moreover have "tl ?w = drop 1 (take j p) @ [b]" using assms(1,3) by (cases p; cases j) simp_all
  ultimately show ?thesis using found_step [of p "drop 1 (take j p)" b] by simp
qed

definition row_step :: "nat \<Rightarrow> nat \<Rightarrow> u8 \<Rightarrow> u8 list \<Rightarrow> u8 list" where
  "row_step state restart byte tab =
     (copy_at tab (state * 256) (slice tab (restart * 256) (restart * 256 + 256)))[state * 256 + unat byte := of_nat (state + 1)]"

lemma piece_rows_step:
  "restart < base + offset \<Longrightarrow> piece_rows base offset (byte # rest) restart tab =
     piece_rows base (Suc offset) rest (unat (row (row_step (base + offset) restart byte tab) restart byte))
       (row_step (base + offset) restart byte tab)"
  by (simp only: piece_rows.simps Let_def if_True row_step_def row_def)

lemma row_step_ok:
  assumes "length tab = n * 256" and "state < n" and "restart < n"
  shows "length (row_step state restart byte tab) = n * 256"
    and "q < n \<Longrightarrow> row (row_step state restart byte tab) q b
      = (if q = state then (if b = byte then of_nat (state + 1) else row tab restart b) else row tab q b)"
proof -
  let ?r = "slice tab (restart * 256) (restart * 256 + 256)"
  have r: "length ?r = 256" by (rule length_row_slice [OF assms(1,3)])
  then have len: "length (copy_at tab (state * 256) ?r) = n * 256" using assms by (subst length_copy_at) auto
  then show "length (row_step state restart byte tab) = n * 256" by (simp add: row_step_def)
  show "row (row_step state restart byte tab) q b
      = (if q = state then (if b = byte then of_nat (state + 1) else row tab restart b) else row tab q b)" if "q < n"
    unfolding row_step_def row_put [OF len assms(2)] row_copy_at [OF assms(1,2) r that] nth_row_slice [OF assms(1,3)]
    by simp
qed

lemma rows_ok_step:
  assumes tab: "length tab = n * 256" and n: "base + length p < n" and j: "1 \<le> j" "j < length p"
    and rows: "rows_ok tab base p j" and x: "x = found p (drop 1 (take j p))"
  shows "rows_ok (row_step (base + j) (base + x) (p ! j) tab) base p (Suc j)"
    and "row (row_step (base + j) (base + x) (p ! j) tab) (base + x) (p ! j) = of_nat (base + found p (drop 1 (take (Suc j) p)))"
proof -
  have less: "x < j" using found_length [of p "drop 1 (take j p)"] j x by simp
  have bound: "base + j < n" "base + x < n" using n j less by linarith+
  have old: "row tab (base + i) b = of_nat (base + found p (take i p @ [b]))" if "i < j" for i b
    using rows that by (simp add: rows_ok_def)
  note new = row_step_ok(2) [OF tab bound, of _ "p ! j"]
  have "row (row_step (base + j) (base + x) (p ! j) tab) (base + i) b = of_nat (base + found p (take i p @ [b]))"
    if "i < Suc j" for i b
  proof (cases "i = j")
    case True
    then show ?thesis
      using new [OF bound(1), of b] old [OF less, of b] found_next [OF j(2)] found_other [OF j(2) _ j(1), of b] x by auto
  next
    case False
    then show ?thesis using that old [of i b] new [of "base + i" b] bound(1) by simp
  qed
  then show "rows_ok (row_step (base + j) (base + x) (p ! j) tab) base p (Suc j)" by (simp only: rows_ok_def) blast
  have "drop 1 (take (Suc j) p) = drop 1 (take j p) @ [p ! j]" using j by (simp add: take_Suc_conv_app_nth)
  then have "found p (drop 1 (take (Suc j) p)) = found p (take x p @ [p ! j])"
    using found_step [of p "drop 1 (take j p)" "p ! j"] x by simp
  then show "row (row_step (base + j) (base + x) (p ! j) tab) (base + x) (p ! j) = of_nat (base + found p (drop 1 (take (Suc j) p)))"
    using new [OF bound(2), of "p ! j"] old [OF less, of "p ! j"] less by simp
qed

lemma piece_rows_ok:
  assumes "length tab = n * 256" and "base + length p < n" and "n \<le> 256" and "1 \<le> j" and "j \<le> length p"
    and "rows_ok tab base p j" and "restart = base + found p (drop 1 (take j p))"
  shows "\<exists>tab'. piece_rows base j (drop j p) restart tab = Some tab' \<and> length tab' = n * 256
    \<and> rows_ok tab' base p (length p)
    \<and> (\<forall>q b. q < n \<and> (q < base \<or> base + length p \<le> q) \<longrightarrow> row tab' q b = row tab q b)"
  using assms
proof (induction "length p - j" arbitrary: j tab restart)
  case 0
  then have "j = length p" by simp
  then show ?case using 0 by simp
next
  case (Suc d)
  then have j: "j < length p" by simp
  define x where "x = found p (drop 1 (take j p))"
  define tab2 where "tab2 = row_step (base + j) (base + x) (p ! j) tab"
  have x: "x < j" "restart = base + x" using found_length [of p "drop 1 (take j p)"] Suc.prems j by (simp_all add: x_def)
  have bound: "base + j < n" "base + x < n" using Suc.prems(2) j x by linarith+
  have tab2: "length tab2 = n * 256" "rows_ok tab2 base p (Suc j)"
      "row tab2 (base + x) (p ! j) = of_nat (base + found p (drop 1 (take (Suc j) p)))"
    unfolding tab2_def
    using row_step_ok(1) [OF Suc.prems(1) bound] rows_ok_step [OF Suc.prems(1,2,4) j Suc.prems(6) x_def] by blast+
  have "base + found p (drop 1 (take (Suc j) p)) < 256"
    using found_le [of p "drop 1 (take (Suc j) p)"] Suc.prems(2,3) by linarith
  then have restart: "unat (row tab2 (base + x) (p ! j)) = base + found p (drop 1 (take (Suc j) p))"
    unfolding tab2(3) by (simp add: unat_of_nat del: of_nat_add)
  have d: "d = length p - Suc j" "1 \<le> Suc j" "Suc j \<le> length p" using Suc.hyps(2) j by linarith+
  obtain tab' where tab': "piece_rows base (Suc j) (drop (Suc j) p) (unat (row tab2 (base + x) (p ! j))) tab2 = Some tab'"
      "length tab' = n * 256" "rows_ok tab' base p (length p)"
      "\<forall>q b. q < n \<and> (q < base \<or> base + length p \<le> q) \<longrightarrow> row tab' q b = row tab2 q b"
    using Suc.hyps(1) [OF d(1) tab2(1) Suc.prems(2,3) d(2,3) tab2(2) restart] by blast
  have "drop j p = p ! j # drop (Suc j) p" using j by (simp add: Cons_nth_drop_Suc)
  then have "piece_rows base j (drop j p) restart tab = Some tab'"
    using tab'(1) piece_rows_step [of restart base j "p ! j" "drop (Suc j) p" tab] x by (simp add: tab2_def)
  moreover have "row tab2 q b = row tab q b" if "q < n" "q < base \<or> base + length p \<le> q" for q b
    using row_step_ok(2) [OF Suc.prems(1) bound that(1), of "p ! j" b] that j unfolding tab2_def by auto
  ultimately show ?case using tab' by auto
qed

lemma found_first: "p \<noteq> [] \<Longrightarrow> found p [b] = (if b = p ! 0 then 1 else 0)"
proof -
  assume "p \<noteq> []"
  moreover have "found p [b] \<le> 1" using found_length [of p "[b]"] by simp
  moreover have "found p [b] = 1 \<longleftrightarrow> b = p ! 0"
  proof
    assume f: "found p [b] = 1"
    then have "suffix (take 1 p) [b]" using found_suffix [of p "[b]"] by simp
    then show "b = p ! 0" using \<open>p \<noteq> []\<close> by (cases p) (auto simp: suffix_Cons)
  next
    assume "b = p ! 0"
    then show "found p [b] = 1" using found_next [of 0 p] \<open>p \<noteq> []\<close> by simp
  qed
  ultimately show ?thesis by auto
qed

lemma add_piece_ok:
  assumes tab: "length tab = n * 256" and n: "base + length p < n" "n \<le> 256" and p: "p \<noteq> []"
  shows "\<exists>tab'. add_piece base p tab = Some tab' \<and> length tab' = n * 256 \<and> rows_ok tab' base p (length p)
    \<and> (\<forall>q b. q < n \<and> (q < base \<or> base + length p \<le> q) \<longrightarrow> row tab' q b = row tab q b)"
proof -
  let ?r = "replicate 256 (of_nat base) :: u8 list"
  define tab1 where "tab1 = (copy_at tab (base * 256) ?r)[base * 256 + unat (p ! 0) := of_nat (base + 1)]"
  have base: "base < n" using n by linarith
  have r: "length ?r = 256" by (rule length_replicate)
  have len: "length (copy_at tab (base * 256) ?r) = n * 256" using tab base r by (subst length_copy_at) auto
  then have len1: "length tab1 = n * 256" by (simp add: tab1_def)
  have row1: "row tab1 q b = (if q = base then (if b = p ! 0 then of_nat (base + 1) else of_nat base) else row tab q b)"
    if "q < n" for q b
    unfolding tab1_def row_put [OF len base] row_copy_at [OF tab base r that] using unat_u8 [of b]
    by auto
  have "rows_ok tab1 base p 1"
    using row1 [OF base] found_first [OF p] by (auto simp: rows_ok_def)
  moreover have "base = base + found p (drop 1 (take 1 p))"
    using found_length [of p "drop 1 (take 1 p)"] by simp
  moreover have "1 \<le> length p" using p by (cases p) auto
  ultimately obtain tab' where "piece_rows base 1 (drop 1 p) base tab1 = Some tab'" "length tab' = n * 256"
      "rows_ok tab' base p (length p)"
      "\<forall>q b. q < n \<and> (q < base \<or> base + length p \<le> q) \<longrightarrow> row tab' q b = row tab1 q b"
    using piece_rows_ok [OF len1 n(1,2), of 1 base] by blast
  moreover have "add_piece base p tab = piece_rows base 1 (drop 1 p) base tab1"
    by (simp only: add_piece_def Let_def tab1_def)
  moreover have "row tab1 q b = row tab q b" if "q < n" "q < base \<or> base + length p \<le> q" for q b
    using row1 [OF that(1), of b] that(2) p by auto
  ultimately show ?thesis by auto
qed

text \<open>Where a byte takes a state, by the pieces.\<close>

fun goes :: "bytes list \<Rightarrow> nat \<Rightarrow> u8 \<Rightarrow> nat" where
  "goes [] q b = q"
| "goes (p # ps) q b = (if q < length p then found p (take q p @ [b]) else length p + goes ps (q - length p) b)"

lemma add_pieces_ok:
  assumes "length tab = n * 256" and "base + sum_list (map length ps) < n" and "n \<le> 256" and "\<forall>p \<in> set ps. p \<noteq> []"
  shows "\<exists>tab'. add_pieces base ps tab = Some tab' \<and> length tab' = n * 256
    \<and> (\<forall>q b. q < sum_list (map length ps) \<longrightarrow> row tab' (base + q) b = of_nat (base + goes ps q b))
    \<and> (\<forall>q b. q < base \<longrightarrow> row tab' q b = row tab q b)"
  using assms
proof (induction ps arbitrary: base tab)
  case (Cons p ps)
  obtain tab1 where tab1: "add_piece base p tab = Some tab1" "length tab1 = n * 256" "rows_ok tab1 base p (length p)"
      "\<forall>q b. q < n \<and> (q < base \<or> base + length p \<le> q) \<longrightarrow> row tab1 q b = row tab q b"
    using add_piece_ok [of tab n base p] Cons.prems by auto
  obtain tab2 where tab2: "add_pieces (base + length p) ps tab1 = Some tab2" "length tab2 = n * 256"
      "\<forall>q b. q < sum_list (map length ps) \<longrightarrow> row tab2 (base + length p + q) b = of_nat (base + length p + goes ps q b)"
      "\<forall>q b. q < base + length p \<longrightarrow> row tab2 q b = row tab1 q b"
    using Cons.IH [OF tab1(2), of "base + length p"] Cons.prems by auto
  have "row tab2 (base + q) b = of_nat (base + goes (p # ps) q b)" if q: "q < length p + sum_list (map length ps)" for q b
  proof (cases "q < length p")
    case True
    then show ?thesis using tab2(4) tab1(3) by (simp add: rows_ok_def)
  next
    case False
    then have "base + q = base + length p + (q - length p)" "q - length p < sum_list (map length ps)" using q by simp_all
    then show ?thesis using tab2(3) False by (metis add.assoc goes.simps(2))
  qed
  moreover have "row tab2 q b = row tab q b" if "q < base" for q b
    using tab2(4) tab1(4) that Cons.prems(2) by simp
  ultimately show ?case using tab1(1) tab2(1,2) by simp
qed simp

section \<open>Walking the automaton\<close>

definition pieces_size :: "bytes list \<Rightarrow> nat" where
  "pieces_size ps = sum_list (map length ps)"

lemma pieces_size_simps [simp]: "pieces_size [] = 0" "pieces_size (p # ps) = length p + pieces_size ps"
  by (simp_all add: pieces_size_def)

lemma goes_bound: "q \<le> pieces_size ps \<Longrightarrow> goes ps q b \<le> pieces_size ps"
proof (induction ps arbitrary: q)
  case (Cons p ps)
  then show ?case using found_le [of p "take q p @ [b]"] by (auto intro: trans_le_add1)
qed simp

lemma goes_end: "goes ps (pieces_size ps) b = pieces_size ps"
  by (induction ps) simp_all

fun arrives :: "bytes list \<Rightarrow> nat \<Rightarrow> bytes \<Rightarrow> bool" where
  "arrives ps q [] \<longleftrightarrow> q = pieces_size ps"
| "arrives ps q (b # t) \<longleftrightarrow> q = pieces_size ps \<or> arrives ps (goes ps q b) t"

lemma arrives_later: "arrives (p # ps) (length p + q) t \<longleftrightarrow> arrives ps q t"
  by (induction t arbitrary: q) simp_all

lemma arrives_end: "arrives ps (pieces_size ps) t"
  by (cases t) simp_all

lemma arrives_piece:
  assumes ps: "\<And>t. arrives ps 0 t \<longleftrightarrow> in_order ps t"
    and "\<forall>x. prefix x w \<longrightarrow> \<not> suffix p x"
  shows "arrives (p # ps) (found p w) t \<longleftrightarrow> in_order (p # ps) (w @ t)"
  using assms(2)
proof (induction t arbitrary: w)
  case Nil
  then have "found p w \<noteq> length p" by (simp add: found_full)
  then show ?case using in_order_ends [of p ps w] Nil found_le [of p w] by auto
next
  case (Cons b t)
  have less: "found p w < length p" using Cons.prems found_full [of p w] found_le [of p w] by force
  then have goes: "goes (p # ps) (found p w) b = found p (w @ [b])" using found_step [of p w b] by simp
  show ?case
  proof (cases "suffix p (w @ [b])")
    case True
    then have "found p (w @ [b]) = length p + 0" by (simp add: found_full)
    then have "arrives (p # ps) (found p (w @ [b])) t \<longleftrightarrow> in_order ps t"
      using arrives_later [of p ps 0 t] ps by simp
    moreover have "in_order (p # ps) ((w @ [b]) @ t) = in_order ps t"
      using True Cons.prems by (intro in_order_first) (auto simp: strict_prefix_def)
    ultimately show ?thesis using goes less by simp
  next
    case False
    then have "\<forall>x. prefix x (w @ [b]) \<longrightarrow> \<not> suffix p x" using Cons.prems by (auto simp: prefix_snoc)
    then show ?thesis using Cons.IH [of "w @ [b]"] goes less by simp
  qed
qed

lemma arrives_in_order: "\<forall>p \<in> set ps. p \<noteq> [] \<Longrightarrow> arrives ps 0 t \<longleftrightarrow> in_order ps t"
proof (induction ps arbitrary: t)
  case Nil
  then show ?case using arrives_end [of "[]" t] by simp
next
  case (Cons p ps)
  have "\<forall>x. prefix x [] \<longrightarrow> \<not> suffix p x" using Cons.prems by simp
  moreover have "found p [] = 0" using found_length [of p "[]"] by simp
  ultimately show ?case using arrives_piece [of ps "[]" p t] Cons by simp
qed

definition automaton_ok :: "bytes list \<Rightarrow> Sequence \<Rightarrow> bool" where
  "automaton_ok ps s \<longleftrightarrow> 0 < pieces_size ps \<and> pieces_size ps < 255 \<and> pa_done s = of_nat (pieces_size ps)
     \<and> (\<forall>q b. q \<le> pieces_size ps \<longrightarrow> step_of s (of_nat q) b = of_nat (goes ps q b))"

lemma unat_state: "q < 256 \<Longrightarrow> unat (of_nat q :: u8) = q"
  by (simp add: unat_of_nat)

lemma state_eq: "q < 256 \<Longrightarrow> r < 256 \<Longrightarrow> (of_nat q :: u8) = of_nat r \<longleftrightarrow> q = r"
  using unat_state by metis

lemma automaton_done:
  "automaton_ok ps s \<Longrightarrow> q \<le> pieces_size ps \<Longrightarrow> of_nat q = pa_done s \<longleftrightarrow> q = pieces_size ps"
  using state_eq [of q "pieces_size ps"] by (simp add: automaton_ok_def)

lemma holds_from_arrives:
  "automaton_ok ps s \<Longrightarrow> q < pieces_size ps \<Longrightarrow> holds_from s (of_nat q) t \<longleftrightarrow> arrives ps q t"
proof (induction t arbitrary: q)
  case (Cons b t)
  let ?r = "goes ps q b"
  have r: "?r \<le> pieces_size ps" using goes_bound Cons.prems by simp
  have step: "step_of s (of_nat q) b = of_nat ?r" using Cons.prems by (simp add: automaton_ok_def)
  show ?case
  proof (cases "?r = pieces_size ps")
    case True
    then show ?thesis using step automaton_done [OF Cons.prems(1) r] arrives_end [of ps t] by (simp add: Let_def)
  next
    case False
    then show ?thesis using step automaton_done [OF Cons.prems(1) r] Cons r by (simp add: Let_def)
  qed
qed simp

lemma Sequence_new_ok:
  assumes "ps = filter (\<lambda>p. p \<noteq> []) pieces" and "ps \<noteq> []" and "pieces_size ps < 255"
  shows "\<exists>s. Sequence_new pieces = Some (Some s) \<and> automaton_ok ps s \<and> pa_needs s = foldl (\<lambda>bits p. bits OR grams p) 0 ps"
proof -
  let ?total = "pieces_size ps" let ?n = "?total + 1" let ?r = "replicate 256 (of_nat ?total) :: u8 list"
  have ne: "\<forall>p \<in> set ps. p \<noteq> []" using assms(1) by auto
  obtain tab where tab: "add_pieces 0 ps (replicate (?n * 256) 0) = Some tab" "length tab = ?n * 256"
      "\<forall>q b. q < ?total \<longrightarrow> row tab q b = of_nat (goes ps q b)"
    using add_pieces_ok [of "replicate (?n * 256) 0" ?n 0 ps] ne assms(3) by (auto simp: pieces_size_def)
  let ?s = "\<lparr>pa_next = copy_at tab (?total * 256) ?r, pa_done = of_nat ?total,
             pa_needs = foldl (\<lambda>bits p. bits OR grams p) 0 ps\<rparr>"
  have r: "length ?r = 256" by (rule length_replicate)
  have row: "row (copy_at tab (?total * 256) ?r) q b = of_nat (goes ps q b)" if "q \<le> ?total" for q b
    using row_copy_at [OF tab(2) _ r, of ?total q b] that tab(3) goes_end [of ps b] unat_u8 [of b] by auto
  have "step_of ?s (of_nat q) b = row (copy_at tab (?total * 256) ?r) q b" if "q \<le> ?total" for q b
    using unat_state [of q] that assms(3) by (simp add: step_of_def row_def)
  then have "automaton_ok ps ?s"
    using row ne assms(2,3) by (cases ps) (auto simp: automaton_ok_def)
  moreover have "Sequence_new pieces = Some (Some ?s)"
  proof -
    have "unat UNKNOWN = 255" by (simp add: UNKNOWN_def unsigned_minus_1_eq_mask mask_eq_exp_minus_1)
    then show ?thesis using tab(1) assms by (simp add: Sequence_new_def Let_def pieces_size_def)
  qed
  ultimately show ?thesis by auto
qed

section \<open>Walking codes\<close>

lemma foldl_step:
  "automaton_ok ps s \<Longrightarrow> q \<le> pieces_size ps \<Longrightarrow> foldl (step_of s) (of_nat q) bs = of_nat (foldl (goes ps) q bs)"
proof (induction bs arbitrary: q)
  case (Cons b bs)
  then show ?case using goes_bound by (simp add: automaton_ok_def)
qed simp

lemma foldl_goes_bound: "q \<le> pieces_size ps \<Longrightarrow> foldl (goes ps) q bs \<le> pieces_size ps"
  by (induction bs arbitrary: q) (simp_all add: goes_bound)

lemma foldl_goes_end: "foldl (goes ps) (pieces_size ps) bs = pieces_size ps"
  by (induction bs) (simp_all add: goes_end)

lemma arrives_append: "arrives ps q (bs @ t) \<longleftrightarrow> arrives ps (foldl (goes ps) q bs) t"
proof (induction bs arbitrary: q)
  case (Cons b bs)
  then show ?case by (cases "q = pieces_size ps") (simp_all add: goes_end foldl_goes_end arrives_end)
qed simp

definition coded_ok :: "bytes list \<Rightarrow> SymbolTable \<Rightarrow> Sequence \<Rightarrow> Coded \<Rightarrow> bool" where
  "coded_ok ps t s w \<longleftrightarrow> co_sequence w = s \<and> co_table w = t \<and> length (co_steps w) = (pieces_size ps + 1) * 256
     \<and> (\<forall>q code. q \<le> pieces_size ps \<and> row (co_steps w) q code \<noteq> UNKNOWN \<longrightarrow>
          unat code < length (st_symbols t)
          \<and> row (co_steps w) q code = of_nat (foldl (goes ps) q (Symbol_bytes (st_symbols t ! unat code))))"

lemma coded_ok_over: "automaton_ok ps s \<Longrightarrow> coded_ok ps t s (Sequence_over s t)"
proof -
  assume s: "automaton_ok ps s"
  then have n: "Sequence_states s = pieces_size ps + 1" by (simp add: Sequence_states_def automaton_ok_def unat_of_nat)
  have "row (replicate ((pieces_size ps + 1) * 256) UNKNOWN) q code = UNKNOWN" if "q \<le> pieces_size ps" for q code
    using row_bound [of q "pieces_size ps + 1" code] that by (simp add: row_def)
  then show ?thesis by (auto simp: coded_ok_def Sequence_over_def n)
qed

lemma code_step_ok:
  assumes s: "automaton_ok ps s" and t: "table_ok (st_symbols t)" and w: "coded_ok ps t s w" and q: "q \<le> pieces_size ps"
  shows "unat code < length (st_symbols t) \<Longrightarrow> \<exists>w'. coded_ok ps t s w' \<and>
      code_step (of_nat q) code w = (Inr (of_nat (foldl (goes ps) q (Symbol_bytes (st_symbols t ! unat code)))), w')"
    and "\<not> unat code < length (st_symbols t) \<Longrightarrow> code_step (of_nat q) code w = (Inl (Not_in_table code), w)"
proof -
  have small: "pieces_size ps < 255" using s by (simp add: automaton_ok_def)
  then have slot: "co_steps w ! (unat (of_nat q :: u8) * 256 + unat code) = row (co_steps w) q code"
    using unat_state [of q] q by (simp add: row_def)
  show "code_step (of_nat q) code w = (Inl (Not_in_table code), w)" if no: "\<not> unat code < length (st_symbols t)"
  proof -
    have "row (co_steps w) q code = UNKNOWN" using w q no by (auto simp: coded_ok_def)
    then show ?thesis using slot no w by (simp add: code_step_def learn_def SymbolTable_symbol_def coded_ok_def)
  qed
  assume code: "unat code < length (st_symbols t)"
  let ?bs = "Symbol_bytes (st_symbols t ! unat code)" let ?r = "foldl (goes ps) q ?bs"
  show "\<exists>w'. coded_ok ps t s w' \<and> code_step (of_nat q) code w = (Inr (of_nat ?r), w')"
  proof (cases "row (co_steps w) q code = UNKNOWN")
    case False
    then have "row (co_steps w) q code = of_nat ?r" using w q by (simp add: coded_ok_def)
    then show ?thesis using False w slot by (auto simp: code_step_def)
  next
    case True
    let ?w = "w\<lparr>co_steps := (co_steps w)[q * 256 + unat code := of_nat ?r]\<rparr>"
    have "take (sy_len (st_symbols t ! unat code)) (le_bytes 8 (sy_value (st_symbols t ! unat code))) = ?bs"
      using table_nth [OF t code] by (simp add: symbol_ok_def take_le_bytes Symbol_bytes_le)
    then have "code_step (of_nat q) code w = (Inr (of_nat ?r), ?w)"
      using True slot w code foldl_step [OF s q] unat_state [of q] q small
      by (simp add: code_step_def learn_def SymbolTable_symbol_def coded_ok_def Let_def)
    moreover have "row (co_steps ?w) k c = (if k = q \<and> c = code then of_nat ?r else row (co_steps w) k c)" for k c
      using row_put [of "co_steps w" "pieces_size ps + 1" q code "of_nat ?r" k c] w q by (simp add: coded_ok_def)
    then have "coded_ok ps t s ?w" using w code by (auto simp: coded_ok_def)
    ultimately show ?thesis by blast
  qed
qed

text \<open>What a walk may answer for codes that stand for a string, or for none.\<close>

definition walk_tells :: "(bytes \<Rightarrow> bool) \<Rightarrow> fsst_error + bytes \<Rightarrow> fsst_error + bool \<Rightarrow> bool" where
  "walk_tells yes answer r \<longleftrightarrow> (case answer of Inr str \<Rightarrow> r = Inr (yes str) | Inl e \<Rightarrow> r = Inl e \<or> r = Inr True)"

lemma walk_tells_map:
  "walk_tells (\<lambda>str. yes (f str)) answer r \<Longrightarrow> walk_tells yes (map_sum id f answer) r"
  by (cases answer) (simp_all add: walk_tells_def)

lemma walk_codes_ok:
  assumes s: "automaton_ok ps s" and t: "table_ok (st_symbols t)"
  shows "coded_ok ps t s w \<Longrightarrow> q < pieces_size ps \<Longrightarrow>
    \<exists>r w'. walk_codes (of_nat q) codes w = (r, w') \<and> coded_ok ps t s w'
      \<and> walk_tells (arrives ps q) (expand (st_symbols t) codes) r"
proof (induction "st_symbols t" codes arbitrary: q w rule: expand.induct)
  case 1
  then show ?case by (simp add: walk_tells_def)
next
  case (2 code codes)
  have w: "co_sequence w = s" using 2(3) by (simp add: coded_ok_def)
  have at_end: "of_nat k = pa_done s \<longleftrightarrow> k = pieces_size ps" if "k \<le> pieces_size ps" for k
    using automaton_done [OF s that] .
  show ?case
  proof (cases "code = ESCAPE")
    case True
    show ?thesis
    proof (cases codes)
      case Nil
      then show ?thesis using True 2(3) by (simp add: walk_tells_def)
    next
      case (Cons b bs)
      let ?k = "goes ps q b"
      have k: "?k \<le> pieces_size ps" using goes_bound 2(4) by simp
      have step: "step_of s (of_nat q) b = of_nat ?k" using s 2(4) by (simp add: automaton_ok_def)
      have yes: "arrives ps q (b # str) \<longleftrightarrow> arrives ps ?k str" for str using 2(4) by simp
      show ?thesis
      proof (cases "?k = pieces_size ps")
        case yes': True
        then show ?thesis using True Cons 2(3) step at_end [OF k] w arrives_end [of ps] yes
          by (cases "expand (st_symbols t) bs") (simp_all add: Let_def walk_tells_def)
      next
        case False
        then obtain r w' where "walk_codes (of_nat ?k) bs w = (r, w')" "coded_ok ps t s w'"
            "walk_tells (arrives ps ?k) (expand (st_symbols t) bs) r"
          using 2(1) [OF True Cons 2(3), of ?k] k by auto
        then show ?thesis using True Cons step at_end [OF k] w False walk_tells_map [of "arrives ps q" "Cons b"] yes
          by (simp add: Let_def)
      qed
    qed
  next
    case False
    show ?thesis
    proof (cases "unat code < length (st_symbols t)")
      case code: True
      let ?bs = "Symbol_bytes (st_symbols t ! unat code)" let ?k = "foldl (goes ps) q ?bs"
      obtain w1 where w1: "coded_ok ps t s w1" "code_step (of_nat q) code w = (Inr (of_nat ?k), w1)"
        using code_step_ok(1) [OF s t 2(3) _ code, of q] 2(4) by auto
      have k: "?k \<le> pieces_size ps" using foldl_goes_bound 2(4) by simp
      have s1: "co_sequence w1 = s" using w1 by (simp add: coded_ok_def)
      show ?thesis
      proof (cases "?k = pieces_size ps")
        case True
        then show ?thesis using False code w1 s1 at_end [OF k] arrives_end [of ps] arrives_append [of ps q ?bs]
          by (cases "expand (st_symbols t) codes") (simp_all add: walk_tells_def)
      next
        case no: False
        then obtain r w' where "walk_codes (of_nat ?k) codes w1 = (r, w')" "coded_ok ps t s w'"
            "walk_tells (arrives ps ?k) (expand (st_symbols t) codes) r"
          using 2(2) [OF False code w1(1), of ?k] k by auto
        then show ?thesis using False code w1 s1 at_end [OF k] no walk_tells_map [of "arrives ps q" "append ?bs"]
          by (simp add: arrives_append)
      qed
    next
      case no: False
      then show ?thesis using False 2(3,4) code_step_ok(2) [OF s t 2(3) _ no, of q] by (simp add: walk_tells_def)
    qed
  qed
qed

section \<open>The sketch\<close>

lemma windows_Cons: "set (windows x) \<subseteq> set (windows (c # x))"
  by (cases x rule: windows.cases) auto

lemma windows_append_left: "set (windows x) \<subseteq> set (windows (u @ x))"
  by (induction u) (use windows_Cons in \<open>auto simp: subset_iff\<close>)

lemma windows_append_right: "set (windows x) \<subseteq> set (windows (x @ v))"
  by (induction x rule: windows.induct) auto

lemma bit_foldl_or: "bit (foldl (\<lambda>bits x. bits OR f x) v xs) i \<longleftrightarrow> bit v i \<or> (\<exists>x \<in> set xs. bit (f x) i)"
  for v :: u64
  by (induction xs arbitrary: v) (auto simp: bit_or_iff)

lemma bit_grams: "bit (grams str) i \<longleftrightarrow> (\<exists>(a, b, c) \<in> set (windows str). bit (gram a b c) i)"
  using bit_foldl_or [of "\<lambda>(a, b, c). gram a b c" 0 "windows str" i] by (simp add: grams_def case_prod_unfold)

lemma in_order_windows: "in_order ps str \<Longrightarrow> p \<in> set ps \<Longrightarrow> set (windows p) \<subseteq> set (windows str)"
proof (induction ps arbitrary: str)
  case (Cons q ps)
  obtain u v where uv: "str = u @ q @ v" "in_order ps v" using Cons.prems(1) unfolding in_order_iff by blast
  show ?case
  proof (cases "p = q")
    case True
    then show ?thesis using uv(1) windows_append_left windows_append_right by fastforce
  next
    case False
    then have "set (windows p) \<subseteq> set (windows v)" using Cons uv(2) by simp
    then show ?thesis using uv(1) windows_append_left [of v "u @ q"] by (simp add: subset_iff)
  qed
qed simp

lemma needs_in_order:
  assumes "in_order ps str"
  shows "foldl (\<lambda>bits p. bits OR grams p) 0 ps AND grams str = foldl (\<lambda>bits p. bits OR grams p) 0 ps"
  by (rule bit_word_eqI) (use in_order_windows [OF assms] in \<open>fastforce simp: bit_and_iff bit_foldl_or bit_grams\<close>)

section \<open>What the walks answer\<close>

lemma Sequence_new_cases:
  "(if filter (\<lambda>p. p \<noteq> []) pieces = [] \<or> 255 \<le> pieces_size pieces then Sequence_new pieces = Some None
    else \<exists>s. Sequence_new pieces = Some (Some s) \<and> automaton_ok (filter (\<lambda>p. p \<noteq> []) pieces) s
      \<and> pa_needs s = foldl (\<lambda>bits p. bits OR grams p) 0 (filter (\<lambda>p. p \<noteq> []) pieces))"
proof -
  let ?ps = "filter (\<lambda>p. p \<noteq> []) pieces"
  have size: "pieces_size ?ps = pieces_size pieces" by (induction pieces) simp_all
  have "unat UNKNOWN = 255" by (simp add: UNKNOWN_def unsigned_minus_1_eq_mask mask_eq_exp_minus_1)
  then show ?thesis using Sequence_new_ok [of ?ps pieces] size by (auto simp: Sequence_new_def Let_def pieces_size_def)
qed

lemma in_order_nonempty: "in_order (filter (\<lambda>p. p \<noteq> []) pieces) str \<longleftrightarrow> in_order pieces str"
proof (induction pieces arbitrary: str)
  case (Cons p pieces)
  have "in_order ([] # pieces) str \<longleftrightarrow> in_order pieces str"
    unfolding in_order_iff [of "[]"] by (metis append_Nil in_order_suffix suffixI)
  then show ?case using Cons in_order_iff [of p] by (cases "p = []") simp_all
qed simp

lemma automaton_holds:
  assumes "automaton_ok (filter (\<lambda>p. p \<noteq> []) pieces) s"
  shows "Sequence_holds s str \<longleftrightarrow> in_order pieces str"
proof -
  let ?ps = "filter (\<lambda>p. p \<noteq> []) pieces"
  have "Sequence_holds s str \<longleftrightarrow> arrives ?ps 0 str"
    using holds_from_arrives [OF assms, of 0 str] assms by (simp add: Sequence_holds_def automaton_ok_def)
  then show ?thesis using arrives_in_order [of ?ps str] in_order_nonempty by simp
qed

text \<open>
  C13. The automaton answers the question asked. It is made unless there is nothing to find or the
  pieces are longer than 254 bytes between them, and making it never panics; walked by a string it says
  whether the pieces are in the string one after the other; and a string whose sketch lacks a bit the
  automaton needs does not hold them.
\<close>

theorem pattern_holds_exact:
  "(case Sequence_new pieces of
      None \<Rightarrow> False
    | Some None \<Rightarrow> (\<forall>p \<in> set pieces. p = []) \<or> 255 \<le> pieces_size pieces
    | Some (Some s) \<Rightarrow>
        (Sequence_holds s str \<longleftrightarrow> in_order pieces str)
        \<and> (in_order pieces str \<longrightarrow> Sequence_needs s AND grams str = Sequence_needs s))"
proof -
  let ?ps = "filter (\<lambda>p. p \<noteq> []) pieces"
  consider "Sequence_new pieces = Some None" "?ps = [] \<or> 255 \<le> pieces_size pieces"
    | s where "Sequence_new pieces = Some (Some s)" "automaton_ok ?ps s" "pa_needs s = foldl (\<lambda>bits p. bits OR grams p) 0 ?ps"
    using Sequence_new_cases [of pieces] by (auto split: if_splits)
  then show ?thesis
  proof cases
    case 1
    then show ?thesis by (auto simp: filter_empty_conv)
  next
    case 2
    then show ?thesis using automaton_holds [of pieces s str] needs_in_order [of ?ps str] in_order_nonempty [of pieces str]
      by (simp add: Sequence_needs_def)
  qed
qed

lemma pattern_holds_exact_witness:
  "\<exists>s. Sequence_new [[97], [98]] = Some (Some s) \<and> Sequence_holds s [99, 97, 98]
     \<and> Sequence_needs s AND grams [99, 97, 98] = Sequence_needs s"
proof -
  have "\<exists>s. Sequence_new [[97], [98]] = Some (Some s)" using Sequence_new_cases [of "[[97], [98]]"] by auto
  moreover have "in_order [[97], [98]] [99, 97, 98]" by simp
  ultimately show ?thesis using pattern_holds_exact [of "[[97], [98]]" "[99, 97, 98]"] by auto
qed

text \<open>The queries a walker was asked before.\<close>

definition asked :: "bytes list \<Rightarrow> Coded \<Rightarrow> Coded" where
  "asked queries w = foldl (\<lambda>w codes. snd (Coded_holds codes w)) w queries"

lemma asked_ok:
  assumes "automaton_ok ps s" and "table_ok (st_symbols t)"
  shows "coded_ok ps t s w \<Longrightarrow> coded_ok ps t s (asked queries w)"
proof (induction queries arbitrary: w)
  case (Cons codes queries)
  obtain r w' where "Coded_holds codes w = (r, w')" "coded_ok ps t s w'"
    using walk_codes_ok [OF assms Cons.prems, of 0 codes] assms(1) by (auto simp: Coded_holds_def automaton_ok_def)
  then show ?case using Cons.IH [of w'] by (simp add: asked_def)
qed (simp add: asked_def)

text \<open>
  C14. Walking the codes of a compressed string answers as walking the string does, whatever the walker
  was asked before and has remembered; and where it reports an error, decompressing the codes reports
  that error.
\<close>

theorem coded_holds_exact:
  assumes "Sequence_new pieces = Some (Some s)" and "table_ok (st_symbols t)"
  shows "(\<forall>str. decompress t codes [] = Inr str \<longrightarrow>
      fst (Coded_holds codes (asked queries (Sequence_over s t))) = Inr (Sequence_holds s str))
    \<and> (\<forall>e. fst (Coded_holds codes (asked queries (Sequence_over s t))) = Inl e \<longrightarrow> decompress t codes [] = Inl e)"
proof -
  let ?ps = "filter (\<lambda>p. p \<noteq> []) pieces"
  have s: "automaton_ok ?ps s" using Sequence_new_cases [of pieces] assms(1) by (auto split: if_splits)
  have w: "coded_ok ?ps t s (asked queries (Sequence_over s t))"
    using asked_ok [OF s assms(2)] coded_ok_over [OF s] by blast
  obtain r w' where r: "Coded_holds codes (asked queries (Sequence_over s t)) = (r, w')"
      "walk_tells (arrives ?ps 0) (expand (st_symbols t) codes) r"
    using walk_codes_ok [OF s assms(2) w, of 0 codes] s by (auto simp: Coded_holds_def automaton_ok_def)
  have "arrives ?ps 0 str \<longleftrightarrow> Sequence_holds s str" for str
    using holds_from_arrives [OF s, of 0 str] s by (simp add: Sequence_holds_def automaton_ok_def)
  then show ?thesis using r decompress_expand_Nil [OF assms(2), of codes]
    by (cases "expand (st_symbols t) codes") (auto simp: walk_tells_def)
qed

lemma coded_holds_exact_witness:
  "\<exists>s. Sequence_new [[104, 116], [58]] = Some (Some s)
     \<and> fst (Coded_holds [0, 255, 58] (asked [[0], [255]] (Sequence_over s http_table)))
       = Inr (Sequence_holds s [104, 116, 116, 112, 58])"
proof -
  obtain s where s: "Sequence_new [[104, 116], [58]] = Some (Some s)"
    using Sequence_new_cases [of "[[104, 116], [58]]"] by auto
  have "table_ok (st_symbols http_table)"
    using http_table_ok by (simp add: http_table_def SymbolTable_build_def)
  note exact = coded_holds_exact [OF s this, of "[0, 255, 58]" "[[0], [255]]", THEN conjunct1, rule_format, OF http_decompressed]
  show ?thesis using s exact by (intro exI [of _ s] conjI)
qed

end
