(* ===== verification/Lz.thy ===== *)
theory Lz
  imports Prelude
begin

text \<open>
  The match finder of the string encodings: \<open>rudb-encoding/src/lz.rs\<close>.

  \<open>tokens_of\<close> splits bytes into runs of literals and copies from earlier in the output, with hash
  chains over a segment at a time; \<open>replay\<close> puts them together again. A chain walked past the end of
  its table would panic, which is \<open>None\<close>. \<open>replay\<close> takes the literal runs through a callback, and the
  errors it reports of a damaged chunk are values of \<open>lz_error\<close>. A length or an offset is an \<open>i64\<close>
  that counts bytes in memory and is an \<open>int\<close> here.
\<close>

unbundle bit_operations_syntax

section \<open>Taking bytes apart\<close>

definition SEGMENT :: nat where "SEGMENT = 256 * 1024"
definition MIN_MATCH :: nat where "MIN_MATCH = 4"
definition HASH_BITS :: nat where "HASH_BITS = 16"
definition HASH_LEN :: nat where "HASH_LEN = 8"
definition MAX_TRIES :: nat where "MAX_TRIES = 32"

record Tokens =
  tk_literals :: "bytes list"
  tk_lengths :: "int list"
  tk_offsets :: "int list"

record Raw =
  rw_runs :: "(nat \<times> nat) list"
  rw_lengths :: "int list"
  rw_offsets :: "int list"

definition lz_hash :: "bytes \<Rightarrow> nat" where
  "lz_hash bs = unat (drop_bit (64 - HASH_BITS) (le_word (take HASH_LEN bs) * 0x9E3779B97F4A7C15 :: u64))"

text \<open>\<open>u64::trailing_zeros\<close>.\<close>

definition trailing_zeros :: "u64 \<Rightarrow> nat" where
  "trailing_zeros w = length (takeWhile (\<lambda>i. \<not> bit w i) [0..<64])"

function shared_bytes :: "bytes \<Rightarrow> bytes \<Rightarrow> nat \<Rightarrow> nat \<Rightarrow> nat" where
  "shared_bytes a b cap n = (if n < cap \<and> a ! n = b ! n then shared_bytes a b cap (Suc n) else n)"
  by auto
termination by (relation "measure (\<lambda>(a, b, cap, n). cap - n)") auto

function shared_words :: "bytes \<Rightarrow> bytes \<Rightarrow> nat \<Rightarrow> nat \<Rightarrow> nat" where
  "shared_words a b cap n =
     (if n + 8 \<le> cap then
        (let left = le_word (slice a n (n + 8)) :: u64;
             right = le_word (slice b n (n + 8));
             differ = left XOR right
         in if differ \<noteq> 0 then n + trailing_zeros differ div 8 else shared_words a b cap (n + 8))
      else shared_bytes a b cap n)"
  by auto
termination by (relation "measure (\<lambda>(a, b, cap, n). cap - n)") auto

declare shared_bytes.simps [simp del] shared_words.simps [simp del]

definition shared :: "bytes \<Rightarrow> bytes \<Rightarrow> nat" where
  "shared a b = shared_words a b (min (length a) (length b)) 0"

text \<open>
  What a candidate makes of the copy in hand: only a longer one replaces it, and one that differs where
  a longer one would have to agree is not compared.
\<close>

definition better :: "bytes \<Rightarrow> nat \<Rightarrow> nat \<Rightarrow> nat \<Rightarrow> (nat \<times> nat) option \<Rightarrow> (nat \<times> nat) option" where
  "better input at fin position best =
     (if (case best of Some (had, _) \<Rightarrow> input ! (position + had) \<noteq> input ! (at + had) | None \<Rightarrow> False) then best
      else
        (let len = shared (slice input position fin) (slice input at fin)
         in if MIN_MATCH \<le> len \<and> (case best of Some (had, _) \<Rightarrow> had < len | None \<Rightarrow> True)
            then Some (len, at - position) else best))"

definition reaches_end :: "nat \<Rightarrow> nat \<Rightarrow> (nat \<times> nat) option \<Rightarrow> bool" where
  "reaches_end at fin best = (case best of Some (had, _) \<Rightarrow> fin \<le> at + had | None \<Rightarrow> False)"

text \<open>The walk of a chain, for as many tries as are left.\<close>

fun longest_loop ::
  "nat \<Rightarrow> bytes \<Rightarrow> nat \<Rightarrow> nat \<Rightarrow> u32 \<Rightarrow> u32 list \<Rightarrow> nat \<Rightarrow> (nat \<times> nat) option \<Rightarrow> (nat \<times> nat) option option" where
  "longest_loop 0 input at fin candidate prev start best = Some best"
| "longest_loop (Suc tries) input at fin candidate prev start best =
     (if candidate = - 1 then Some best
      else
        (let position = start + unat candidate in
         if at \<le> position \<or> reaches_end at fin best then Some best
         else if unat candidate < length prev
         then longest_loop tries input at fin (prev ! unat candidate) prev start (better input at fin position best)
         else None))"

definition longest :: "bytes \<Rightarrow> nat \<Rightarrow> nat \<Rightarrow> u32 \<Rightarrow> u32 list \<Rightarrow> nat \<Rightarrow> (nat \<times> nat) option option" where
  "longest input at fin candidate prev start = longest_loop MAX_TRIES input at fin candidate prev start None"

definition chain_at :: "bytes \<Rightarrow> nat \<Rightarrow> nat \<Rightarrow> u32 list \<Rightarrow> nat \<times> u32" where
  "chain_at input at fin head =
     (if fin < at + HASH_LEN then (0, - 1)
      else (let key = lz_hash (slice input at (at + HASH_LEN)) in (key, head ! key)))"

definition chain_insert ::
  "bytes \<Rightarrow> nat \<Rightarrow> nat \<Rightarrow> nat \<Rightarrow> u32 list \<times> u32 list \<Rightarrow> u32 list \<times> u32 list" where
  "chain_insert input fin start at hp =
     (case hp of (head, prev) \<Rightarrow>
        if fin < at + HASH_LEN then (head, prev)
        else (let key = lz_hash (slice input at (at + HASH_LEN)); slot = at - start
              in (head[key := of_nat slot], prev[slot := head ! key])))"

definition push_token :: "Raw \<Rightarrow> nat \<times> nat \<Rightarrow> nat \<Rightarrow> nat \<Rightarrow> Raw" where
  "push_token raw run len offset =
     raw\<lparr>rw_runs := rw_runs raw @ [run], rw_lengths := rw_lengths raw @ [int len], rw_offsets := rw_offsets raw @ [int offset]\<rparr>"

lemma longest_loop_min:
  "longest_loop n input at fin candidate prev start best = Some (Some (len, offset)) \<Longrightarrow>
     (\<And>l f. best = Some (l, f) \<Longrightarrow> MIN_MATCH \<le> l) \<Longrightarrow> MIN_MATCH \<le> len"
proof (induction n arbitrary: candidate best)
  case (Suc n)
  have "MIN_MATCH \<le> l" if "better input at fin position best = Some (l, f)" for position l f
    using that Suc.prems(2) by (auto simp: better_def Let_def split: if_splits)
  then show ?case using Suc by (auto simp: Let_def split: if_splits)
qed simp

lemma longest_min: "longest input at fin candidate prev start = Some (Some (len, offset)) \<Longrightarrow> 0 < len"
  using longest_loop_min [of MAX_TRIES input at fin candidate prev start None len offset]
  by (simp add: longest_def MIN_MATCH_def)

function matches_loop ::
  "bytes \<Rightarrow> nat \<Rightarrow> nat \<Rightarrow> nat \<Rightarrow> nat \<Rightarrow> nat \<times> u32 \<Rightarrow> u32 list \<Rightarrow> u32 list \<Rightarrow> Raw
     \<Rightarrow> (nat \<times> u32 list \<times> u32 list \<times> Raw) option" where
  "matches_loop input start fin literal_start at chain head prev raw =
     (if at + HASH_LEN \<le> fin then
        (let (next_key, next_first) = chain_at input (at + 1) fin head;
             slot = at - start;
             prev' = prev[slot := snd chain];
             head' = head[fst chain := of_nat slot]
         in case longest input at fin (snd chain) prev start of
              None \<Rightarrow> None
            | Some (Some (len, offset)) \<Rightarrow>
                (let raw = push_token raw (literal_start, at) len offset;
                     (head', prev') = foldl (\<lambda>hp step. chain_insert input fin start (at + step) hp) (head', prev') [1..<len]
                 in matches_loop input start fin (at + len) (at + len) (chain_at input (at + len) fin head') head' prev' raw)
            | Some None \<Rightarrow>
                matches_loop input start fin literal_start (at + 1)
                  (next_key, if next_key = fst chain then of_nat slot else next_first) head' prev' raw)
      else Some (literal_start, head, prev, raw))"
  by pat_completeness auto
termination
  by (relation "measure (\<lambda>(input, start, fin, literal_start, at, chain, head, prev, raw). fin - at)")
    (auto simp: HASH_LEN_def dest: longest_min)

declare matches_loop.simps [simp del]

definition matches_in ::
  "bytes \<Rightarrow> nat \<Rightarrow> nat \<Rightarrow> u32 list \<Rightarrow> u32 list \<Rightarrow> Raw \<Rightarrow> (u32 list \<times> u32 list \<times> Raw) option" where
  "matches_in input start fin head prev raw =
     (case matches_loop input start fin start start (chain_at input start fin head) head prev raw of
        None \<Rightarrow> None
      | Some (literal_start, head, prev, raw) \<Rightarrow>
          Some (head, prev, if literal_start < fin then push_token raw (literal_start, fin) 0 0 else raw))"

function segments_loop :: "bytes \<Rightarrow> nat \<Rightarrow> u32 list \<Rightarrow> u32 list \<Rightarrow> Raw \<Rightarrow> Raw option" where
  "segments_loop input start head prev raw =
     (if start < length input then
        (let fin = min (start + SEGMENT) (length input)
         in case matches_in input start fin (replicate (length head) (- 1)) prev raw of
              None \<Rightarrow> None
            | Some (head, prev, raw) \<Rightarrow> segments_loop input fin head prev raw)
      else Some raw)"
  by auto
termination
  by (relation "measure (\<lambda>(input, start, head, prev, raw). length input - start)") (auto simp: SEGMENT_def)

declare segments_loop.simps [simp del]

definition tokens_of :: "bytes \<Rightarrow> Tokens option" where
  "tokens_of input =
     (let head = replicate (2 ^ HASH_BITS) (- 1);
          span = max (min SEGMENT (length input)) 1
      in map_option (\<lambda>raw.
           \<lparr>tk_literals = map (\<lambda>(from_at, to_at). slice input from_at to_at) (rw_runs raw),
            tk_lengths = rw_lengths raw, tk_offsets = rw_offsets raw\<rparr>)
         (segments_loop input 0 head (replicate span (- 1)) \<lparr>rw_runs = [], rw_lengths = [], rw_offsets = []\<rparr>))"

section \<open>Putting them together\<close>

datatype lz_error = Counts_disagree nat nat nat | Negative_length | Negative_offset | Reaches_back nat nat

fun copy_bytes :: "nat \<Rightarrow> nat \<Rightarrow> nat \<Rightarrow> bytes \<Rightarrow> bytes" where
  "copy_bytes 0 from_at step out = out"
| "copy_bytes (Suc n) from_at step out = copy_bytes n from_at (Suc step) (out @ [out ! (from_at + step)])"

definition copy_token :: "nat \<Rightarrow> int \<Rightarrow> int \<Rightarrow> bytes \<Rightarrow> lz_error + bytes" where
  "copy_token base len offset out =
     (if len < 0 then Inl Negative_length
      else if len = 0 then Inr out
      else if offset < 0 then Inl Negative_offset
      else if nat offset = 0 \<or> length out - base < nat offset then Inl (Reaches_back (nat offset) (length out - base))
      else (let from_at = length out - nat offset in
            if nat len \<le> nat offset then Inr (out @ slice out from_at (from_at + nat len))
            else Inr (copy_bytes (nat len) from_at 0 out)))"

fun replay_from ::
  "(nat \<Rightarrow> bytes \<Rightarrow> lz_error + bytes) \<Rightarrow> nat \<Rightarrow> nat \<Rightarrow> int list \<Rightarrow> int list \<Rightarrow> bytes \<Rightarrow> lz_error + bytes" where
  "replay_from run base index (len # lens) (offset # offsets) out =
     (case run index out of
        Inl e \<Rightarrow> Inl e
      | Inr out \<Rightarrow>
          (case copy_token base len offset out of
             Inl e \<Rightarrow> Inl e
           | Inr out \<Rightarrow> replay_from run base (Suc index) lens offsets out))"
| "replay_from run base index _ _ out = Inr out"

definition replay_tokens ::
  "nat \<Rightarrow> (nat \<Rightarrow> bytes \<Rightarrow> lz_error + bytes) \<Rightarrow> int list \<Rightarrow> int list \<Rightarrow> bytes \<Rightarrow> lz_error + bytes" where
  "replay_tokens runs run lengths offsets out =
     (if runs \<noteq> length lengths \<or> length lengths \<noteq> length offsets
      then Inl (Counts_disagree runs (length lengths) (length offsets))
      else replay_from run (length out) 0 lengths offsets out)"

definition rebuild :: "bytes list \<Rightarrow> int list \<Rightarrow> int list \<Rightarrow> lz_error + bytes" where
  "rebuild literals lengths offsets =
     replay_tokens (length literals) (\<lambda>index out. Inr (out @ literals ! index)) lengths offsets []"

section \<open>How much two strings share\<close>

definition agree_to :: "bytes \<Rightarrow> bytes \<Rightarrow> nat \<Rightarrow> nat \<Rightarrow> nat \<Rightarrow> bool" where
  "agree_to a b cap n m \<longleftrightarrow> n \<le> m \<and> m \<le> cap \<and> (\<forall>i. n \<le> i \<and> i < m \<longrightarrow> a ! i = b ! i) \<and> (m = cap \<or> a ! m \<noteq> b ! m)"

lemma agree_to_extend:
  assumes "agree_to a b cap k m" and "n \<le> k" and "\<And>i. n \<le> i \<Longrightarrow> i < k \<Longrightarrow> a ! i = b ! i"
  shows "agree_to a b cap n m"
  using assms unfolding agree_to_def by (meson linorder_not_less order_trans)

lemma shared_bytes_agree: "n \<le> cap \<Longrightarrow> agree_to a b cap n (shared_bytes a b cap n)"
proof (induction a b cap n rule: shared_bytes.induct)
  case (1 a b cap n)
  show ?case
  proof (cases "n < cap \<and> a ! n = b ! n")
    case True
    then have "agree_to a b cap (Suc n) (shared_bytes a b cap (Suc n))" using 1 by simp
    then have "agree_to a b cap n (shared_bytes a b cap (Suc n))"
      by (rule agree_to_extend) (use True in \<open>auto simp: less_Suc_eq\<close>)
    then show ?thesis using True by (subst shared_bytes.simps) simp
  next
    case False
    then show ?thesis using 1 by (subst shared_bytes.simps) (auto simp: agree_to_def)
  qed
qed

lemma trailing_zeros_first:
  assumes "w \<noteq> 0"
  shows "trailing_zeros w < 64" "bit w (trailing_zeros w)" "j < trailing_zeros w \<Longrightarrow> \<not> bit w j"
proof -
  let ?t = "takeWhile (\<lambda>i. \<not> bit w i) [0..<64]"
  obtain i where i: "bit w i" using assms by (auto simp: bit_eq_iff)
  then have "i < 64" by (auto dest: bit_imp_le_length)
  have "?t \<noteq> [0..<64]"
  proof
    assume "?t = [0..<64]"
    then have "\<forall>x \<in> set [0..<64]. \<not> bit w x" by (simp add: takeWhile_eq_all_conv)
    then show False using i \<open>i < 64\<close> by simp
  qed
  then have less: "length ?t < length [0..<64]"
    by (metis le_neq_implies_less length_takeWhile_le takeWhile_eq_take take_all order_refl)
  then show t: "trailing_zeros w < 64" by (simp add: trailing_zeros_def)
  have nth: "[0..<64] ! j = j" if "j < 64" for j using that by simp
  show "bit w (trailing_zeros w)" using nth_length_takeWhile [OF less] nth [OF t] by (simp add: trailing_zeros_def)
  show "\<not> bit w j" if j: "j < trailing_zeros w"
  proof -
    have "?t ! j = j" using j t takeWhile_nth [of j "\<lambda>i. \<not> bit w i" "[0..<64]"] nth [of j]
      by (simp add: trailing_zeros_def)
    moreover have "?t ! j \<in> set ?t" using j by (intro nth_mem) (simp add: trailing_zeros_def)
    ultimately show ?thesis by (metis set_takeWhileD)
  qed
qed

lemma word_differ:
  fixes a b :: bytes
  assumes "length a = 8" and "length b = 8"
  defines "d \<equiv> (le_word a XOR le_word b :: u64)"
  shows "d = 0 \<longleftrightarrow> a = b"
    and "d \<noteq> 0 \<Longrightarrow> trailing_zeros d div 8 < 8 \<and> a ! (trailing_zeros d div 8) \<noteq> b ! (trailing_zeros d div 8)
      \<and> (\<forall>i < trailing_zeros d div 8. a ! i = b ! i)"
proof -
  have bit: "bit d (8 * i + k) \<longleftrightarrow> bit (a ! i) k \<noteq> bit (b ! i) k" if "i < 8" "k < 8" for i k
  proof -
    have "(8 * i + k) div 8 = i" "(8 * i + k) mod 8 = k" "8 * i + k < 64" using that by auto
    then show ?thesis using that assms by (simp add: d_def bit_xor_iff bit_le_word)
  qed
  show "d = 0 \<longleftrightarrow> a = b"
  proof
    assume "d = 0"
    then have "le_bytes 8 (le_word a :: u64) = le_bytes 8 (le_word b :: u64)" by (simp add: d_def word_xor_eq_0)
    then show "a = b" using le_bytes_le_word [where 'a = 64, of a] le_bytes_le_word [where 'a = 64, of b] assms(1,2) by simp
  qed (simp add: d_def)
  assume d: "d \<noteq> 0"
  let ?t = "trailing_zeros d" let ?i = "?t div 8"
  have t: "?t < 64" "bit d ?t" "\<And>j. j < ?t \<Longrightarrow> \<not> bit d j" using trailing_zeros_first [OF d] by auto
  then have i: "?i < 8" by linarith
  have "a ! ?i \<noteq> b ! ?i" using bit [OF i, of "?t mod 8"] t(2) by auto
  moreover have "a ! j = b ! j" if j: "j < ?i" for j
  proof (rule bit_word_eqI)
    fix k assume "k < LENGTH(8)"
    then have k: "k < 8" by simp
    then have "8 * j + k < ?t" using j by linarith
    then show "bit (a ! j) k = bit (b ! j) k" using bit [of j k] t(3) j i k by auto
  qed
  ultimately show "?i < 8 \<and> a ! ?i \<noteq> b ! ?i \<and> (\<forall>j < ?i. a ! j = b ! j)" using i by blast
qed

lemma shared_words_agree:
  "n \<le> cap \<Longrightarrow> cap \<le> length a \<Longrightarrow> cap \<le> length b \<Longrightarrow> agree_to a b cap n (shared_words a b cap n)"
proof (induction a b cap n rule: shared_words.induct)
  case (1 a b cap n)
  show ?case
  proof (cases "n + 8 \<le> cap")
    case True
    let ?a = "slice a n (n + 8)" let ?b = "slice b n (n + 8)" let ?d = "le_word ?a XOR le_word ?b :: u64"
    have len: "length ?a = 8" "length ?b = 8" using True 1(3,4) by simp_all
    have nth: "?a ! i = a ! (n + i)" "?b ! i = b ! (n + i)" if "i < 8" for i
      using that True 1(3,4) by (simp_all add: nth_slice)
    show ?thesis
    proof (cases "?d = 0")
      case zero: True
      then have "?a = ?b" using word_differ(1) [OF len] by simp
      then have same: "a ! (n + i) = b ! (n + i)" if "i < 8" for i using nth [OF that] by simp
      have "agree_to a b cap (n + 8) (shared_words a b cap (n + 8))" using 1(1) [OF True refl refl refl] zero 1(3,4) True by simp
      then have "agree_to a b cap n (shared_words a b cap (n + 8))"
      proof (rule agree_to_extend)
        show "a ! i = b ! i" if "n \<le> i" "i < n + 8" for i using same [of "i - n"] that by simp
      qed simp
      then show ?thesis using True zero by (subst shared_words.simps) (simp add: Let_def)
    next
      case False
      let ?k = "trailing_zeros ?d div 8"
      have k: "?k < 8" "?a ! ?k \<noteq> ?b ! ?k" "\<forall>i < ?k. ?a ! i = ?b ! i" using word_differ(2) [OF len False] by auto
      have "a ! i = b ! i" if "n \<le> i" "i < n + ?k" for i using k(3) [rule_format, of "i - n"] nth [of "i - n"] that k(1) by simp
      then have "agree_to a b cap n (n + ?k)" using k(1,2) nth [OF k(1)] True by (simp add: agree_to_def)
      then show ?thesis using True False by (subst shared_words.simps) (simp add: Let_def)
    qed
  next
    case False
    then show ?thesis using 1(2) shared_bytes_agree by (subst shared_words.simps) simp
  qed
qed

lemma shared_prefix:
  assumes "i < shared a b"
  shows "i < length a" "i < length b" "a ! i = b ! i"
  using shared_words_agree [of 0 "min (length a) (length b)" a b] assms by (auto simp: shared_def agree_to_def)

section \<open>A copy that is found is there\<close>

definition copy_ok :: "bytes \<Rightarrow> nat \<Rightarrow> nat \<Rightarrow> nat \<times> nat \<Rightarrow> bool" where
  "copy_ok input at fin lo \<longleftrightarrow> (case lo of (len, offset) \<Rightarrow>
     1 \<le> offset \<and> offset \<le> at \<and> 0 < len \<and> at + len \<le> fin \<and> (\<forall>i < len. input ! (at + i) = input ! (at - offset + i)))"

definition links_ok :: "nat \<Rightarrow> u32 list \<Rightarrow> bool" where
  "links_ok n xs \<longleftrightarrow> (\<forall>x \<in> set xs. x = - 1 \<or> unat x < n)"

lemma copy_ok_shared:
  assumes "position < at" and "at < fin" and "fin \<le> length input"
    and "MIN_MATCH \<le> shared (slice input position fin) (slice input at fin)"
  shows "copy_ok input at fin (shared (slice input position fin) (slice input at fin), at - position)"
proof -
  let ?n = "shared (slice input position fin) (slice input at fin)"
  have n: "0 < ?n" using assms(4) by (simp add: MIN_MATCH_def)
  have nth: "i < fin - at" "input ! (at + i) = input ! (position + i)" if "i < ?n" for i
    using shared_prefix [OF that] assms(1-3) by (simp_all add: nth_slice)
  have "at + ?n \<le> fin" using nth(1) [of "?n - 1"] n by linarith
  then show ?thesis using nth(2) n assms(1) by (simp add: copy_ok_def)
qed

lemma better_ok:
  assumes "position < at" and "at < fin" and "fin \<le> length input" and "\<forall>lo. best = Some lo \<longrightarrow> copy_ok input at fin lo"
  shows "\<forall>lo. better input at fin position best = Some lo \<longrightarrow> copy_ok input at fin lo"
  using assms(4) copy_ok_shared [OF assms(1-3)] by (simp add: better_def Let_def)

lemma longest_loop_ok:
  assumes "at < fin" and "fin \<le> length input" and "links_ok (length prev) prev"
  shows "candidate = - 1 \<or> unat candidate < length prev \<Longrightarrow> \<forall>lo. best = Some lo \<longrightarrow> copy_ok input at fin lo \<Longrightarrow>
    \<exists>r. longest_loop n input at fin candidate prev start best = Some r \<and> (\<forall>lo. r = Some lo \<longrightarrow> copy_ok input at fin lo)"
proof (induction n arbitrary: candidate best)
  case (Suc n)
  let ?pos = "start + unat candidate"
  show ?case
  proof (cases "candidate = - 1 \<or> at \<le> ?pos \<or> reaches_end at fin best")
    case True
    then have "longest_loop (Suc n) input at fin candidate prev start best = Some best" by (auto simp: Let_def)
    then show ?thesis using Suc.prems(2) by simp
  next
    case False
    then have cand: "unat candidate < length prev" using Suc.prems(1) by blast
    have link: "prev ! unat candidate = - 1 \<or> unat (prev ! unat candidate) < length prev"
      using assms(3) nth_mem [OF cand] unfolding links_ok_def by blast
    have "\<forall>lo. better input at fin ?pos best = Some lo \<longrightarrow> copy_ok input at fin lo"
      by (rule better_ok [OF _ assms(1,2) Suc.prems(2)]) (use False in linarith)
    moreover have "longest_loop (Suc n) input at fin candidate prev start best
        = longest_loop n input at fin (prev ! unat candidate) prev start (better input at fin ?pos best)"
      using False cand by (simp add: Let_def)
    ultimately show ?thesis using Suc.IH [OF link] by simp
  qed
qed simp

lemma longest_ok:
  assumes "at < fin" and "fin \<le> length input" and "links_ok (length prev) prev" and "c = - 1 \<or> unat c < length prev"
  shows "\<exists>r. longest input at fin c prev start = Some r \<and> (\<forall>lo. r = Some lo \<longrightarrow> copy_ok input at fin lo)"
  using longest_loop_ok [OF assms, of None MAX_TRIES start] by (simp add: longest_def)

lemma links_ok_update: "links_ok n xs \<Longrightarrow> v = - 1 \<or> unat v < n \<Longrightarrow> links_ok n (xs[i := v])"
  by (auto simp: links_ok_def dest!: set_update_subset_insert [THEN subsetD])

lemma links_ok_nth: "links_ok n xs \<Longrightarrow> i < length xs \<Longrightarrow> xs ! i = - 1 \<or> unat (xs ! i) < n"
  unfolding links_ok_def by (meson nth_mem)

section \<open>Replaying one more token\<close>

lemma replay_from_snoc:
  assumes "length ls = length fs"
  shows "replay_from run base k (ls @ [l]) (fs @ [f]) out =
    (case replay_from run base k ls fs out of
       Inl e \<Rightarrow> Inl e
     | Inr out \<Rightarrow> (case run (k + length ls) out of Inl e \<Rightarrow> Inl e | Inr out \<Rightarrow> copy_token base l f out))"
  using assms by (induction ls fs arbitrary: k out rule: list_induct2) (simp_all split: sum.split)

lemma replay_from_cong:
  assumes "length ls = length fs" and "\<And>i out. i < k + length ls \<Longrightarrow> run i out = run' i out"
  shows "replay_from run base k ls fs out = replay_from run' base k ls fs out"
  using assms by (induction ls fs arbitrary: k out rule: list_induct2) (simp_all split: sum.split)

lemma rebuild_snoc:
  assumes "length lits = length ls" and "length ls = length fs" and "rebuild lits ls fs = Inr out"
  shows "rebuild (lits @ [lit]) (ls @ [l]) (fs @ [f]) = copy_token 0 l f (out @ lit)"
proof -
  let ?run = "\<lambda>lits i out. Inr (out @ lits ! i) :: lz_error + bytes"
  have "replay_from (?run (lits @ [lit])) 0 0 ls fs [] = replay_from (?run lits) 0 0 ls fs []"
    using assms(1,2) by (intro replay_from_cong) (simp_all add: nth_append)
  moreover have "(lits @ [lit]) ! length fs = lit" using assms(1,2) by (simp add: nth_append)
  ultimately show ?thesis using assms by (simp add: rebuild_def replay_tokens_def replay_from_snoc)
qed

lemma copy_bytes_take:
  assumes "at + step + n \<le> length input" and "offset \<le> at" and "1 \<le> offset"
    and "\<forall>i < step + n. input ! (at + i) = input ! (at - offset + i)"
  shows "copy_bytes n (at - offset) step (take (at + step) input) = take (at + step + n) input"
  using assms
proof (induction n arbitrary: step)
  case (Suc n)
  have "take (at + step) input ! (at - offset + step) = input ! (at - offset + step)" using Suc.prems by simp
  also have "\<dots> = input ! (at + step)" using Suc.prems(4) by simp
  finally have "take (at + step) input @ [take (at + step) input ! (at - offset + step)] = take (at + Suc step) input"
    using Suc.prems(1) by (simp add: take_Suc_conv_app_nth)
  then show ?case using Suc.IH [of "Suc step"] Suc.prems by simp
qed simp

lemma copy_token_take:
  assumes "copy_ok input at fin (len, offset)" and "fin \<le> length input"
  shows "copy_token 0 (int len) (int offset) (take at input) = Inr (take (at + len) input)"
proof -
  have c: "1 \<le> offset" "offset \<le> at" "0 < len" "at + len \<le> length input"
      "\<forall>i < len. input ! (at + i) = input ! (at - offset + i)"
    using assms by (auto simp: copy_ok_def)
  have at: "length (take at input) = at" using c(4) by simp
  show ?thesis
  proof (cases "len \<le> offset")
    case True
    have "slice (take at input) (at - offset) (at - offset + len) = slice input at (at + len)"
      using c True by (intro nth_equalityI) (auto simp: nth_slice slice_take)
    moreover have "take at input @ slice input at (at + len) = take (at + len) input"
      using slice_split [of 0 at "at + len" input] by simp
    ultimately show ?thesis using c True at by (simp add: copy_token_def)
  next
    case False
    then show ?thesis using c at copy_bytes_take [of at 0 len input offset] by (simp add: copy_token_def)
  qed
qed

section \<open>The tokens of a segment and of the input\<close>

definition replays :: "bytes \<Rightarrow> Raw \<Rightarrow> nat \<Rightarrow> bool" where
  "replays input raw pos \<longleftrightarrow> length (rw_runs raw) = length (rw_lengths raw) \<and> length (rw_lengths raw) = length (rw_offsets raw)
     \<and> rebuild (map (\<lambda>(a, b). slice input a b) (rw_runs raw)) (rw_lengths raw) (rw_offsets raw) = Inr (take pos input)"

lemma replays_push:
  assumes "replays input raw ls" and "ls \<le> at" and "copy_ok input at fin (len, offset)" and "fin \<le> length input"
  shows "replays input (push_token raw (ls, at) len offset) (at + len)"
proof -
  have "take ls input @ slice input ls at = take at input" using slice_split [of 0 ls at input] assms(2) by simp
  then show ?thesis
    using assms(1) copy_token_take [OF assms(3,4)]
      rebuild_snoc [of "map (\<lambda>(a, b). slice input a b) (rw_runs raw)" "rw_lengths raw" "rw_offsets raw" "take ls input"
        "slice input ls at" "int len" "int offset"]
    by (simp add: replays_def push_token_def)
qed

lemma replays_end:
  assumes "replays input raw ls" and "ls \<le> fin"
  shows "replays input (push_token raw (ls, fin) 0 0) fin"
proof -
  have "take ls input @ slice input ls fin = take fin input" using slice_split [of 0 ls fin input] assms(2) by simp
  then show ?thesis
    using assms(1)
      rebuild_snoc [of "map (\<lambda>(a, b). slice input a b) (rw_runs raw)" "rw_lengths raw" "rw_offsets raw" "take ls input"
        "slice input ls fin" 0 0]
    by (simp add: replays_def push_token_def copy_token_def)
qed

definition tables_ok :: "nat \<Rightarrow> u32 list \<times> u32 list \<Rightarrow> bool" where
  "tables_ok n hp \<longleftrightarrow> (case hp of (head, prev) \<Rightarrow>
     length head = 2 ^ HASH_BITS \<and> length prev = n \<and> links_ok n head \<and> links_ok n prev)"

lemma lz_hash_less: "lz_hash bs < 2 ^ HASH_BITS"
proof -
  have "unat (drop_bit (64 - 16) v) < 2 ^ 16" for v :: u64
    using unsigned_less [of v, where 'a = nat] unat_drop_bit_eq [of "64 - 16" v]
    by (simp only: drop_bit_eq_div) (simp add: less_mult_imp_div_less)
  then show ?thesis by (simp only: lz_hash_def HASH_BITS_def)
qed

lemma slot_ok: "slot < n \<Longrightarrow> unat (of_nat slot :: u32) < n"
  by (metis le_less_trans mod_less_eq_dividend unat_of_nat)

lemma chain_at_ok:
  "tables_ok n (head, prev) \<Longrightarrow> snd (chain_at input at fin head) = - 1 \<or> unat (snd (chain_at input at fin head)) < n"
  using links_ok_nth [of n head "lz_hash (slice input at (at + HASH_LEN))"] lz_hash_less
  by (auto simp: chain_at_def Let_def tables_ok_def)

lemma chain_insert_ok:
  assumes "tables_ok n hp" and "fin - start \<le> n" and "start \<le> at"
  shows "tables_ok n (chain_insert input fin start at hp)"
proof (cases hp)
  case (Pair head prev)
  let ?key = "lz_hash (slice input at (at + HASH_LEN))"
  have t: "length head = 2 ^ HASH_BITS" "length prev = n" "links_ok n head" "links_ok n prev"
    using assms(1) Pair by (simp_all add: tables_ok_def)
  show ?thesis
  proof (cases "fin < at + HASH_LEN")
    case False
    then have "at - start < n" using assms(2,3) by (simp add: HASH_LEN_def)
    then have "links_ok n (head[?key := of_nat (at - start)])" using t(3) slot_ok links_ok_update by blast
    moreover have "links_ok n (prev[at - start := head ! ?key])"
      using links_ok_nth [OF t(3), of ?key] t(1) lz_hash_less links_ok_update [OF t(4)] by simp
    ultimately show ?thesis using t(1,2) False Pair by (simp add: chain_insert_def tables_ok_def Let_def)
  qed (use assms(1) Pair in \<open>simp add: chain_insert_def\<close>)
qed

lemma foldl_chain_insert_ok:
  assumes "tables_ok n hp" and "fin - start \<le> n" and "start \<le> at"
  shows "tables_ok n (foldl (\<lambda>hp step. chain_insert input fin start (at + step) hp) hp steps)"
  using assms(1)
proof (induction steps arbitrary: hp)
  case (Cons step steps)
  have "start \<le> at + step" using assms(3) by simp
  then show ?case using Cons chain_insert_ok [OF _ assms(2)] by simp
qed simp

lemma matches_loop_ok:
  assumes fin: "fin \<le> length input" "fin - start \<le> n"
  shows "tables_ok n (head, prev) \<Longrightarrow> snd chain = - 1 \<or> unat (snd chain) < n \<Longrightarrow> start \<le> at \<Longrightarrow> ls \<le> at \<Longrightarrow> at \<le> fin \<Longrightarrow>
    replays input raw ls \<Longrightarrow>
    \<exists>ls' head' prev' raw'. matches_loop input start fin ls at chain head prev raw = Some (ls', head', prev', raw')
      \<and> tables_ok n (head', prev') \<and> ls' \<le> fin \<and> replays input raw' ls'"
proof (induction "fin - at" arbitrary: at ls chain head prev raw rule: less_induct)
  case less
  show ?case
  proof (cases "at + HASH_LEN \<le> fin")
    case False
    then show ?thesis using less.prems by (subst matches_loop.simps) simp
  next
    case True
    then have at: "at < fin" by (simp add: HASH_LEN_def)
    let ?slot = "at - start" let ?head = "head[fst chain := of_nat ?slot]" let ?prev = "prev[?slot := snd chain]"
    have slot: "?slot < n" using fin(2) less.prems(3) at by linarith
    have t: "tables_ok n (?head, ?prev)"
      using less.prems(1,2) slot_ok [OF slot] links_ok_update by (auto simp: tables_ok_def)
    obtain next_key next_first where nk: "chain_at input (at + 1) fin head = (next_key, next_first)" by fastforce
    have nf: "next_first = - 1 \<or> unat next_first < n" using chain_at_ok [OF less.prems(1), of input "at + 1" fin] nk by simp
    obtain r where r: "longest input at fin (snd chain) prev start = Some r" "\<forall>lo. r = Some lo \<longrightarrow> copy_ok input at fin lo"
      using longest_ok [OF at fin(1), of prev "snd chain" start] less.prems(1,2) by (auto simp: tables_ok_def)
    show ?thesis
    proof (cases r)
      case None
      let ?chain = "(next_key, if next_key = fst chain then of_nat ?slot else next_first)"
      have "matches_loop input start fin ls at chain head prev raw = matches_loop input start fin ls (at + 1) ?chain ?head ?prev raw"
        using True r(1) None nk by (subst matches_loop.simps) (simp add: Let_def)
      moreover have "fin - (at + 1) < fin - at" using at by simp
      ultimately show ?thesis
        using less(1) [of "at + 1" ?head ?prev ?chain ls raw] t nf slot_ok [OF slot] less.prems at by auto
    next
      case (Some lo)
      obtain len offset where lo: "lo = (len, offset)" by (cases lo)
      have c: "copy_ok input at fin (len, offset)" using r(2) Some lo by simp
      then have len: "0 < len" "at + len \<le> fin" by (auto simp: copy_ok_def)
      obtain head2 prev2 where hp: "foldl (\<lambda>hp step. chain_insert input fin start (at + step) hp) (?head, ?prev) [1..<len] = (head2, prev2)"
        by fastforce
      have t2: "tables_ok n (head2, prev2)"
        using foldl_chain_insert_ok [OF t fin(2) less.prems(3), of input "[1..<len]"] hp by simp
      let ?raw = "push_token raw (ls, at) len offset"
      have "matches_loop input start fin ls at chain head prev raw
          = matches_loop input start fin (at + len) (at + len) (chain_at input (at + len) fin head2) head2 prev2 ?raw"
        using True r(1) Some lo nk hp by (subst matches_loop.simps) (simp add: Let_def)
      moreover have "fin - (at + len) < fin - at" using at len by simp
      ultimately show ?thesis
        using less(1) [of "at + len" head2 prev2 "chain_at input (at + len) fin head2" "at + len" ?raw] t2
          chain_at_ok [OF t2] less.prems len replays_push [OF less.prems(6,4) c fin(1)] by simp
    qed
  qed
qed

lemma matches_in_ok:
  assumes "fin \<le> length input" "fin - start \<le> n" "start \<le> fin" "tables_ok n (head, prev)" "replays input raw start"
  shows "\<exists>head' prev' raw'. matches_in input start fin head prev raw = Some (head', prev', raw')
    \<and> tables_ok n (head', prev') \<and> replays input raw' fin"
proof -
  obtain ls head' prev' raw' where
      "matches_loop input start fin start start (chain_at input start fin head) head prev raw = Some (ls, head', prev', raw')"
      "tables_ok n (head', prev')" "ls \<le> fin" "replays input raw' ls"
    using matches_loop_ok [OF assms(1,2,4) chain_at_ok [OF assms(4)] order_refl order_refl assms(3,5)] by blast
  then show ?thesis using replays_end [of input raw' ls fin] by (auto simp: matches_in_def)
qed

lemma segments_loop_ok:
  "tables_ok n (head, prev) \<Longrightarrow> min SEGMENT (length input) \<le> n \<Longrightarrow> start \<le> length input \<Longrightarrow> replays input raw start \<Longrightarrow>
     \<exists>raw'. segments_loop input start head prev raw = Some raw' \<and> replays input raw' (length input)"
proof (induction "length input - start" arbitrary: start head prev raw rule: less_induct)
  case less
  show ?case
  proof (cases "start < length input")
    case False
    then show ?thesis using less.prems by (subst segments_loop.simps) simp
  next
    case True
    let ?fin = "min (start + SEGMENT) (length input)" let ?head = "replicate (length head) (- 1)"
    have "tables_ok n (?head, prev)" using less.prems(1) by (simp add: tables_ok_def links_ok_def)
    moreover have "?fin \<le> length input" "?fin - start \<le> n" "start \<le> ?fin" using less.prems(2,3) by linarith+
    ultimately obtain head' prev' raw' where m: "matches_in input start ?fin ?head prev raw = Some (head', prev', raw')"
        "tables_ok n (head', prev')" "replays input raw' ?fin"
      using matches_in_ok less.prems(4) by blast
    have "length input - ?fin < length input - start" using True by (simp add: SEGMENT_def)
    then have "\<exists>raw''. segments_loop input ?fin head' prev' raw' = Some raw'' \<and> replays input raw'' (length input)"
      using less(1) [OF _ m(2) less.prems(2) _ m(3)] by simp
    then show ?thesis using True m(1) by (subst segments_loop.simps) (simp add: Let_def)
  qed
qed

text \<open>
  C12. Any bytes taken apart into literal runs and copies are put together again as they were: the match
  finder ends, never walks off its chains, and whatever copies it settles for, replaying its tokens
  gives the input.
\<close>

theorem lz_read_back:
  "\<exists>t. tokens_of input = Some t \<and> rebuild (tk_literals t) (tk_lengths t) (tk_offsets t) = Inr input"
proof -
  let ?head = "replicate (2 ^ HASH_BITS) (- 1) :: u32 list" let ?span = "max (min SEGMENT (length input)) 1"
  let ?raw = "\<lparr>rw_runs = [], rw_lengths = [], rw_offsets = []\<rparr>"
  have "tables_ok ?span (?head, replicate ?span (- 1))" by (simp add: tables_ok_def links_ok_def)
  moreover have "replays input ?raw 0" by (simp add: replays_def rebuild_def replay_tokens_def)
  ultimately obtain raw where "segments_loop input 0 ?head (replicate ?span (- 1)) ?raw = Some raw" "replays input raw (length input)"
    using segments_loop_ok [of ?span ?head "replicate ?span (- 1)" input 0 ?raw] by auto
  then show ?thesis by (simp add: tokens_of_def Let_def replays_def)
qed

text \<open>
  C20. Comparing eight bytes at a time and telling the first difference by the zeros at the end of a word
  finds how many bytes two strings start with in common, neither more nor less.
\<close>

theorem shared_exact: "shared a b = length (takeWhile (\<lambda>(x, y). x = y) (zip a b))"
proof -
  let ?m = "shared a b"
  have m: "?m \<le> min (length a) (length b)" "\<And>i. i < ?m \<Longrightarrow> a ! i = b ! i"
      "?m = min (length a) (length b) \<or> a ! ?m \<noteq> b ! ?m"
    using shared_words_agree [of 0 "min (length a) (length b)" a b] by (auto simp: shared_def agree_to_def)
  have "takeWhile (\<lambda>(x, y). x = y) (zip a b) = take ?m (zip a b)"
    by (rule takeWhile_eq_take_P_nth) (use m in auto)
  then show ?thesis using m(1) by simp
qed

end
