(* ===== verification/Bitpack.thy ===== *)
theory Bitpack
  imports Prelude
begin

text \<open>
  Bit packing in the transposed layout and in the sequential one: \<open>rudb-encoding/src/bitpack.rs\<close>.

  A type \<open>T\<close> that can be packed is a word type, \<open>LENGTH('a)\<close> its \<open>WIDTH\<close>; the code seals the trait to
  8, 16, 32 and 64 bits. A buffer that is written is an argument and the buffer afterwards the result;
  what a call that fails leaves in it is not modelled, and no caller reads it.
\<close>

unbundle bit_operations_syntax

section \<open>The layout\<close>

datatype bp_error =
    Vector_len nat | Too_wide nat nat | Packed_len nat nat | Does_not_fit u64 nat
  | Not_zero nat | Outside_unit nat | Whole_unit nat | Too_short nat nat | Nothing_before

definition VALUES :: nat where "VALUES = 1024"
definition ORDER :: "nat list" where "ORDER = [0, 4, 2, 6, 1, 5, 3, 7]"
definition WINDOW :: nat where "WINDOW = 16"
definition NARROW :: nat where "NARROW = 57"

definition LANES :: "nat \<Rightarrow> nat" where
  "LANES w = VALUES div w"

definition to_u64 :: "'a::len word \<Rightarrow> u64" where
  "to_u64 v = ucast v"

definition from_u64 :: "u64 \<Rightarrow> 'a::len word" where
  "from_u64 v = ucast v"

definition low_mask :: "nat \<Rightarrow> u64" where
  "low_mask bits = (if 64 \<le> bits then - 1 else push_bit bits 1 - 1)"

definition shift_right :: "u64 \<Rightarrow> nat \<Rightarrow> u64" where
  "shift_right v bits = (if 64 \<le> bits then 0 else drop_bit bits v)"

definition check_vector_len :: "nat \<Rightarrow> bp_error + unit" where
  "check_vector_len len = (if len = VALUES then Inr () else Inl (Vector_len len))"

definition check_width :: "nat \<Rightarrow> nat \<Rightarrow> bp_error + unit" where
  "check_width w width = (if width \<le> w then Inr () else Inl (Too_wide width w))"

fun position_nonzero :: "nat \<Rightarrow> 'a::len word list \<Rightarrow> nat option" where
  "position_nonzero i [] = None"
| "position_nonzero i (v # vs) = (if to_u64 v \<noteq> 0 then Some i else position_nonzero (Suc i) vs)"

definition check_all_zero :: "'a::len word list \<Rightarrow> bp_error + unit" where
  "check_all_zero input = (case position_nonzero 0 input of None \<Rightarrow> Inr () | Some index \<Rightarrow> Inl (Not_zero index))"

definition source_index :: "nat \<Rightarrow> nat \<Rightarrow> nat \<Rightarrow> nat" where
  "source_index w row lane =
     (let group_size = w div 8; grp = row div group_size; offset = row mod group_size
      in (offset * 8 + ORDER ! grp) * LANES w + lane)"

text \<open>The rows and lanes in the order of the two loops.\<close>

definition cells :: "nat \<Rightarrow> (nat \<times> nat) list" where
  "cells w = List.product [0..<w] [0..<LANES w]"

definition transpose :: "'a::len word list \<Rightarrow> 'a word list \<Rightarrow> bp_error + 'a word list" where
  "transpose input output =
     (let w = LENGTH('a) in
      case check_vector_len (length input) of Inl e \<Rightarrow> Inl e | Inr _ \<Rightarrow>
      case check_vector_len (length output) of Inl e \<Rightarrow> Inl e | Inr _ \<Rightarrow>
      Inr (foldl (\<lambda>out (row, lane). out[row * LANES w + lane := input ! source_index w row lane]) output (cells w)))"

definition untranspose :: "'a::len word list \<Rightarrow> 'a word list \<Rightarrow> bp_error + 'a word list" where
  "untranspose input output =
     (let w = LENGTH('a) in
      case check_vector_len (length input) of Inl e \<Rightarrow> Inl e | Inr _ \<Rightarrow>
      case check_vector_len (length output) of Inl e \<Rightarrow> Inl e | Inr _ \<Rightarrow>
      Inr (foldl (\<lambda>out (row, lane). out[source_index w row lane := input ! (row * LANES w + lane)]) output (cells w)))"

definition packed_len :: "nat \<Rightarrow> nat \<Rightarrow> nat" where
  "packed_len w width = width * LANES w"

definition unit_len :: "nat \<Rightarrow> nat" where
  "unit_len width = packed_len 64 width * 8"

text \<open>\<open>u64::leading_zeros\<close>.\<close>

definition leading_zeros :: "u64 \<Rightarrow> nat" where
  "leading_zeros v = length (takeWhile (\<lambda>i. \<not> bit v (63 - i)) [0..<64])"

definition required_width :: "'a::len word list \<Rightarrow> nat" where
  "required_width values =
     (let most = (if values = [] then 0 else to_u64 (foldl max (hd values) (tl values))) in 64 - leading_zeros most)"

section \<open>Packing a unit\<close>

record 'o Packing =
  pk_filled :: nat
  pk_acc :: u64
  pk_word :: nat
  pk_out :: "'o list"

definition pack_row :: "nat \<Rightarrow> nat \<Rightarrow> nat \<Rightarrow> u64 \<Rightarrow> 'a::len word Packing \<Rightarrow> bp_error + 'a word Packing" where
  "pack_row lanes lane width v s =
     (let w = LENGTH('a) in
      if v AND NOT (low_mask width) \<noteq> 0 then Inl (Does_not_fit v width)
      else
        (let acc = pk_acc s OR push_bit (pk_filled s) v;
             filled = pk_filled s + width
         in if w \<le> filled then
              Inr \<lparr>pk_filled = filled - w, pk_acc = shift_right v (width - (filled - w)), pk_word = pk_word s + 1,
                   pk_out = (pk_out s)[pk_word s * lanes + lane := from_u64 (acc AND low_mask w)]\<rparr>
            else Inr (s\<lparr>pk_filled := filled, pk_acc := acc\<rparr>)))"

fun pack_rows :: "nat \<Rightarrow> nat \<Rightarrow> nat \<Rightarrow> 'a::len word list \<Rightarrow> nat list \<Rightarrow> 'a word Packing \<Rightarrow> bp_error + 'a word Packing" where
  "pack_rows lanes lane width input [] s = Inr s"
| "pack_rows lanes lane width input (row # rows) s =
     (case pack_row lanes lane width (to_u64 (input ! (row * lanes + lane))) s of
        Inl e \<Rightarrow> Inl e
      | Inr s \<Rightarrow> pack_rows lanes lane width input rows s)"

fun pack_lanes :: "nat \<Rightarrow> nat \<Rightarrow> 'a::len word list \<Rightarrow> nat list \<Rightarrow> 'a word list \<Rightarrow> bp_error + 'a word list" where
  "pack_lanes lanes width input [] out = Inr out"
| "pack_lanes lanes width input (lane # rest) out =
     (case pack_rows lanes lane width input [0..<LENGTH('a)] \<lparr>pk_filled = 0, pk_acc = 0, pk_word = 0, pk_out = out\<rparr> of
        Inl e \<Rightarrow> Inl e
      | Inr s \<Rightarrow> pack_lanes lanes width input rest (pk_out s))"

definition pack_transposed :: "'a::len word list \<Rightarrow> nat \<Rightarrow> 'a word list \<Rightarrow> bp_error + 'a word list" where
  "pack_transposed input width output =
     (let w = LENGTH('a) in
      case check_vector_len (length input) of Inl e \<Rightarrow> Inl e | Inr _ \<Rightarrow>
      case check_width w width of Inl e \<Rightarrow> Inl e | Inr _ \<Rightarrow>
      if length output \<noteq> packed_len w width then Inl (Packed_len (packed_len w width) (length output))
      else if width = 0 then (case check_all_zero input of Inl e \<Rightarrow> Inl e | Inr _ \<Rightarrow> Inr output)
      else pack_lanes (LANES w) width input [0..<LANES w] output)"

record 'o Unpacking =
  un_available :: nat
  un_buffer :: u64
  un_word :: nat
  un_out :: "'o list"

definition unpack_row :: "nat \<Rightarrow> nat \<Rightarrow> nat \<Rightarrow> 'a::len word list \<Rightarrow> 'a word Unpacking \<Rightarrow> nat \<Rightarrow> 'a word Unpacking" where
  "unpack_row lanes lane width input s row =
     (let w = LENGTH('a) in
      if width \<le> un_available s then
        s\<lparr>un_buffer := shift_right (un_buffer s) width, un_available := un_available s - width,
          un_out := (un_out s)[row * lanes + lane := from_u64 (un_buffer s AND low_mask width)]\<rparr>
      else
        (let nxt = to_u64 (input ! (un_word s * lanes + lane));
             taken = width - un_available s;
             v = un_buffer s OR push_bit (un_available s) (nxt AND low_mask taken)
         in \<lparr>un_available = w - taken, un_buffer = shift_right nxt taken, un_word = un_word s + 1,
             un_out = (un_out s)[row * lanes + lane := from_u64 v]\<rparr>))"

definition unpack_lane :: "nat \<Rightarrow> nat \<Rightarrow> 'a::len word list \<Rightarrow> 'a word list \<Rightarrow> nat \<Rightarrow> 'a word list" where
  "unpack_lane lanes width input out lane =
     un_out (foldl (unpack_row lanes lane width input)
       \<lparr>un_available = 0, un_buffer = 0, un_word = 0, un_out = out\<rparr> [0..<LENGTH('a)])"

definition unpack_transposed :: "'a::len word list \<Rightarrow> nat \<Rightarrow> 'a word list \<Rightarrow> bp_error + 'a word list" where
  "unpack_transposed input width output =
     (let w = LENGTH('a) in
      case check_width w width of Inl e \<Rightarrow> Inl e | Inr _ \<Rightarrow>
      case check_vector_len (length output) of Inl e \<Rightarrow> Inl e | Inr _ \<Rightarrow>
      if length input \<noteq> packed_len w width then Inl (Packed_len (packed_len w width) (length input))
      else if width = 0 then Inr (replicate (length output) (from_u64 0))
      else Inr (foldl (unpack_lane (LANES w) width input) output [0..<LANES w]))"

text \<open>\<open>pack_with\<close> gives the scratch buffer back; \<open>pack\<close> starts from a new one.\<close>

definition Scratch_ready :: "'a::len word list \<Rightarrow> 'a word list" where
  "Scratch_ready scratch = (if length scratch \<noteq> VALUES then resize scratch VALUES (from_u64 0) else scratch)"

definition pack_with ::
  "'a::len word list \<Rightarrow> nat \<Rightarrow> 'a word list \<Rightarrow> 'a word list \<Rightarrow> bp_error + 'a word list \<times> 'a word list" where
  "pack_with input width output scratch =
     (case check_vector_len (length input) of Inl e \<Rightarrow> Inl e | Inr _ \<Rightarrow>
      case transpose input (Scratch_ready scratch) of Inl e \<Rightarrow> Inl e | Inr scratch \<Rightarrow>
      case pack_transposed scratch width output of Inl e \<Rightarrow> Inl e | Inr output \<Rightarrow> Inr (output, scratch))"

definition pack :: "'a::len word list \<Rightarrow> nat \<Rightarrow> 'a word list \<Rightarrow> bp_error + 'a word list" where
  "pack input width output = map_sum (\<lambda>e. e) fst (pack_with input width output [])"

text \<open>A row of the fused unpacking: the word and the shift are the row's, the lanes follow one another.\<close>

definition row_value :: "nat \<Rightarrow> nat \<Rightarrow> (nat \<Rightarrow> u64) \<Rightarrow> nat \<Rightarrow> u64" where
  "row_value w width word_of row =
     (let bit_at = row * width; wd = bit_at div w; shift = bit_at mod w in
      if shift + width \<le> w then drop_bit shift (word_of wd) AND low_mask width
      else (drop_bit shift (word_of wd) OR push_bit (w - shift) (word_of (wd + 1))) AND low_mask width)"

definition row_base :: "nat \<Rightarrow> nat \<Rightarrow> nat" where
  "row_base w row = ((row mod (w div 8)) * 8 + ORDER ! (row div (w div 8))) * LANES w"

definition unpack_mapped :: "'a::len word list \<Rightarrow> nat \<Rightarrow> 'u list \<Rightarrow> (u64 \<Rightarrow> 'u) \<Rightarrow> bp_error + 'u list" where
  "unpack_mapped input width output val =
     (let w = LENGTH('a) in
      case check_width w width of Inl e \<Rightarrow> Inl e | Inr _ \<Rightarrow>
      case check_vector_len (length output) of Inl e \<Rightarrow> Inl e | Inr _ \<Rightarrow>
      if length input \<noteq> packed_len w width then Inl (Packed_len (packed_len w width) (length input))
      else if width = 0 then Inr (replicate (length output) (val 0))
      else Inr (foldl (\<lambda>out (row, lane).
                  out[row_base w row + lane := val (row_value w width (\<lambda>wd. to_u64 (input ! (wd * LANES w + lane))) row)])
                output (cells w)))"

definition unpack :: "'a::len word list \<Rightarrow> nat \<Rightarrow> 'a word list \<Rightarrow> bp_error + 'a word list" where
  "unpack input width output = unpack_mapped input width output from_u64"

section \<open>A unit as it lies in a chunk\<close>

definition word_at :: "bytes \<Rightarrow> nat \<Rightarrow> u64" where
  "word_at input at = le_word (slice input at (at + 8))"

definition unpack_unit_into :: "bytes \<Rightarrow> nat \<Rightarrow> 'u list \<Rightarrow> (u64 \<Rightarrow> 'u) \<Rightarrow> bp_error + 'u list" where
  "unpack_unit_into input width output val =
     (case check_width 64 width of Inl e \<Rightarrow> Inl e | Inr _ \<Rightarrow>
      case check_vector_len (length output) of Inl e \<Rightarrow> Inl e | Inr _ \<Rightarrow>
      if length input \<noteq> unit_len width then Inl (Packed_len (unit_len width) (length input))
      else if width = 0 then Inr (replicate (length output) (val 0))
      else
        (let stride = LANES 64 * 8 in
         Inr (foldl (\<lambda>out (row, lane).
                out[row_base 64 row + lane := val (row_value 64 width (\<lambda>wd. word_at input (wd * stride + lane * 8)) row)])
              output (cells 64))))"

definition unit_value :: "bytes \<Rightarrow> nat \<Rightarrow> nat \<Rightarrow> u64" where
  "unit_value input width index =
     (let lanes = LANES 64; block = index div lanes; lane = index mod lanes;
          grp = ORDER ! (block mod 8); row = grp * (64 div 8) + block div 8;
          bit_at = row * width; wd = bit_at div 64; shift = bit_at mod 64;
          low = word_at input ((wd * lanes + lane) * 8);
          bits = (if shift + width \<le> 64 then drop_bit shift low
                  else drop_bit shift low OR push_bit (64 - shift) (word_at input (((wd + 1) * lanes + lane) * 8)))
      in bits AND low_mask width)"

text \<open>The values handed to the callback, and the error of the first index outside the unit.\<close>

fun unpack_each :: "bytes \<Rightarrow> nat \<Rightarrow> nat list \<Rightarrow> u64 list \<Rightarrow> bp_error option \<times> u64 list" where
  "unpack_each input width [] out = (None, out)"
| "unpack_each input width (index # indices) out =
     (if VALUES \<le> index then (Some (Outside_unit index), out)
      else unpack_each input width indices (out @ [if width = 0 then 0 else unit_value input width index]))"

definition unpack_u64_each :: "bytes \<Rightarrow> nat \<Rightarrow> nat list \<Rightarrow> bp_error option \<times> u64 list" where
  "unpack_u64_each input width indices =
     (case check_width 64 width of Inl e \<Rightarrow> (Some e, []) | Inr _ \<Rightarrow>
      let expected = packed_len 64 width * 8 in
      if length input \<noteq> expected then (Some (Packed_len expected (length input)), [])
      else unpack_each input width indices [])"

definition unpack_u64_at :: "bytes \<Rightarrow> nat \<Rightarrow> nat \<Rightarrow> bp_error + u64" where
  "unpack_u64_at input width index =
     (case unpack_u64_each input width [index] of
        (Some e, _) \<Rightarrow> Inl e
      | (None, found) \<Rightarrow> Inr (if found = [] then 0 else last found))"

section \<open>The sequential layout\<close>

definition div_ceil8 :: "nat \<Rightarrow> nat" where
  "div_ceil8 n = (n + 7) div 8"

definition tail_len :: "nat \<Rightarrow> nat \<Rightarrow> nat" where
  "tail_len n width = div_ceil8 (n * width)"

definition check_tail :: "nat \<Rightarrow> nat \<Rightarrow> bp_error + unit" where
  "check_tail n width =
     (if VALUES \<le> n then Inl (Whole_unit n) else if 64 < width then Inl (Too_wide width 64) else Inr ())"

fun pack_values :: "nat \<Rightarrow> u64 list \<Rightarrow> u128 \<times> nat \<times> bytes \<Rightarrow> bp_error + u128 \<times> nat \<times> bytes" where
  "pack_values width [] s = Inr s"
| "pack_values width (v # vs) s =
     (case s of (acc, filled, out) \<Rightarrow>
        if v AND NOT (low_mask width) \<noteq> 0 then Inl (Does_not_fit v width)
        else
          (let acc = acc OR push_bit filled (ucast v); filled = filled + width in
           if 64 \<le> filled
           then pack_values width vs (drop_bit 64 acc, filled - 64, out @ le_bytes 8 (ucast acc :: u64))
           else pack_values width vs (acc, filled, out)))"

function push_rest :: "u128 \<Rightarrow> nat \<Rightarrow> bytes \<Rightarrow> bytes" where
  "push_rest acc filled out =
     (if 8 \<le> filled then push_rest (drop_bit 8 acc) (filled - 8) (out @ [ucast (acc AND 0xff)])
      else if 0 < filled then out @ [ucast (acc AND 0xff)]
      else out)"
  by auto
termination by (relation "measure (\<lambda>(acc, filled, out). filled)") auto

declare push_rest.simps [simp del]

definition pack_linear :: "u64 list \<Rightarrow> nat \<Rightarrow> bytes \<Rightarrow> bp_error + bytes" where
  "pack_linear values width output =
     (if 64 < width then Inl (Too_wide width 64)
      else if width = 0 then (case check_all_zero values of Inl e \<Rightarrow> Inl e | Inr _ \<Rightarrow> Inr output)
      else
        (case pack_values width values (0, 0, output) of
           Inl e \<Rightarrow> Inl e
         | Inr (acc, filled, output) \<Rightarrow> Inr (push_rest acc filled output)))"

definition pack_tail :: "u64 list \<Rightarrow> nat \<Rightarrow> bytes \<Rightarrow> bp_error + bytes" where
  "pack_tail values width output =
     (case check_tail (length values) width of Inl e \<Rightarrow> Inl e | Inr _ \<Rightarrow> pack_linear values width output)"

definition read_window :: "u64 \<Rightarrow> u128 \<Rightarrow> nat \<Rightarrow> u64" where
  "read_window msk window bit_at = ucast (drop_bit bit_at window AND ucast msk)"

definition unpack_tail_into :: "bytes \<Rightarrow> nat \<Rightarrow> 'u list \<Rightarrow> (u64 \<Rightarrow> 'u) \<Rightarrow> bp_error + 'u list" where
  "unpack_tail_into input width output val =
     (let n = length output; msk = low_mask width in
      case check_tail n width of Inl e \<Rightarrow> Inl e | Inr _ \<Rightarrow>
      if width = 0 then Inr (replicate n (val 0))
      else if length input < tail_len n width then Inl (Too_short (tail_len n width) (length input))
      else if length input < WINDOW then
        (let word = le_word (input @ replicate (WINDOW - length input) 0)
         in Inr (map (\<lambda>index. val (read_window msk word (index * width))) [0..<n]))
      else
        (let whole = min ((length input - WINDOW) * 8 div width + 1) n;
             first =
               (if width \<le> NARROW
                then map (\<lambda>index. val (drop_bit (index * width mod 8) (word_at input (index * width div 8)) AND msk)) [0..<whole]
                else map (\<lambda>index. val (read_window msk
                            (le_word (slice input (index * width div 8) (index * width div 8 + WINDOW))) (index * width mod 8))) [0..<whole]);
             base = length input - WINDOW;
             word = le_word (drop base input)
         in Inr (first @ map (\<lambda>offset. val (read_window msk word ((whole + offset) * width - base * 8))) [0..<n - whole])))"

definition unpack_tail :: "bytes \<Rightarrow> nat \<Rightarrow> nat \<Rightarrow> bp_error + u64 list" where
  "unpack_tail input width n =
     (case check_tail n width of Inl e \<Rightarrow> Inl e | Inr _ \<Rightarrow>
        unpack_tail_into input width (replicate n 0) (\<lambda>bits. bits))"

definition tail_at_rest :: "bytes \<Rightarrow> nat \<Rightarrow> nat \<Rightarrow> bp_error + u64" where
  "tail_at_rest input width index =
     (if 64 < width then Inl (Too_wide width 64)
      else if width = 0 then Inr 0
      else
        (let start = index * width; fin = start + width in
         if length input < div_ceil8 fin then Inl (Too_short (div_ceil8 fin) (length input))
         else
           (let first = start div 8; lst = (fin - 1) div 8 in
            if first + 8 \<le> length input \<and> lst - first < 8
            then Inr (drop_bit (start mod 8) (word_at input first) AND low_mask width)
            else
              (let window = slice input first (lst + 1) @ replicate (WINDOW - (lst + 1 - first)) 0
               in Inr (read_window (low_mask width) (le_word window) (start mod 8))))))"

text \<open>The first test is made on a product that wraps and on an index that keeps it from wrapping.\<close>

definition tail_at :: "bytes \<Rightarrow> nat \<Rightarrow> nat \<Rightarrow> bp_error + u64" where
  "tail_at input width index =
     (let start = (index * width) mod 2 ^ 64 in
      if width \<le> 56 \<and> index \<le> (2 ^ 64 - 1) div 64 \<and> start div 8 + 8 \<le> length input
      then Inr (drop_bit (start mod 8) (word_at input (start div 8)) AND low_mask width)
      else tail_at_rest input width index)"

definition tail_pair :: "bytes \<Rightarrow> nat \<Rightarrow> nat \<Rightarrow> bp_error + u64 \<times> u64" where
  "tail_pair input width index =
     (if index = 0 then Inl Nothing_before
      else if width = 0 then Inr (0, 0)
      else
        (let prior = index - 1; start = prior * width; shift = start mod 8; first = start div 8 in
         if shift + 2 * width \<le> 64 \<and> first + 8 \<le> length input then
           (let word = drop_bit shift (word_at input first); msk = low_mask width
            in Inr (word AND msk, drop_bit width word AND msk))
         else
           (case tail_at input width prior of Inl e \<Rightarrow> Inl e | Inr a \<Rightarrow>
            case tail_at input width index of Inl e \<Rightarrow> Inl e | Inr b \<Rightarrow> Inr (a, b))))"

section \<open>Fields of a stream of bits\<close>

text \<open>
  A packed buffer is read as a stream of bits \<open>f\<close>; a value of \<open>width\<close> bits is the field of it from
  \<open>start\<close> on, which determines the value.
\<close>

definition field :: "(nat \<Rightarrow> bool) \<Rightarrow> nat \<Rightarrow> nat \<Rightarrow> u64 \<Rightarrow> bool" where
  "field f start width v \<longleftrightarrow> (\<forall>j. bit v j \<longleftrightarrow> j < width \<and> f (start + j))"

definition fits :: "nat \<Rightarrow> u64 \<Rightarrow> bool" where
  "fits width v \<longleftrightarrow> v AND NOT (low_mask width) = 0"

definition packable :: "nat \<Rightarrow> bool" where
  "packable w \<longleftrightarrow> w \<in> {8, 16, 32, 64}"

lemma field_unique: "field f start width v \<Longrightarrow> field f start width u \<Longrightarrow> u = v"
  by (rule bit_word_eqI) (simp add: field_def)

lemma field_cong:
  "field f start width v \<Longrightarrow> (\<And>j. j < width \<Longrightarrow> f (start + j) = g (start' + j)) \<Longrightarrow> field g start' width v"
  by (auto simp: field_def)

lemma bit_low_mask: "bit (low_mask n) i \<longleftrightarrow> i < 64 \<and> i < n"
proof -
  have "push_bit n 1 - 1 = (mask n :: u64)" by (simp add: mask_eq_exp_minus_1 push_bit_eq_mult)
  then show ?thesis by (auto simp: low_mask_def bit_mask_iff bit_minus_1_iff)
qed

lemma bit_shift_right: "bit (shift_right v n) i \<longleftrightarrow> bit v (n + i)"
  by (auto simp: shift_right_def bit_drop_bit_eq dest: bit_imp_le_length)

lemma fits_iff: "fits width v \<longleftrightarrow> (\<forall>j. bit v j \<longrightarrow> j < width)"
proof
  assume "fits width v"
  then have "bit (v AND NOT (low_mask width)) j = bit (0 :: u64) j" for j by (simp add: fits_def)
  then have "bit v j \<Longrightarrow> j < 64 \<Longrightarrow> j < width" for j by (simp add: bit_and_iff bit_not_iff bit_low_mask)
  then show "\<forall>j. bit v j \<longrightarrow> j < width" using bit_imp_le_length [of v] by simp
next
  assume "\<forall>j. bit v j \<longrightarrow> j < width"
  then show "fits width v"
    unfolding fits_def by (intro bit_word_eqI) (auto simp: bit_and_iff bit_not_iff bit_low_mask)
qed

lemma bit_to_u64: "LENGTH('a) \<le> 64 \<Longrightarrow> bit (to_u64 (v :: 'a::len word)) i \<longleftrightarrow> bit v i"
  by (auto simp: to_u64_def bit_ucast_iff dest: bit_imp_le_length)

lemma bit_from_u64: "bit (from_u64 v :: 'a::len word) i \<longleftrightarrow> i < LENGTH('a) \<and> bit v i"
  by (auto simp: from_u64_def bit_ucast_iff dest: bit_imp_le_length)

lemma from_to_u64: "LENGTH('a) \<le> 64 \<Longrightarrow> from_u64 (to_u64 v) = (v :: 'a::len word)"
  by (rule bit_word_eqI) (simp add: bit_from_u64 bit_to_u64)

lemma packable_simps:
  assumes "packable w"
  shows "0 < w" "w \<le> 64" "LANES w * w = VALUES" "0 < LANES w" "(w div 8) * 8 = w" "0 < w div 8"
  using assms by (auto simp: packable_def LANES_def VALUES_def)

section \<open>The permutation\<close>

lemma ORDER_self: "k < 8 \<Longrightarrow> ORDER ! k < 8 \<and> ORDER ! (ORDER ! k) = k"
  by (auto simp: ORDER_def less_Suc_eq numeral_eq_Suc)

definition slot_row :: "nat \<Rightarrow> nat \<Rightarrow> nat" where
  "slot_row w row = (row mod (w div 8)) * 8 + ORDER ! (row div (w div 8))"

definition row_slot :: "nat \<Rightarrow> nat \<Rightarrow> nat" where
  "row_slot w block = ORDER ! (block mod 8) * (w div 8) + block div 8"

lemma slot_row_inverse:
  assumes "packable w" and "row < w"
  shows "slot_row w row < w" and "row_slot w (slot_row w row) = row"
proof -
  let ?g = "w div 8" let ?k = "row div ?g" let ?o = "row mod ?g"
  have g: "?g * 8 = w" "0 < ?g" using packable_simps [OF assms(1)] by auto
  have k: "?k < 8" using assms(2) g by (simp add: less_mult_imp_div_less mult.commute)
  have o: "?o < ?g" using g(2) by simp
  have r: "ORDER ! ?k < 8" "ORDER ! (ORDER ! ?k) = ?k" using ORDER_self [OF k] by auto
  have "?o * 8 + ORDER ! ?k < (?o + 1) * 8" using r(1) by simp
  also have "\<dots> \<le> ?g * 8" using o by (intro mult_right_mono) simp_all
  finally show "slot_row w row < w" using g(1) by (simp add: slot_row_def)
  have "(?o * 8 + ORDER ! ?k) mod 8 = ORDER ! ?k" "(?o * 8 + ORDER ! ?k) div 8 = ?o" using r(1) by simp_all
  then show "row_slot w (slot_row w row) = row"
    using r(2) div_mult_mod_eq [of row ?g] by (simp only: slot_row_def row_slot_def)
qed

lemma row_slot_inverse:
  assumes "packable w" and "block < w"
  shows "row_slot w block < w" and "slot_row w (row_slot w block) = block"
proof -
  let ?g = "w div 8" let ?k = "ORDER ! (block mod 8)"
  have g: "?g * 8 = w" "0 < ?g" using packable_simps [OF assms(1)] by auto
  have k: "?k < 8" "ORDER ! ?k = block mod 8" using ORDER_self [of "block mod 8"] by auto
  have b: "block div 8 < ?g" using assms(2) g(1) by linarith
  have "?k * ?g + block div 8 < (?k + 1) * ?g" using b by simp
  also have "\<dots> \<le> 8 * ?g" using k(1) by (intro mult_right_mono) simp_all
  finally show "row_slot w block < w" using g(1) by (simp add: row_slot_def mult.commute)
  have "(?k * ?g + block div 8) mod ?g = block div 8" "(?k * ?g + block div 8) div ?g = ?k" using b by simp_all
  then show "slot_row w (row_slot w block) = block" using k(2) by (simp add: slot_row_def row_slot_def)
qed

lemma source_index_slot: "source_index w row lane = slot_row w row * LANES w + lane"
  by (simp add: source_index_def slot_row_def Let_def)

lemma row_base_slot: "row_base w row = slot_row w row * LANES w"
  by (simp add: row_base_def slot_row_def)

lemma cell_index:
  fixes m :: nat
  assumes "a < m" and "b < m"
  shows "r * m + a = q * m + b \<longleftrightarrow> r = q \<and> a = b"
proof
  assume eq: "r * m + a = q * m + b"
  then have "(r * m + a) div m = (q * m + b) div m" by simp
  then have "r = q" using assms by simp
  then show "r = q \<and> a = b" using eq by simp
qed simp

lemma cell_bound:
  fixes m :: nat
  assumes "r < n" and "a < m" and "n * m = k"
  shows "r * m + a < k"
proof -
  have "r * m + a < (r + 1) * m" using assms(2) by simp
  also have "\<dots> \<le> n * m" using assms(1) by (intro mult_right_mono) simp_all
  finally show ?thesis using assms(3) by simp
qed

lemma foldl_update:
  assumes "distinct (map idx cs)"
  shows "length (foldl (\<lambda>out c. out[idx c := val c]) out cs) = length out"
    and "c \<in> set cs \<Longrightarrow> idx c < length out \<Longrightarrow> foldl (\<lambda>out c. out[idx c := val c]) out cs ! idx c = val c"
proof -
  show "length (foldl (\<lambda>out c. out[idx c := val c]) out cs) = length out"
    by (induction cs arbitrary: out) simp_all
  have keep: "p \<notin> idx ` set xs \<Longrightarrow> foldl (\<lambda>out c. out[idx c := val c]) out xs ! p = out ! p" for p xs out
    by (induction xs arbitrary: out) simp_all
  show "c \<in> set cs \<Longrightarrow> idx c < length out \<Longrightarrow> foldl (\<lambda>out c. out[idx c := val c]) out cs ! idx c = val c"
    using assms
  proof (induction cs arbitrary: out)
    case (Cons d cs)
    show ?case
    proof (cases "c = d")
      case True
      then have "idx c \<notin> idx ` set cs" using Cons.prems(3) by simp
      then show ?thesis using keep [of "idx c" cs "out[idx d := val d]"] Cons.prems(2) True by simp
    qed (use Cons in simp)
  qed simp
qed

lemma cells_set: "(row, lane) \<in> set (cells w) \<longleftrightarrow> row < w \<and> lane < LANES w"
  by (simp add: cells_def)

lemma distinct_cells:
  assumes "\<And>c d. c \<in> set (cells w) \<Longrightarrow> d \<in> set (cells w) \<Longrightarrow> idx c = idx d \<Longrightarrow> c = d"
  shows "distinct (map idx (cells w))"
  using assms by (auto simp: distinct_map inj_on_def cells_def distinct_product)

lemma distinct_plain: "distinct (map (\<lambda>(row, lane). row * LANES w + lane) (cells w))"
  by (rule distinct_cells) (auto simp: cells_set cell_index)

lemma distinct_source:
  assumes "packable w"
  shows "distinct (map (\<lambda>(row, lane). source_index w row lane) (cells w))"
proof (rule distinct_cells)
  fix c d assume c: "c \<in> set (cells w)" "d \<in> set (cells w)"
    and eq: "(case c of (row, lane) \<Rightarrow> source_index w row lane) = (case d of (row, lane) \<Rightarrow> source_index w row lane)"
  obtain row lane row' lane' where cd: "c = (row, lane)" "d = (row', lane')" by (cases c, cases d)
  then have "slot_row w row = slot_row w row'" "lane = lane'"
    using c eq by (auto simp: cells_set source_index_slot cell_index)
  then show "c = d" using slot_row_inverse(2) [OF assms] c cd by (metis cells_set)
qed

lemma update_cells:
  "(\<lambda>out (row, lane). out[f row lane := g row lane]) =
     (\<lambda>out c. out[(case c of (row, lane) \<Rightarrow> f row lane) := (case c of (row, lane) \<Rightarrow> g row lane)])"
  by (auto simp: fun_eq_iff)

lemma plain_bound: "packable w \<Longrightarrow> row < w \<Longrightarrow> lane < LANES w \<Longrightarrow> row * LANES w + lane < VALUES"
  using packable_simps(3) [of w] by (intro cell_bound [of row w]) (simp_all add: mult.commute)

lemma source_bound: "packable w \<Longrightarrow> row < w \<Longrightarrow> lane < LANES w \<Longrightarrow> source_index w row lane < VALUES"
  unfolding source_index_slot using slot_row_inverse(1) by (simp add: plain_bound)

lemma source_index_onto:
  assumes "packable w" and "i < VALUES"
  obtains row lane where "row < w" "lane < LANES w" "i = source_index w row lane"
    "row = row_slot w (i div LANES w)" "lane = i mod LANES w"
proof -
  have "i div LANES w < w" using assms packable_simps [OF assms(1)] by (simp add: less_mult_imp_div_less mult.commute)
  then show ?thesis
    using row_slot_inverse [OF assms(1), of "i div LANES w"] packable_simps(4) [OF assms(1)]
    by (intro that [of "row_slot w (i div LANES w)" "i mod LANES w"]) (simp_all add: source_index_slot)
qed

lemma transpose_ok:
  fixes input :: "'a::len word list"
  assumes w: "packable LENGTH('a)" and "length input = VALUES" and "length output = VALUES"
  shows "\<exists>out. transpose input output = Inr out \<and> length out = VALUES
    \<and> (\<forall>row lane. row < LENGTH('a) \<and> lane < LANES LENGTH('a) \<longrightarrow>
        out ! (row * LANES LENGTH('a) + lane) = input ! source_index LENGTH('a) row lane)"
proof -
  let ?idx = "\<lambda>(row, lane). row * LANES LENGTH('a) + lane" let ?val = "\<lambda>(row, lane). input ! source_index LENGTH('a) row lane"
  let ?out = "foldl (\<lambda>out c. out[?idx c := ?val c]) output (cells LENGTH('a))"
  note u = foldl_update [OF distinct_plain [of "LENGTH('a)"], where val = ?val and out = "output"]
  have "transpose input output = Inr ?out"
    using assms(2,3) by (simp add: transpose_def check_vector_len_def Let_def update_cells)
  moreover have "?out ! (row * LANES LENGTH('a) + lane) = input ! source_index LENGTH('a) row lane"
    if "row < LENGTH('a)" "lane < LANES LENGTH('a)" for row lane
    using u(2) [of "(row, lane)"] that plain_bound [OF w that] assms(3) by (simp add: cells_set)
  ultimately show ?thesis using u(1) assms(3) by auto
qed

lemma untranspose_ok:
  fixes input :: "'a::len word list"
  assumes w: "packable LENGTH('a)" and "length input = VALUES" and "length output = VALUES"
  shows "\<exists>out. untranspose input output = Inr out \<and> length out = VALUES
    \<and> (\<forall>row lane. row < LENGTH('a) \<and> lane < LANES LENGTH('a) \<longrightarrow>
        out ! source_index LENGTH('a) row lane = input ! (row * LANES LENGTH('a) + lane))"
proof -
  let ?idx = "\<lambda>(row, lane). source_index LENGTH('a) row lane" let ?val = "\<lambda>(row, lane). input ! (row * LANES LENGTH('a) + lane)"
  let ?out = "foldl (\<lambda>out c. out[?idx c := ?val c]) output (cells LENGTH('a))"
  note u = foldl_update [OF distinct_source [OF w], where val = ?val and out = "output"]
  have "untranspose input output = Inr ?out"
    using assms(2,3) by (simp add: untranspose_def check_vector_len_def Let_def update_cells)
  moreover have "?out ! source_index LENGTH('a) row lane = input ! (row * LANES LENGTH('a) + lane)"
    if "row < LENGTH('a)" "lane < LANES LENGTH('a)" for row lane
    using u(2) [of "(row, lane)"] that source_bound [OF w that] assms(3) by (simp add: cells_set)
  ultimately show ?thesis using u(1) assms(3) by auto
qed

section \<open>A lane is a stream\<close>

definition lane_bit :: "'a::len word list \<Rightarrow> nat \<Rightarrow> nat \<Rightarrow> bool" where
  "lane_bit xs lane b = bit (xs ! ((b div LENGTH('a)) * LANES LENGTH('a) + lane)) (b mod LENGTH('a))"

definition value_bit :: "(nat \<Rightarrow> u64) \<Rightarrow> nat \<Rightarrow> nat \<Rightarrow> bool" where
  "value_bit vals width b = bit (vals (b div width)) (b mod width)"

lemma value_bit_at: "j < width \<Longrightarrow> value_bit vals width (r * width + j) = bit (vals r) j"
  by (simp add: value_bit_def)

definition pack_inv :: "(nat \<Rightarrow> u64) \<Rightarrow> nat \<Rightarrow> nat \<Rightarrow> 'a::len word list \<Rightarrow> nat \<Rightarrow> 'a word Packing \<Rightarrow> bool" where
  "pack_inv vals width lane out r s \<longleftrightarrow>
     pk_word s * LENGTH('a) + pk_filled s = r * width \<and> pk_filled s < LENGTH('a)
     \<and> (\<forall>i. bit (pk_acc s) i \<longleftrightarrow> i < pk_filled s \<and> value_bit vals width (pk_word s * LENGTH('a) + i))
     \<and> length (pk_out s) = length out
     \<and> (\<forall>k < pk_word s. \<forall>i < LENGTH('a).
          bit (pk_out s ! (k * LANES LENGTH('a) + lane)) i \<longleftrightarrow> value_bit vals width (k * LENGTH('a) + i))
     \<and> (\<forall>q. q mod LANES LENGTH('a) \<noteq> lane \<longrightarrow> pk_out s ! q = out ! q)"

lemma pack_acc:
  fixes s :: "'a::len word Packing"
  assumes w: "LENGTH('a) \<le> 64" and inv: "pack_inv vals width lane out r s" and fit: "fits width (vals r)"
  shows "i < 64 \<Longrightarrow> bit (pk_acc s OR push_bit (pk_filled s) (vals r)) i
    \<longleftrightarrow> i < pk_filled s + width \<and> value_bit vals width (pk_word s * LENGTH('a) + i)"
proof (cases "i < pk_filled s")
  case True
  then show "i < 64 \<Longrightarrow> ?thesis" using inv by (auto simp: pack_inv_def bit_or_iff bit_push_bit_iff)
next
  case False
  have "pk_word s * LENGTH('a) + pk_filled s = r * width" using inv by (simp add: pack_inv_def)
  then have "pk_word s * LENGTH('a) + i = r * width + (i - pk_filled s)" using False by linarith
  then show "i < 64 \<Longrightarrow> ?thesis"
    using False inv fit value_bit_at [of "i - pk_filled s" width vals r]
    by (auto simp: pack_inv_def bit_or_iff bit_push_bit_iff fits_iff)
qed

lemma pack_row_inv:
  fixes s :: "'a::len word Packing"
  assumes w: "packable LENGTH('a)" and inv: "pack_inv vals width lane out r s" and fit: "fits width (vals r)"
    and r: "r < LENGTH('a)" and width: "0 < width" "width \<le> LENGTH('a)"
    and out: "length out = width * LANES LENGTH('a)" and lane: "lane < LANES LENGTH('a)"
  shows "\<exists>s'. pack_row (LANES LENGTH('a)) lane width (vals r) s = Inr s' \<and> pack_inv vals width lane out (Suc r) s'"
proof -
  let ?w = "LENGTH('a)" let ?L = "LANES LENGTH('a)"
  let ?acc = "pk_acc s OR push_bit (pk_filled s) (vals r)" let ?filled = "pk_filled s + width"
  note p = packable_simps [OF w]
  note acc = pack_acc [OF p(2) inv fit]
  have at: "pk_word s * ?w + pk_filled s = r * width" "pk_filled s < ?w" using inv by (simp_all add: pack_inv_def)
  have no: "\<not> vals r AND NOT (low_mask width) \<noteq> 0" using fit by (simp add: fits_def)
  show ?thesis
  proof (cases "?w \<le> ?filled")
    case False
    let ?s = "s\<lparr>pk_filled := ?filled, pk_acc := ?acc\<rparr>"
    have "bit ?acc i \<longleftrightarrow> i < ?filled \<and> value_bit vals width (pk_word s * ?w + i)" for i
    proof (cases "i < 64")
      case True
      then show ?thesis by (rule acc)
    next
      case big: False
      then show ?thesis using False p(2) bit_imp_le_length [of ?acc i] by auto
    qed
    then have "pack_inv vals width lane out (Suc r) ?s" using inv False at by (simp add: pack_inv_def)
    moreover have "pack_row ?L lane width (vals r) s = Inr ?s" using no False by (simp add: pack_row_def Let_def)
    ultimately show ?thesis by blast
  next
    case True
    let ?at = "pk_word s * ?L + lane" let ?v = "from_u64 (?acc AND low_mask ?w) :: 'a word"
    let ?s = "\<lparr>pk_filled = ?filled - ?w, pk_acc = shift_right (vals r) (width - (?filled - ?w)), pk_word = pk_word s + 1,
               pk_out = (pk_out s)[?at := ?v]\<rparr>"
    have "pk_word s * ?w < width * ?w"
    proof -
      have "pk_word s * ?w \<le> r * width" using at(1) by linarith
      also have "\<dots> < ?w * width" using r width(1) by simp
      finally show ?thesis by (simp add: mult.commute)
    qed
    then have less: "?at < length (pk_out s)"
      using cell_bound [of "pk_word s" width lane ?L] lane inv out by (simp add: pack_inv_def)
    have v: "bit ?v i \<longleftrightarrow> value_bit vals width (pk_word s * ?w + i)" if "i < ?w" for i
      using acc [of i] that True p(2) by (simp add: bit_from_u64 bit_and_iff bit_low_mask)
    have consumed: "width - (?filled - ?w) = ?w - pk_filled s" using True at(2) width(2) by linarith
    have carry: "bit (shift_right (vals r) (?w - pk_filled s)) i
        \<longleftrightarrow> i < ?filled - ?w \<and> value_bit vals width ((pk_word s + 1) * ?w + i)" for i
    proof -
      have "(pk_word s + 1) * ?w + i = r * width + (?w - pk_filled s + i)" using at by (simp add: algebra_simps)
      moreover have "i < ?filled - ?w \<longleftrightarrow> ?w - pk_filled s + i < width" using at(2) True by linarith
      moreover have "bit (vals r) (?w - pk_filled s + i) \<Longrightarrow> ?w - pk_filled s + i < width"
        using fit by (auto simp: fits_iff)
      ultimately show ?thesis
        using value_bit_at [of "?w - pk_filled s + i" width vals r] unfolding bit_shift_right by metis
    qed
    have nth: "(pk_out s)[?at := ?v] ! q = (if q = ?at then ?v else pk_out s ! q)" for q using less by simp
    have "bit ((pk_out s)[?at := ?v] ! (k * ?L + lane)) i \<longleftrightarrow> value_bit vals width (k * ?w + i)"
      if "k < pk_word s + 1" "i < ?w" for k i
      using that inv v cell_index [OF lane lane, of k "pk_word s"] unfolding nth by (auto simp: pack_inv_def less_Suc_eq)
    moreover have "(pk_out s)[?at := ?v] ! q = out ! q" if "q mod ?L \<noteq> lane" for q
      using that inv lane unfolding nth by (auto simp: pack_inv_def)
    moreover have "(pk_word s + 1) * ?w + (?filled - ?w) = Suc r * width" "?filled - ?w < ?w"
      using at True width(2) by (simp_all add: algebra_simps)
    ultimately have "pack_inv vals width lane out (Suc r) ?s"
      using inv carry unfolding consumed by (simp add: pack_inv_def)
    moreover have "pack_row ?L lane width (vals r) s = Inr ?s" using no True by (simp add: pack_row_def Let_def)
    ultimately show ?thesis by blast
  qed
qed

lemma pack_rows_inv:
  fixes s :: "'a::len word Packing"
  assumes w: "packable LENGTH('a)" and width: "0 < width" "width \<le> LENGTH('a)"
    and fit: "\<And>row. row < LENGTH('a) \<Longrightarrow> fits width (to_u64 (input ! (row * LANES LENGTH('a) + lane)))"
    and out: "length out = width * LANES LENGTH('a)" and lane: "lane < LANES LENGTH('a)"
    and inv: "pack_inv (\<lambda>row. to_u64 (input ! (row * LANES LENGTH('a) + lane))) width lane out r s" and r: "r \<le> LENGTH('a)"
  shows "\<exists>s'. pack_rows (LANES LENGTH('a)) lane width input [r..<LENGTH('a)] s = Inr s'
    \<and> pack_inv (\<lambda>row. to_u64 (input ! (row * LANES LENGTH('a) + lane))) width lane out LENGTH('a) s'"
  using r inv
proof (induction r arbitrary: s rule: inc_induct)
  case base
  then show ?case by simp
next
  case (step r)
  obtain s' where "pack_row (LANES LENGTH('a)) lane width (to_u64 (input ! (r * LANES LENGTH('a) + lane))) s = Inr s'"
    and "pack_inv (\<lambda>row. to_u64 (input ! (row * LANES LENGTH('a) + lane))) width lane out (Suc r) s'"
    using pack_row_inv [OF w step.prems fit [OF step.hyps(2)] step.hyps(2) width out lane] by blast
  then show ?case using step.IH [of s'] step.hyps(2) by (simp add: upt_conv_Cons)
qed

lemma pack_lanes_inv:
  fixes input :: "'a::len word list"
  assumes w: "packable LENGTH('a)" and width: "0 < width" "width \<le> LENGTH('a)"
    and fit: "\<And>row lane. row < LENGTH('a) \<Longrightarrow> lane < LANES LENGTH('a)
      \<Longrightarrow> fits width (to_u64 (input ! (row * LANES LENGTH('a) + lane)))"
    and out: "length out = width * LANES LENGTH('a)" and l: "l \<le> LANES LENGTH('a)"
  shows "\<exists>out'. pack_lanes (LANES LENGTH('a)) width input [l..<LANES LENGTH('a)] out = Inr out' \<and> length out' = length out
    \<and> (\<forall>q. q mod LANES LENGTH('a) < l \<longrightarrow> out' ! q = out ! q)
    \<and> (\<forall>lane < LANES LENGTH('a). l \<le> lane \<longrightarrow> (\<forall>k < width. \<forall>i < LENGTH('a).
         bit (out' ! (k * LANES LENGTH('a) + lane)) i
         \<longleftrightarrow> value_bit (\<lambda>row. to_u64 (input ! (row * LANES LENGTH('a) + lane))) width (k * LENGTH('a) + i)))"
  using l out
proof (induction l arbitrary: out rule: inc_induct)
  case base
  then show ?case by simp
next
  case (step l)
  let ?w = "LENGTH('a)" let ?L = "LANES LENGTH('a)" let ?v = "\<lambda>row. to_u64 (input ! (row * LANES LENGTH('a) + l))"
  let ?s = "\<lparr>pk_filled = 0, pk_acc = 0, pk_word = 0, pk_out = out\<rparr>"
  have "pack_inv ?v width l out 0 ?s" using len_gt_0 [where 'a = 'a] by (simp add: pack_inv_def)
  then obtain s where s: "pack_rows ?L l width input [0..<?w] ?s = Inr s" "pack_inv ?v width l out ?w s"
    using pack_rows_inv [OF w width fit step.prems step.hyps(2)] step.hyps(2) by blast
  have len: "length (pk_out s) = width * ?L" using s(2) step.prems by (simp add: pack_inv_def)
  obtain out' where o: "pack_lanes ?L width input [Suc l..<?L] (pk_out s) = Inr out'" "length out' = length (pk_out s)"
    "\<forall>q. q mod ?L < Suc l \<longrightarrow> out' ! q = pk_out s ! q"
    "\<forall>lane < ?L. Suc l \<le> lane \<longrightarrow> (\<forall>k < width. \<forall>i < ?w. bit (out' ! (k * ?L + lane)) i
       \<longleftrightarrow> value_bit (\<lambda>row. to_u64 (input ! (row * ?L + lane))) width (k * ?w + i))"
    using step.IH [OF len] by blast
  have "pk_word s * ?w + pk_filled s = width * ?w" "pk_filled s < ?w" using s(2) by (auto simp: pack_inv_def mult.commute)
  then have word: "pk_word s = width"
    by (metis add.right_neutral div_less div_mult_self3 len_not_eq_0 nonzero_mult_div_cancel_right)
  have "bit (out' ! (k * ?L + l)) i \<longleftrightarrow> value_bit ?v width (k * ?w + i)" if "k < width" "i < ?w" for k i
    using that s(2) o(3) step.hyps(2) word by (simp add: pack_inv_def)
  moreover have "out' ! q = out ! q" if "q mod ?L < l" for q using that s(2) o(3) by (simp add: pack_inv_def)
  ultimately have "(\<forall>q. q mod ?L < l \<longrightarrow> out' ! q = out ! q) \<and> (\<forall>lane < ?L. l \<le> lane \<longrightarrow> (\<forall>k < width. \<forall>i < ?w.
      bit (out' ! (k * ?L + lane)) i \<longleftrightarrow> value_bit (\<lambda>row. to_u64 (input ! (row * ?L + lane))) width (k * ?w + i)))"
    using o(4) by (metis Suc_leI le_neq_implies_less)
  then show ?case using s(1) o(1,2) len step.prems step.hyps(2) by (simp add: upt_conv_Cons)
qed

text \<open>What a packed unit is: every value of every lane at its place in the lane's stream of bits.\<close>

definition packed_as :: "'a::len word list \<Rightarrow> nat \<Rightarrow> 'a word list \<Rightarrow> bool" where
  "packed_as input width out \<longleftrightarrow> length out = width * LANES LENGTH('a)
     \<and> (\<forall>row < LENGTH('a). \<forall>lane < LANES LENGTH('a). \<forall>j < width.
          lane_bit out lane (row * width + j) \<longleftrightarrow> bit (to_u64 (input ! (row * LANES LENGTH('a) + lane))) j)"

lemma stream_bound: "row < w \<Longrightarrow> j < width \<Longrightarrow> (row * width + j) div w < (width::nat)"
proof -
  assume "row < w" "j < width"
  then have "row * width + j < w * width" by (intro cell_bound [of row w]) simp_all
  then show ?thesis by (simp add: less_mult_imp_div_less mult.commute)
qed

lemma position_nonzero_none: "\<forall>v \<in> set vs. to_u64 v = 0 \<Longrightarrow> position_nonzero i vs = None"
  by (induction vs arbitrary: i) simp_all

lemma fits_0: "fits 0 v \<longleftrightarrow> v = 0"
  by (simp add: fits_def low_mask_def)

lemma pack_transposed_ok:
  fixes input :: "'a::len word list"
  assumes w: "packable LENGTH('a)" and len: "length input = VALUES" and width: "width \<le> LENGTH('a)"
    and fit: "\<And>v. v \<in> set input \<Longrightarrow> fits width (to_u64 v)" and out: "length out = packed_len LENGTH('a) width"
  shows "\<exists>packed. pack_transposed input width out = Inr packed \<and> packed_as input width packed"
proof (cases "width = 0")
  case True
  then have "check_all_zero input = Inr ()" using fit by (simp add: fits_0 check_all_zero_def position_nonzero_none)
  then show ?thesis using True len out
    by (simp add: pack_transposed_def check_vector_len_def check_width_def packed_as_def packed_len_def)
next
  case False
  let ?L = "LANES LENGTH('a)"
  have fit: "fits width (to_u64 (input ! (row * ?L + lane)))" if "row < LENGTH('a)" "lane < ?L" for row lane
    using fit plain_bound [OF w that] len by simp
  obtain packed where p: "pack_lanes ?L width input [0..<?L] out = Inr packed" "length packed = length out"
    "\<forall>lane < ?L. \<forall>k < width. \<forall>i < LENGTH('a). bit (packed ! (k * ?L + lane)) i
       \<longleftrightarrow> value_bit (\<lambda>row. to_u64 (input ! (row * ?L + lane))) width (k * LENGTH('a) + i)"
    using pack_lanes_inv [OF w _ width fit, of out 0] False out unfolding packed_len_def by auto
  have "packed_as input width packed"
    using p(2,3) out stream_bound [of _ "LENGTH('a)"] value_bit_at
    by (simp add: packed_as_def packed_len_def lane_bit_def)
  then show ?thesis
    using p(1) False len width out by (simp add: pack_transposed_def check_vector_len_def check_width_def)
qed

end
