(* ===== verification/BitpackRead.thy ===== *)
theory BitpackRead
  imports Bitpack
begin

text \<open>
  The readers of \<open>rudb-encoding/src/bitpack.rs\<close>: the unpacking of a whole unit, lane by lane and
  fused with the permutation, the reading of single positions out of the bytes of a unit, and the
  sequential layout of a tail.
\<close>

unbundle bit_operations_syntax

section \<open>Reading a lane\<close>

lemma stream_place:
  fixes w :: nat
  assumes "a < w"
  shows "(k * w + a) div w = k" and "(k * w + a) mod w = a"
  using assms by simp_all

lemma window_field:
  assumes w: "w \<le> 64" "width \<le> w" "s < w" and fit: "\<And>k. fits w (word_of k)"
    and v: "v = (if s + width \<le> w then drop_bit s (word_of k) AND low_mask width
                 else (drop_bit s (word_of k) OR push_bit (w - s) (word_of (k + 1))) AND low_mask width)"
  shows "field (\<lambda>b. bit (word_of (b div w)) (b mod w)) (k * w + s) width v"
  unfolding field_def
proof
  fix j
  have top: "\<not> bit (word_of k) i" if "w \<le> i" for i using fit [of k] that by (auto simp: fits_iff)
  consider "width \<le> j" | "j < width" "s + j < w" | "j < width" "w \<le> s + j" by linarith
  then show "bit v j \<longleftrightarrow> j < width \<and> bit (word_of ((k * w + s + j) div w)) ((k * w + s + j) mod w)"
  proof cases
    case 1
    then show ?thesis by (simp add: v bit_and_iff bit_low_mask)
  next
    case 2
    then have "(k * w + s + j) div w = k" "(k * w + s + j) mod w = s + j"
      using stream_place [of "s + j" w k] by (simp_all add: add.assoc)
    moreover have "\<not> w - s \<le> j" "j < 64" using 2 w by linarith+
    ultimately show ?thesis
      using 2 by (simp add: v bit_and_iff bit_or_iff bit_drop_bit_eq bit_push_bit_iff bit_low_mask)
  next
    case 3
    have "k * w + s + j = (k + 1) * w + (s + j - w)" using 3(2) by simp
    moreover have "s + j - w < w" using 3 w by linarith
    ultimately have "(k * w + s + j) div w = k + 1" "(k * w + s + j) mod w = s + j - w"
      using stream_place [of "s + j - w" w "k + 1"] by (simp_all only:)
    moreover have "\<not> s + width \<le> w" "j - (w - s) = s + j - w" "w - s \<le> j" "j < 64" using 3 w by linarith+
    ultimately show ?thesis
      using 3 top [of "s + j"] by (simp add: v bit_and_iff bit_or_iff bit_drop_bit_eq bit_push_bit_iff bit_low_mask)
  qed
qed

lemma row_value_field:
  assumes "0 < w" "w \<le> 64" "width \<le> w" and "\<And>k. fits w (word_of k)"
  shows "field (\<lambda>b. bit (word_of (b div w)) (b mod w)) (row * width) width (row_value w width word_of row)"
  using window_field [of w width "row * width mod w" word_of _ "row * width div w", OF assms(2,3) _ assms(4) refl] assms(1)
  by (simp add: row_value_def Let_def)

definition unpack_inv :: "'a::len word list \<Rightarrow> nat \<Rightarrow> nat \<Rightarrow> 'a word list \<Rightarrow> nat \<Rightarrow> 'a word Unpacking \<Rightarrow> bool" where
  "unpack_inv input width lane out row s \<longleftrightarrow>
     row * width + un_available s = un_word s * LENGTH('a) \<and> un_available s < LENGTH('a)
     \<and> (\<forall>i. bit (un_buffer s) i \<longleftrightarrow> i < un_available s \<and> lane_bit input lane (row * width + i))
     \<and> length (un_out s) = length out
     \<and> (\<forall>k < row. field (lane_bit input lane) (k * width) width (to_u64 (un_out s ! (k * LANES LENGTH('a) + lane))))
     \<and> (\<forall>q. q mod LANES LENGTH('a) \<noteq> lane \<longrightarrow> un_out s ! q = out ! q)"

lemma unpack_put:
  fixes s :: "'a::len word Unpacking"
  assumes w: "packable LENGTH('a)" and width: "width \<le> LENGTH('a)" and inv: "unpack_inv input width lane out row s"
    and row: "row < LENGTH('a)" and lane: "lane < LANES LENGTH('a)" and len: "length out = VALUES"
    and v: "field (lane_bit input lane) (row * width) width v"
  shows "\<forall>k < Suc row. field (lane_bit input lane) (k * width) width
           (to_u64 ((un_out s)[row * LANES LENGTH('a) + lane := from_u64 v] ! (k * LANES LENGTH('a) + lane)))"
    and "\<forall>q. q mod LANES LENGTH('a) \<noteq> lane \<longrightarrow> (un_out s)[row * LANES LENGTH('a) + lane := from_u64 v] ! q = out ! q"
proof -
  have less: "row * LANES LENGTH('a) + lane < length (un_out s)"
    using plain_bound [OF w row lane] inv len by (simp add: unpack_inv_def)
  have id: "to_u64 (from_u64 v :: 'a word) = v"
  proof (rule bit_word_eqI)
    fix i
    have "bit v i \<Longrightarrow> i < LENGTH('a)" using v width by (simp add: field_def)
    then show "bit (to_u64 (from_u64 v :: 'a word)) i = bit v i"
      using packable_simps(2) [OF w] by (auto simp: bit_to_u64 bit_from_u64)
  qed
  have put: "(un_out s)[row * LANES LENGTH('a) + lane := from_u64 v] ! q
      = (if q = row * LANES LENGTH('a) + lane then from_u64 v else un_out s ! q)" for q
    using less by (simp add: nth_list_update)
  show "\<forall>k < Suc row. field (lane_bit input lane) (k * width) width
           (to_u64 ((un_out s)[row * LANES LENGTH('a) + lane := from_u64 v] ! (k * LANES LENGTH('a) + lane)))"
  proof (intro allI impI)
    fix k assume "k < Suc row"
    then show "field (lane_bit input lane) (k * width) width
           (to_u64 ((un_out s)[row * LANES LENGTH('a) + lane := from_u64 v] ! (k * LANES LENGTH('a) + lane)))"
      unfolding put cell_index [OF lane lane, of k row] using inv v id by (auto simp: unpack_inv_def)
  qed
  show "\<forall>q. q mod LANES LENGTH('a) \<noteq> lane \<longrightarrow> (un_out s)[row * LANES LENGTH('a) + lane := from_u64 v] ! q = out ! q"
    unfolding put using inv lane by (simp add: unpack_inv_def)
qed

lemma unpack_row_inv:
  fixes s :: "'a::len word Unpacking"
  assumes w: "packable LENGTH('a)" and width: "0 < width" "width \<le> LENGTH('a)" and inv: "unpack_inv input width lane out row s"
    and row: "row < LENGTH('a)" and lane: "lane < LANES LENGTH('a)" and len: "length out = VALUES"
  shows "unpack_inv input width lane out (Suc row) (unpack_row (LANES LENGTH('a)) lane width input s row)"
proof -
  let ?w = "LENGTH('a)"
  have at: "row * width + un_available s = un_word s * ?w" "un_available s < ?w"
    and buffer: "bit (un_buffer s) i \<longleftrightarrow> i < un_available s \<and> lane_bit input lane (row * width + i)" for i
    using inv by (simp_all add: unpack_inv_def)
  note p = packable_simps [OF w]
  note put = unpack_put [OF w width(2) inv row lane len]
  show ?thesis
  proof (cases "width \<le> un_available s")
    case True
    then have "field (lane_bit input lane) (row * width) width (un_buffer s AND low_mask width)"
      using width(2) p(2) by (auto simp: field_def bit_and_iff bit_low_mask buffer)
    note put = put [OF this]
    have "bit (shift_right (un_buffer s) width) i
        \<longleftrightarrow> i < un_available s - width \<and> lane_bit input lane (Suc row * width + i)" for i
    proof -
      have "row * width + (width + i) = Suc row * width + i" by simp
      moreover have "width + i < un_available s \<longleftrightarrow> i < un_available s - width" by linarith
      ultimately show ?thesis unfolding bit_shift_right buffer by (simp only:)
    qed
    moreover have "Suc row * width + (un_available s - width) = un_word s * ?w" "un_available s - width < ?w"
      using at True by simp_all
    ultimately show ?thesis
      using True inv put by (simp add: unpack_row_def unpack_inv_def)
  next
    case False
    let ?taken = "width - un_available s" let ?nxt = "to_u64 (input ! (un_word s * LANES ?w + lane))"
    let ?v = "un_buffer s OR push_bit (un_available s) (?nxt AND low_mask ?taken)"
    have nxt: "bit ?nxt j \<longleftrightarrow> j < ?w \<and> lane_bit input lane (un_word s * ?w + j)" for j
      using p(2) bit_imp_le_length [of "input ! (un_word s * LANES ?w + lane)" j]
      by (auto simp: bit_to_u64 lane_bit_def)
    have past: "lane_bit input lane (un_word s * ?w + (j - un_available s)) = lane_bit input lane (row * width + j)"
      if "un_available s \<le> j" for j using at that by (metis add.assoc le_add_diff_inverse)
    have "field (lane_bit input lane) (row * width) width ?v"
      unfolding field_def
    proof
      fix j
      show "bit ?v j \<longleftrightarrow> j < width \<and> lane_bit input lane (row * width + j)"
        using False width(2) p(2) past [of j]
        by (auto simp: bit_or_iff bit_and_iff bit_push_bit_iff bit_low_mask nxt buffer)
    qed
    note put = put [OF this]
    have "bit (shift_right ?nxt ?taken) i \<longleftrightarrow> i < ?w - ?taken \<and> lane_bit input lane (Suc row * width + i)" for i
    proof -
      have "un_word s * ?w + (?taken + i) = Suc row * width + i" using at(1) False by simp
      moreover have "?taken + i < ?w \<longleftrightarrow> i < ?w - ?taken" by linarith
      ultimately show ?thesis unfolding bit_shift_right nxt by (simp only:)
    qed
    moreover have "Suc row * width + (?w - ?taken) = (un_word s + 1) * ?w" "?w - ?taken < ?w"
      using at False width by simp_all
    ultimately show ?thesis
      using False inv put by (simp add: unpack_row_def unpack_inv_def Let_def)
  qed
qed

lemma unpack_lane_ok:
  fixes input :: "'a::len word list"
  assumes w: "packable LENGTH('a)" and width: "0 < width" "width \<le> LENGTH('a)"
    and lane: "lane < LANES LENGTH('a)" and len: "length out = VALUES"
  shows "length (unpack_lane (LANES LENGTH('a)) width input out lane) = VALUES"
    and "row < LENGTH('a) \<Longrightarrow> field (lane_bit input lane) (row * width) width
      (to_u64 (unpack_lane (LANES LENGTH('a)) width input out lane ! (row * LANES LENGTH('a) + lane)))"
    and "q mod LANES LENGTH('a) \<noteq> lane \<Longrightarrow> unpack_lane (LANES LENGTH('a)) width input out lane ! q = out ! q"
proof -
  let ?s = "\<lparr>un_available = 0, un_buffer = 0, un_word = 0, un_out = out\<rparr>"
  have "unpack_inv input width lane out k (foldl (unpack_row (LANES LENGTH('a)) lane width input) ?s [0..<k])"
    if "k \<le> LENGTH('a)" for k
    using that
  proof (induction k)
    case 0
    then show ?case by (simp add: unpack_inv_def)
  next
    case (Suc k)
    then show ?case by (simp add: unpack_row_inv [OF w width _ _ lane len])
  qed
  then have "unpack_inv input width lane out LENGTH('a)
      (foldl (unpack_row (LANES LENGTH('a)) lane width input) ?s [0..<LENGTH('a)])" by simp
  then show "length (unpack_lane (LANES LENGTH('a)) width input out lane) = VALUES"
    and "row < LENGTH('a) \<Longrightarrow> field (lane_bit input lane) (row * width) width
      (to_u64 (unpack_lane (LANES LENGTH('a)) width input out lane ! (row * LANES LENGTH('a) + lane)))"
    and "q mod LANES LENGTH('a) \<noteq> lane \<Longrightarrow> unpack_lane (LANES LENGTH('a)) width input out lane ! q = out ! q"
    using len by (simp_all add: unpack_lane_def unpack_inv_def)
qed

lemma field_0: "field f start 0 v \<longleftrightarrow> v = 0"
  by (auto simp: field_def intro: bit_word_eqI)

lemma unpack_lanes_ok:
  fixes input :: "'a::len word list"
  assumes w: "packable LENGTH('a)" and width: "0 < width" "width \<le> LENGTH('a)"
    and len: "length out = VALUES" and l: "l \<le> LANES LENGTH('a)"
  shows "length (foldl (unpack_lane (LANES LENGTH('a)) width input) out [0..<l]) = VALUES
    \<and> (\<forall>row < LENGTH('a). \<forall>lane < l. field (lane_bit input lane) (row * width) width
         (to_u64 (foldl (unpack_lane (LANES LENGTH('a)) width input) out [0..<l] ! (row * LANES LENGTH('a) + lane))))"
  using l
proof (induction l)
  case 0
  then show ?case using len by simp
next
  case (Suc l)
  let ?L = "LANES LENGTH('a)" let ?out = "foldl (unpack_lane (LANES LENGTH('a)) width input) out [0..<l]"
  have l: "l < ?L" and len: "length ?out = VALUES" using Suc by auto
  note u = unpack_lane_ok [OF w width l len, where input = input]
  have "field (lane_bit input lane) (row * width) width (to_u64 (unpack_lane ?L width input ?out l ! (row * ?L + lane)))"
    if "row < LENGTH('a)" "lane < Suc l" for row lane
  proof (cases "lane = l")
    case True
    then show ?thesis using u(2) that by simp
  next
    case False
    then have "lane < l" "(row * ?L + lane) mod ?L \<noteq> l" using that l by simp_all
    then show ?thesis using u(3) Suc that by simp
  qed
  then show ?case using u(1) by simp
qed

lemma unpack_transposed_ok:
  fixes input :: "'a::len word list"
  assumes w: "packable LENGTH('a)" and width: "width \<le> LENGTH('a)" and len: "length out = VALUES"
    and packed: "length input = packed_len LENGTH('a) width"
  shows "\<exists>out'. unpack_transposed input width out = Inr out' \<and> length out' = VALUES
    \<and> (\<forall>row < LENGTH('a). \<forall>lane < LANES LENGTH('a). field (lane_bit input lane) (row * width) width
         (to_u64 (out' ! (row * LANES LENGTH('a) + lane))))"
proof (cases "width = 0")
  case True
  then show ?thesis
    using assms plain_bound [OF w]
    by (simp add: unpack_transposed_def check_width_def check_vector_len_def field_0 to_u64_def from_u64_def)
next
  case False
  then show ?thesis
    using unpack_lanes_ok [OF w _ width len order_refl, of input] assms
    by (simp add: unpack_transposed_def check_width_def check_vector_len_def Let_def)
qed

lemma foldl_source:
  assumes w: "packable w" and len: "length out = VALUES"
  shows "length (foldl (\<lambda>out (row, lane). out[row_base w row + lane := val row lane]) out (cells w)) = VALUES"
    and "row < w \<Longrightarrow> lane < LANES w \<Longrightarrow>
      foldl (\<lambda>out (row, lane). out[row_base w row + lane := val row lane]) out (cells w) ! source_index w row lane = val row lane"
proof -
  note u = foldl_update [OF distinct_source [OF w], where val = "\<lambda>(row, lane). val row lane" and out = out]
  have eq: "foldl (\<lambda>out (row, lane). out[row_base w row + lane := val row lane]) out (cells w)
      = foldl (\<lambda>out c. out[(case c of (row, lane) \<Rightarrow> source_index w row lane) := (case c of (row, lane) \<Rightarrow> val row lane)]) out (cells w)"
    by (simp only: update_cells row_base_slot source_index_slot)
  show "length (foldl (\<lambda>out (row, lane). out[row_base w row + lane := val row lane]) out (cells w)) = VALUES"
    unfolding eq using u(1) len by simp
  show "row < w \<Longrightarrow> lane < LANES w \<Longrightarrow>
      foldl (\<lambda>out (row, lane). out[row_base w row + lane := val row lane]) out (cells w) ! source_index w row lane = val row lane"
    unfolding eq using u(2) [of "(row, lane)"] source_bound [OF w, of row lane] len by (simp add: cells_set)
qed

lemma fits_to_u64: "LENGTH('a) \<le> 64 \<Longrightarrow> fits LENGTH('a) (to_u64 (v :: 'a::len word))"
  using bit_imp_le_length [of v] by (auto simp: fits_iff bit_to_u64)

lemma unpack_mapped_ok:
  fixes input :: "'a::len word list"
  assumes w: "packable LENGTH('a)" and width: "width \<le> LENGTH('a)" and len: "length out = VALUES"
    and packed: "length input = packed_len LENGTH('a) width"
  shows "\<exists>out'. unpack_mapped input width out val = Inr out' \<and> length out' = VALUES
    \<and> (\<forall>row < LENGTH('a). \<forall>lane < LANES LENGTH('a). \<exists>v. field (lane_bit input lane) (row * width) width v
         \<and> out' ! source_index LENGTH('a) row lane = val v)"
proof (cases "width = 0")
  case True
  then show ?thesis
    using assms source_bound [OF w]
    by (simp add: unpack_mapped_def check_width_def check_vector_len_def field_0)
next
  case False
  let ?v = "\<lambda>row lane. row_value LENGTH('a) width (\<lambda>wd. to_u64 (input ! (wd * LANES LENGTH('a) + lane))) row"
  note p = packable_simps [OF w]
  have "field (lane_bit input lane) (row * width) width (?v row lane)" for row lane
    by (rule field_cong [OF row_value_field [OF p(1,2) width fits_to_u64 [OF p(2)]]])
      (simp add: lane_bit_def bit_to_u64 p(2))
  then show ?thesis
    using foldl_source [OF w len, where val = "\<lambda>row lane. val (?v row lane)"] False assms
    by (auto simp: unpack_mapped_def check_width_def check_vector_len_def Let_def)
qed

section \<open>Whole units\<close>

lemma field_packed:
  assumes "packed_as input width packed" and "row < LENGTH('a)" and "lane < LANES LENGTH('a)"
    and "fits width (to_u64 ((input :: 'a::len word list) ! (row * LANES LENGTH('a) + lane)))"
  shows "field (lane_bit packed lane) (row * width) width (to_u64 (input ! (row * LANES LENGTH('a) + lane)))"
  using assms by (auto simp: field_def packed_as_def fits_iff)

lemma pack_rows_fit:
  "pack_rows lanes lane width input rows s = Inr s' \<Longrightarrow> row \<in> set rows
    \<Longrightarrow> fits width (to_u64 (input ! (row * lanes + lane)))"
  by (induction rows arbitrary: s) (auto simp: pack_row_def Let_def fits_def split: sum.splits if_splits)

lemma pack_lanes_fit:
  fixes input :: "'a::len word list"
  shows "pack_lanes lanes width input ls out = Inr out' \<Longrightarrow> lane \<in> set ls \<Longrightarrow> row < LENGTH('a)
    \<Longrightarrow> fits width (to_u64 (input ! (row * lanes + lane)))"
  by (induction ls arbitrary: out) (auto split: sum.splits intro: pack_rows_fit)

lemma position_nonzero_all: "position_nonzero i vs = None \<Longrightarrow> v \<in> set vs \<Longrightarrow> to_u64 v = 0"
  by (induction vs arbitrary: i) (auto split: if_splits)

lemma pack_transposed_fit:
  fixes input :: "'a::len word list"
  assumes "pack_transposed input width out = Inr packed" and "row < LENGTH('a)" and "lane < LANES LENGTH('a)"
    and w: "packable LENGTH('a)"
  shows "length input = VALUES" "width \<le> LENGTH('a)" "length out = packed_len LENGTH('a) width"
    "fits width (to_u64 (input ! (row * LANES LENGTH('a) + lane)))"
proof -
  show len: "length input = VALUES" and "width \<le> LENGTH('a)" "length out = packed_len LENGTH('a) width"
    using assms(1) by (auto simp: pack_transposed_def check_vector_len_def check_width_def Let_def split: if_splits)
  have "input ! (row * LANES LENGTH('a) + lane) \<in> set input"
    using plain_bound [OF w assms(2,3)] len by simp
  then show "fits width (to_u64 (input ! (row * LANES LENGTH('a) + lane)))"
    using assms(1) pack_lanes_fit [of _ width input _ out packed lane row] assms(2,3) position_nonzero_all [of 0 input]
    by (auto simp: pack_transposed_def check_all_zero_def check_vector_len_def check_width_def Let_def fits_0
        split: if_splits option.splits)
qed

definition accepted :: "'a::len word list \<Rightarrow> nat \<Rightarrow> 'a word list \<Rightarrow> bool" where
  "accepted input width out \<longleftrightarrow> length input = VALUES \<and> width \<le> LENGTH('a)
     \<and> length out = packed_len LENGTH('a) width \<and> (\<forall>v \<in> set input. fits width (to_u64 v))"

lemma length_Scratch_ready [simp]: "length (Scratch_ready scratch) = VALUES"
  by (auto simp: Scratch_ready_def resize_def)

lemma pack_ok:
  fixes input :: "'a::len word list"
  assumes w: "packable LENGTH('a)" and ok: "accepted input width out"
  shows "\<exists>packed. pack input width out = Inr packed \<and> length packed = packed_len LENGTH('a) width
    \<and> (\<forall>row < LENGTH('a). \<forall>lane < LANES LENGTH('a).
         field (lane_bit packed lane) (row * width) width (to_u64 (input ! source_index LENGTH('a) row lane)))"
proof -
  have len: "length input = VALUES" "width \<le> LENGTH('a)" "length out = packed_len LENGTH('a) width"
    and fit: "\<And>v. v \<in> set input \<Longrightarrow> fits width (to_u64 v)" using ok by (auto simp: accepted_def)
  obtain t where t: "transpose input (Scratch_ready []) = Inr t" "length t = VALUES"
    "\<And>row lane. row < LENGTH('a) \<Longrightarrow> lane < LANES LENGTH('a) \<Longrightarrow>
      t ! (row * LANES LENGTH('a) + lane) = input ! source_index LENGTH('a) row lane"
    using transpose_ok [OF w len(1), of "Scratch_ready []"] by auto
  have "\<exists>row lane. row < LENGTH('a) \<and> lane < LANES LENGTH('a) \<and> i = row * LANES LENGTH('a) + lane" if "i < VALUES" for i
    using that packable_simps [OF w]
    by (intro exI [of _ "i div LANES LENGTH('a)"] exI [of _ "i mod LANES LENGTH('a)"])
      (simp add: less_mult_imp_div_less mult.commute)
  then have fit_t: "fits width (to_u64 v)" if "v \<in> set t" for v
    using that t(2,3) fit source_bound [OF w] len(1) by (metis in_set_conv_nth)
  obtain packed where p: "pack_transposed t width out = Inr packed" "packed_as t width packed"
    using pack_transposed_ok [OF w t(2) len(2) fit_t len(3)] by blast
  have "field (lane_bit packed lane) (row * width) width (to_u64 (input ! source_index LENGTH('a) row lane))"
    if "row < LENGTH('a)" "lane < LANES LENGTH('a)" for row lane
    using field_packed [OF p(2) that] fit_t plain_bound [OF w that] t(2) t(3) [OF that] by (metis nth_mem)
  moreover have "length packed = packed_len LENGTH('a) width" using p(2) by (simp add: packed_as_def packed_len_def)
  moreover have "pack input width out = Inr packed"
    using t(1) p(1) len(1) by (simp add: pack_def pack_with_def check_vector_len_def)
  ultimately show ?thesis by blast
qed

lemma pack_accepts:
  fixes input :: "'a::len word list"
  assumes w: "packable LENGTH('a)" and packed: "pack input width out = Inr packed"
  shows "accepted input width out"
proof -
  have len: "length input = VALUES"
    using packed by (cases "length input = VALUES") (simp_all add: pack_def pack_with_def check_vector_len_def)
  obtain t where t: "transpose input (Scratch_ready []) = Inr t" "length t = VALUES"
    "\<And>row lane. row < LENGTH('a) \<Longrightarrow> lane < LANES LENGTH('a) \<Longrightarrow>
      t ! (row * LANES LENGTH('a) + lane) = input ! source_index LENGTH('a) row lane"
    using transpose_ok [OF w len, of "Scratch_ready []"] by auto
  have "pack input width out = pack_transposed t width out"
    unfolding pack_def pack_with_def t(1) len by (simp add: check_vector_len_def split: sum.split)
  then have p: "pack_transposed t width out = Inr packed" using packed by simp
  note fit = pack_transposed_fit [OF p _ _ w]
  have "fits width (to_u64 v)" if v: "v \<in> set input" for v
  proof -
    obtain i where i: "i < VALUES" "v = input ! i" using v len by (auto simp: in_set_conv_nth)
    obtain row lane where at: "row < LENGTH('a)" "lane < LANES LENGTH('a)" "i = source_index LENGTH('a) row lane"
      by (rule source_index_onto [OF w i(1)]) blast
    show ?thesis unfolding i(2) at(3) t(3) [OF at(1,2), symmetric] by (rule fit(4) [OF at(1,2)])
  qed
  moreover have "width \<le> LENGTH('a)" "length out = packed_len LENGTH('a) width"
    by (rule fit(2,3) [OF packable_simps(1,4) [OF w]])+
  ultimately show ?thesis using len by (simp add: accepted_def)
qed

text \<open>The order of a unit's values is the one of their rows and lanes: two units equal at every one are equal.\<close>

lemma units_eq:
  assumes "packable w" and "length xs = VALUES" and "length ys = VALUES"
    and "\<And>row lane. row < w \<Longrightarrow> lane < LANES w \<Longrightarrow> xs ! source_index w row lane = ys ! source_index w row lane"
  shows "xs = ys"
proof (rule nth_equalityI)
  fix i assume "i < length xs"
  then have "i < VALUES" using assms(2) by simp
  then obtain row lane where "row < w" "lane < LANES w" "i = source_index w row lane"
    by (rule source_index_onto [OF assms(1)]) blast
  then show "xs ! i = ys ! i" using assms(4) by simp
qed (simp add: assms)

lemma unpack_fused:
  fixes input :: "'a::len word list"
  assumes w: "packable LENGTH('a)" and out: "length out = VALUES" and scratch: "length scratch = VALUES"
  shows "unpack input width out =
    (case unpack_transposed input width scratch of Inl e \<Rightarrow> Inl e | Inr t \<Rightarrow> untranspose t out)"
proof (cases "width \<le> LENGTH('a) \<and> length input = packed_len LENGTH('a) width")
  case True
  then obtain t where t: "unpack_transposed input width scratch = Inr t" "length t = VALUES"
    and ft: "\<forall>row < LENGTH('a). \<forall>lane < LANES LENGTH('a). field (lane_bit input lane) (row * width) width
         (to_u64 (t ! (row * LANES LENGTH('a) + lane)))"
    using unpack_transposed_ok [OF w _ scratch, of width input] by blast
  obtain u where u: "untranspose t out = Inr u" "length u = VALUES"
    and fu: "\<And>row lane. row < LENGTH('a) \<Longrightarrow> lane < LANES LENGTH('a) \<Longrightarrow>
      u ! source_index LENGTH('a) row lane = t ! (row * LANES LENGTH('a) + lane)"
    using untranspose_ok [OF w t(2) out] by blast
  obtain m where m: "unpack_mapped input width out from_u64 = Inr m" "length m = VALUES"
    and fm: "\<forall>row < LENGTH('a). \<forall>lane < LANES LENGTH('a). \<exists>v. field (lane_bit input lane) (row * width) width v
         \<and> m ! source_index LENGTH('a) row lane = (from_u64 v :: 'a word)"
    using unpack_mapped_ok [OF w _ out, of width input from_u64] True by blast
  have "m = u"
  proof (rule units_eq [OF w m(2) u(2)])
    fix row lane assume at: "row < LENGTH('a)" "lane < LANES LENGTH('a)"
    then obtain v where "field (lane_bit input lane) (row * width) width v" "m ! source_index LENGTH('a) row lane = from_u64 v"
      using fm by blast
    moreover have "field (lane_bit input lane) (row * width) width (to_u64 (u ! source_index LENGTH('a) row lane))"
      using ft fu at by simp
    ultimately show "m ! source_index LENGTH('a) row lane = u ! source_index LENGTH('a) row lane"
      using field_unique from_to_u64 packable_simps(2) [OF w] by metis
  qed
  then show ?thesis using t u m by (simp add: unpack_def)
next
  case False
  then show ?thesis
    using out scratch by (auto simp: unpack_def unpack_mapped_def unpack_transposed_def check_width_def check_vector_len_def Let_def)
qed

lemma unpack_packed:
  fixes input :: "'a::len word list"
  assumes w: "packable LENGTH('a)" and packed: "pack input width out = Inr packed" and buf: "length buf = VALUES"
  shows "unpack_mapped packed width buf val = Inr (map (\<lambda>v. val (to_u64 v)) input)"
proof -
  have ok: "accepted input width out" by (rule pack_accepts [OF w packed])
  have len: "length packed = packed_len LENGTH('a) width"
    and fp: "\<forall>row < LENGTH('a). \<forall>lane < LANES LENGTH('a).
         field (lane_bit packed lane) (row * width) width (to_u64 (input ! source_index LENGTH('a) row lane))"
    using pack_ok [OF w ok] packed by auto
  have in_len: "length input = VALUES" and width: "width \<le> LENGTH('a)" using ok by (simp_all add: accepted_def)
  obtain m where m: "unpack_mapped packed width buf val = Inr m" "length m = VALUES"
    and fm: "\<forall>row < LENGTH('a). \<forall>lane < LANES LENGTH('a). \<exists>v. field (lane_bit packed lane) (row * width) width v
         \<and> m ! source_index LENGTH('a) row lane = val v"
    using unpack_mapped_ok [OF w width buf len, of val] by blast
  have "m = map (\<lambda>v. val (to_u64 v)) input"
  proof (rule units_eq [OF w m(2)])
    fix row lane assume at: "row < LENGTH('a)" "lane < LANES LENGTH('a)"
    then have "m ! source_index LENGTH('a) row lane = val (to_u64 (input ! source_index LENGTH('a) row lane))"
      using fm fp field_unique by metis
    then show "m ! source_index LENGTH('a) row lane = map (\<lambda>v. val (to_u64 v)) input ! source_index LENGTH('a) row lane"
      using source_bound [OF w at] in_len by simp
  qed (simp add: in_len)
  then show ?thesis using m(1) by simp
qed

text \<open>
  C11. A unit of 1,024 values is packed exactly when it has that many values, the width is at most the
  type's, the output has the packed length, and every value fits the width; the unpacking of what was
  packed gives the values back.
\<close>

theorem unit_read_back:
  fixes input :: "'a::len word list"
  assumes w: "LENGTH('a) \<in> {8, 16, 32, 64}" and buf: "length buf = VALUES"
  shows "case pack input width out of
      Inr packed \<Rightarrow> accepted input width out \<and> unpack packed width buf = Inr input
    | Inl e \<Rightarrow> \<not> accepted input width out"
proof -
  have w: "packable LENGTH('a)" using w by (simp add: packable_def)
  show ?thesis
  proof (cases "pack input width out")
    case (Inl e)
    then show ?thesis using pack_ok [OF w, of input width out] by auto
  next
    case (Inr packed)
    then show ?thesis
      using unpack_packed [OF w Inr buf, of from_u64] pack_accepts [OF w Inr] packable_simps(2) [OF w]
      by (simp add: unpack_def from_to_u64)
  qed
qed

theorem unit_read_back_witness:
  "\<exists>packed. pack (replicate VALUES (3 :: 8 word)) 2 (replicate 256 0) = Inr packed
     \<and> unpack packed 2 (replicate VALUES 0) = Inr (replicate VALUES 3)"
proof -
  have "fits 2 (to_u64 (3 :: 8 word))" by code_simp
  then have "accepted (replicate VALUES (3 :: 8 word)) 2 (replicate 256 0)"
    by (simp add: accepted_def packed_len_def LANES_def VALUES_def)
  then show ?thesis
    using unit_read_back [of "replicate VALUES 0" "replicate VALUES (3 :: 8 word)" 2 "replicate 256 0"]
    by (auto split: sum.splits)
qed

text \<open>
  C16. The unpacking fused with the permutation is the plain one followed by the permutation back, for
  every input and width, errors included.
\<close>

theorem unpack_is_two_passes:
  fixes input :: "'a::len word list"
  assumes "LENGTH('a) \<in> {8, 16, 32, 64}" and "length out = VALUES" and "length scratch = VALUES"
  shows "unpack input width out =
    (case unpack_transposed input width scratch of Inl e \<Rightarrow> Inl e | Inr t \<Rightarrow> untranspose t out)"
  using assms by (intro unpack_fused) (simp_all add: packable_def)

theorem unpack_is_two_passes_witness:
  "unpack (replicate 384 (5 :: 16 word)) 6 (replicate VALUES 0) =
     (case unpack_transposed (replicate 384 5) 6 (replicate VALUES 1) of
        Inl e \<Rightarrow> Inl e | Inr t \<Rightarrow> untranspose t (replicate VALUES 0))"
  by (rule unpack_is_two_passes) simp_all

section \<open>The bytes of a unit\<close>

definition unit_bytes :: "u64 list \<Rightarrow> bytes" where
  "unit_bytes packed = concat (map (le_bytes 8) packed)"

lemma length_unit_bytes [simp]: "length (unit_bytes packed) = length packed * 8"
  by (induction packed) (simp_all add: unit_bytes_def)

lemma slice_unit_bytes: "k < length packed \<Longrightarrow> slice (unit_bytes packed) (k * 8) (k * 8 + 8) = le_bytes 8 (packed ! k)"
proof (induction packed arbitrary: k)
  case (Cons x packed)
  then show ?case by (cases k) (simp_all add: unit_bytes_def slice_def)
qed simp

lemma word_at_unit: "k < length packed \<Longrightarrow> word_at (unit_bytes packed) (k * 8) = packed ! k"
  by (simp add: word_at_def slice_unit_bytes)

text \<open>A row reads no word but the \<open>width\<close> ones its lane has.\<close>

lemma row_value_cong:
  assumes "\<And>k. k < width \<Longrightarrow> f k = g k" and "row < w" and "0 < width"
  shows "row_value w width f row = row_value w width g row"
proof -
  let ?s = "row * width mod w" let ?k = "row * width div w"
  have k: "?k < width" using stream_bound [of row w 0 width] assms(2,3) by simp
  have "?k + 1 < width" if "w < ?s + width"
  proof -
    have "(?k + 1) * w = ?k * w + w" by simp
    also have "\<dots> < ?k * w + (?s + width)" using that by (rule add_strict_left_mono)
    also have "\<dots> = row * width + width" by (simp add: add.assoc [symmetric])
    also have "\<dots> \<le> w * width" using assms(2) mult_le_mono1 [of "Suc row" w width] by (simp add: add.commute)
    finally have "(?k + 1) * w < width * w" by (simp add: mult.commute)
    then show ?thesis by (simp only: mult_less_cancel2)
  qed
  then show ?thesis using k assms(1) by (simp add: row_value_def Let_def not_le)
qed

lemma lane_64: "LANES 64 = 16"
  by (simp add: LANES_def VALUES_def)

lemma unit_word:
  assumes "length packed = packed_len 64 width" and "k < width" and "lane < LANES 64"
  shows "word_at (unit_bytes packed) ((k * LANES 64 + lane) * 8) = packed ! (k * LANES 64 + lane)"
  using assms cell_bound [of k width lane "LANES 64"] by (intro word_at_unit) (simp add: packed_len_def)

lemma unit_row_value:
  assumes "length packed = packed_len 64 width" and "row < 64" and "lane < LANES 64" and "0 < width"
  shows "row_value 64 width (\<lambda>wd. word_at (unit_bytes packed) (wd * (LANES 64 * 8) + lane * 8)) row
    = row_value 64 width (\<lambda>wd. to_u64 (packed ! (wd * LANES 64 + lane))) row"
proof (rule row_value_cong [OF _ assms(2,4)])
  fix k assume "k < width"
  then show "word_at (unit_bytes packed) (k * (LANES 64 * 8) + lane * 8) = to_u64 (packed ! (k * LANES 64 + lane))"
    using unit_word [OF assms(1) _ assms(3), of k] by (simp add: to_u64_def algebra_simps)
qed

lemma unpack_unit_bytes:
  assumes "length packed = packed_len 64 width"
  shows "unpack_unit_into (unit_bytes packed) width out val = unpack_mapped packed width out val"
proof (cases "width = 0")
  case True
  then show ?thesis using assms by (simp add: unpack_unit_into_def unpack_mapped_def unit_len_def)
next
  case False
  have "foldl (\<lambda>out (row, lane). out[row_base 64 row + lane :=
          val (row_value 64 width (\<lambda>wd. word_at (unit_bytes packed) (wd * (LANES 64 * 8) + lane * 8)) row)]) out (cells 64)
      = foldl (\<lambda>out (row, lane). out[row_base 64 row + lane :=
          val (row_value 64 width (\<lambda>wd. to_u64 (packed ! (wd * LANES 64 + lane))) row)]) out (cells 64)"
    by (rule foldl_cong) (use False in \<open>auto simp: cells_set unit_row_value [OF assms]\<close>)
  then show ?thesis
    using False assms by (simp add: unpack_unit_into_def unpack_mapped_def unit_len_def Let_def split: sum.split)
qed

lemma unit_value_row:
  assumes "length packed = packed_len 64 width" and "index < VALUES" and "0 < width"
  shows "unit_value (unit_bytes packed) width index
    = row_value 64 width (\<lambda>wd. to_u64 (packed ! (wd * LANES 64 + index mod LANES 64))) (row_slot 64 (index div LANES 64))"
proof -
  let ?row = "row_slot 64 (index div LANES 64)" let ?lane = "index mod LANES 64"
  have w: "packable 64" by (simp add: packable_def)
  have row: "?row < 64" using row_slot_inverse(1) [OF w, of "index div LANES 64"] assms(2)
    by (simp add: lane_64 VALUES_def)
  have "unit_value (unit_bytes packed) width index
      = row_value 64 width (\<lambda>wd. word_at (unit_bytes packed) ((wd * LANES 64 + ?lane) * 8)) ?row"
    by (simp add: unit_value_def row_value_def row_slot_def Let_def)
  also have "\<dots> = row_value 64 width (\<lambda>wd. to_u64 (packed ! (wd * LANES 64 + ?lane))) ?row"
    by (rule row_value_cong [OF _ row assms(3)]) (use unit_word [OF assms(1)] in \<open>simp add: to_u64_def lane_64\<close>)
  finally show ?thesis .
qed

lemma unit_value_at:
  assumes len: "length packed = packed_len 64 width" and width: "width \<le> 64" "0 < width" and out: "length out = VALUES"
    and u: "unpack_mapped packed width out (\<lambda>v. v) = Inr u" and index: "index < VALUES"
  shows "unit_value (unit_bytes packed) width index = u ! index"
proof -
  have w: "packable 64" by (simp add: packable_def)
  obtain row lane where at: "row < 64" "lane < LANES 64" "index = source_index 64 row lane"
    "row = row_slot 64 (index div LANES 64)" "lane = index mod LANES 64"
    by (rule source_index_onto [OF w index]) blast
  let ?v = "\<lambda>row lane. row_value 64 width (\<lambda>wd. to_u64 (packed ! (wd * LANES 64 + lane))) row"
  have "unpack_mapped packed width out (\<lambda>v. v) =
      Inr (foldl (\<lambda>out (row, lane). out[row_base 64 row + lane := ?v row lane]) out (cells 64))"
    using len width out by (simp add: unpack_mapped_def check_width_def check_vector_len_def)
  then have "u = foldl (\<lambda>out (row, lane). out[row_base 64 row + lane := ?v row lane]) out (cells 64)"
    unfolding u by (rule sum.inject(2) [THEN iffD1])
  then have "u ! index = ?v row lane"
    unfolding at(3) using foldl_source(2) [OF w out at(1,2), where val = ?v] by (simp only:)
  then show ?thesis using unit_value_row [OF len index width(2)] unfolding at(4,5) by (simp only:)
qed

lemma unpack_mapped_val:
  fixes input :: "'a::len word list"
  assumes w: "packable LENGTH('a)" and width: "width \<le> LENGTH('a)" and packed: "length input = packed_len LENGTH('a) width"
    and out: "length out = VALUES" and buf: "length buf = VALUES"
  shows "\<exists>u. length u = VALUES \<and> unpack_mapped input width out (\<lambda>v. v) = Inr u \<and> unpack_mapped input width buf val = Inr (map val u)"
proof -
  obtain u where u: "unpack_mapped input width out (\<lambda>v. v) = Inr u" "length u = VALUES"
    and fu: "\<forall>row < LENGTH('a). \<forall>lane < LANES LENGTH('a). \<exists>v. field (lane_bit input lane) (row * width) width v
         \<and> u ! source_index LENGTH('a) row lane = v"
    using unpack_mapped_ok [OF w width out packed, of "\<lambda>v. v"] by blast
  obtain m where m: "unpack_mapped input width buf val = Inr m" "length m = VALUES"
    and fm: "\<forall>row < LENGTH('a). \<forall>lane < LANES LENGTH('a). \<exists>v. field (lane_bit input lane) (row * width) width v
         \<and> m ! source_index LENGTH('a) row lane = val v"
    using unpack_mapped_ok [OF w width buf packed, of val] by blast
  have "m = map val u"
  proof (rule units_eq [OF w m(2)])
    fix row lane assume at: "row < LENGTH('a)" "lane < LANES LENGTH('a)"
    then show "m ! source_index LENGTH('a) row lane = map val u ! source_index LENGTH('a) row lane"
      using fu fm field_unique source_bound [OF w at] u(2) by fastforce
  qed (simp add: u(2))
  then show ?thesis using u m(1) by blast
qed

lemma unpack_each_map:
  assumes "\<And>i. i < VALUES \<Longrightarrow> (if width = 0 then 0 else unit_value input width i) = u ! i"
  shows "unpack_each input width is out = (map_option Outside_unit (find (\<lambda>i. VALUES \<le> i) is), out @ map ((!) u) (takeWhile (\<lambda>i. i < VALUES) is))"
proof (induction "is" arbitrary: out)
  case (Cons i "is")
  show ?case
  proof (cases "i < VALUES")
    case True
    then show ?thesis using Cons.IH [of "out @ [if width = 0 then 0 else unit_value input width i]"] assms [OF True] by simp
  qed simp
qed simp

text \<open>
  C18. The bytes of a unit read in place give what unpacking the unit gives, whole through a function of
  each value, one position after the other up to the first that is outside the unit, and one position
  alone.
\<close>

theorem unit_lookups_exact:
  assumes "length packed = packed_len 64 width" and "width \<le> 64" and "length out = VALUES" and "length buf = VALUES"
  shows "\<exists>u. length u = VALUES \<and> unpack packed width out = Inr u
    \<and> unpack_unit_into (unit_bytes packed) width buf val = Inr (map val u)
    \<and> unpack_u64_each (unit_bytes packed) width is =
        (map_option Outside_unit (find (\<lambda>i. VALUES \<le> i) is), map ((!) u) (takeWhile (\<lambda>i. i < VALUES) is))
    \<and> unpack_u64_at (unit_bytes packed) width i = (if i < VALUES then Inr (u ! i) else Inl (Outside_unit i))"
proof -
  obtain u where u: "length u = VALUES" "unpack_mapped packed width out (\<lambda>v. v) = Inr u"
    "unpack_mapped packed width buf val = Inr (map val u)"
    using unpack_mapped_val [of width packed out buf val] assms by (auto simp: packable_def)
  have same: "from_u64 = (\<lambda>v. v :: u64)" by (auto simp: from_u64_def)
  have "(if width = 0 then 0 else unit_value (unit_bytes packed) width j) = u ! j" if "j < VALUES" for j
    using that u(2) assms unit_value_at [OF assms(1,2) _ assms(3) u(2) that]
    by (auto simp: unpack_mapped_def check_width_def check_vector_len_def)
  note each = unpack_each_map [OF this]
  have "unpack_u64_each (unit_bytes packed) width js =
      (map_option Outside_unit (find (\<lambda>i. VALUES \<le> i) js), map ((!) u) (takeWhile (\<lambda>i. i < VALUES) js))" for js
    using assms each [of js "[]"] by (simp add: unpack_u64_each_def check_width_def)
  then show ?thesis using u unpack_unit_bytes [OF assms(1), of buf val] same by (simp add: unpack_def unpack_u64_at_def)
qed

theorem unit_lookups_exact_witness:
  "\<exists>u. unpack (replicate 16 5) 1 (replicate VALUES 0) = Inr u
    \<and> unpack_u64_each (unit_bytes (replicate 16 5)) 1 [2, 2000, 3] = (Some (Outside_unit 2000), [u ! 2])
    \<and> unpack_u64_at (unit_bytes (replicate 16 5)) 1 7 = Inr (u ! 7)"
  using unit_lookups_exact [of "replicate 16 5" 1 "replicate VALUES 0" "replicate VALUES 0" "\<lambda>v. v" "[2, 2000, 3]" 7]
  by (auto simp: packed_len_def LANES_def VALUES_def)

end
