(* ===== verification/BitpackTail.thy ===== *)
theory BitpackTail
  imports BitpackRead
begin

text \<open>
  The sequential layout of \<open>rudb-encoding/src/bitpack.rs\<close>, which a run shorter than a unit is packed in:
  what \<open>pack_linear\<close> writes as a stream of bits, and that the readers, which load eight or sixteen
  bytes at once where they can, read the fields of that stream.
\<close>

unbundle bit_operations_syntax

section \<open>Bytes as a stream of bits\<close>

definition byte_bit :: "bytes \<Rightarrow> nat \<Rightarrow> bool" where
  "byte_bit bs b \<longleftrightarrow> b div 8 < length bs \<and> bit (bs ! (b div 8)) (b mod 8)"

lemma bit_le_word_stream: "bit (le_word bs :: 'a::len word) i \<longleftrightarrow> i < LENGTH('a) \<and> byte_bit bs i"
  by (simp add: bit_le_word byte_bit_def)

lemma byte_bit_slice:
  assumes "i < 8 * (b - a)" and "b \<le> length bs"
  shows "byte_bit (slice bs a b) i = byte_bit bs (8 * a + i)"
proof -
  have "i div 8 < b - a" using assms(1) by (simp add: less_mult_imp_div_less mult.commute)
  then show ?thesis using assms(2) by (auto simp: byte_bit_def slice_def)
qed

lemma byte_bit_drop: "byte_bit (drop a bs) i = byte_bit bs (8 * a + i)"
  by (auto simp: byte_bit_def)

lemma byte_bit_zeros: "byte_bit (bs @ replicate n 0) i = byte_bit bs i"
  by (auto simp: byte_bit_def nth_append)

lemma byte_bit_append:
  "byte_bit (xs @ ys) i = (if i < 8 * length xs then byte_bit xs i else byte_bit ys (i - 8 * length xs))"
proof (cases "i < 8 * length xs")
  case True
  then have "i div 8 < length xs" by linarith
  then show ?thesis using True by (simp add: byte_bit_def nth_append)
next
  case False
  then obtain j where "i = 8 * length xs + j" by (metis le_Suc_ex not_less)
  then show ?thesis by (simp add: byte_bit_def nth_append)
qed

lemma byte_bit_le_bytes: "byte_bit (le_bytes n (v :: 'a::len word)) i \<longleftrightarrow> i < 8 * n \<and> bit v i"
proof -
  have "i div 8 < n \<longleftrightarrow> i < 8 * n" by linarith
  moreover have "8 * (i div 8) + i mod 8 = i" by simp
  ultimately show ?thesis by (auto simp: byte_bit_def nth_le_bytes bit_ucast_iff bit_drop_bit_eq)
qed

text \<open>A load of eight bytes, shifted and masked, is a field that ends inside them.\<close>

lemma load_field:
  assumes "s + width \<le> 64" and "a + 8 \<le> length bs"
  shows "field (byte_bit bs) (8 * a + s) width (drop_bit s (word_at bs a) AND low_mask width)"
proof -
  have "bit (drop_bit s (word_at bs a)) j \<longleftrightarrow> byte_bit bs (8 * a + s + j)" if "j < width" for j
    using that assms byte_bit_slice [of "s + j" "a + 8" a bs]
    by (simp add: word_at_def bit_drop_bit_eq bit_le_word_stream add.assoc)
  then show ?thesis using assms(1) by (auto simp: field_def bit_and_iff bit_low_mask)
qed

text \<open>And a load of sixteen one that ends inside those.\<close>

lemma window_read_field:
  assumes "s + width \<le> 128" and "width \<le> 64"
    and "\<And>i. i < width \<Longrightarrow> byte_bit window (s + i) = byte_bit bs (start + i)"
  shows "field (byte_bit bs) start width (read_window (low_mask width) (le_word window) s)"
  using assms
  by (auto simp: field_def read_window_def bit_ucast_iff bit_and_iff bit_low_mask bit_drop_bit_eq bit_le_word_stream)

section \<open>What is written\<close>

definition tail_inv :: "u64 list \<Rightarrow> nat \<Rightarrow> nat \<Rightarrow> u128 \<times> nat \<times> bytes \<Rightarrow> bool" where
  "tail_inv vs width r s \<longleftrightarrow>
     (case s of (acc, filled, out) \<Rightarrow>
        8 * length out + filled = r * width \<and> filled < 64
        \<and> (\<forall>i. bit acc i \<longleftrightarrow> i < filled \<and> value_bit ((!) vs) width (8 * length out + i))
        \<and> (\<forall>b < 8 * length out. byte_bit out b \<longleftrightarrow> value_bit ((!) vs) width b))"

lemma tail_acc:
  assumes "tail_inv vs width r (acc, filled, out)" and "fits width (vs ! r)" and "width \<le> 64"
  shows "bit (acc OR push_bit filled (ucast (vs ! r)) :: u128) i
    \<longleftrightarrow> i < filled + width \<and> value_bit ((!) vs) width (8 * length out + i)"
proof (cases "i < filled")
  case True
  then show ?thesis using assms(1) by (auto simp: tail_inv_def bit_or_iff bit_push_bit_iff)
next
  case False
  have at: "8 * length out + filled = r * width" "filled < 64" using assms(1) by (simp_all add: tail_inv_def)
  then have "8 * length out + i = r * width + (i - filled)" using False by linarith
  moreover have "bit (vs ! r) (i - filled) \<Longrightarrow> i - filled < width" using assms(2) by (simp add: fits_iff)
  moreover have "\<not> bit acc i" using False assms(1) by (simp add: tail_inv_def)
  ultimately show ?thesis
    using False at(2) assms(3) value_bit_at [of "i - filled" width "(!) vs" r]
    by (auto simp: bit_or_iff bit_push_bit_iff bit_ucast_iff)
qed

lemma tail_flush:
  assumes inv: "tail_inv vs width r (acc, filled, out)" and fit: "fits width (vs ! r)" and width: "width \<le> 64"
    and acc': "acc' = acc OR push_bit filled (ucast (vs ! r))" and full: "64 \<le> filled + width"
  shows "tail_inv vs width (Suc r) (drop_bit 64 acc', filled + width - 64, out @ le_bytes 8 (ucast acc' :: u64))"
proof -
  have at: "8 * length out + filled = r * width" "filled < 64"
    and old: "\<And>b. b < 8 * length out \<Longrightarrow> byte_bit out b \<longleftrightarrow> value_bit ((!) vs) width b"
    using inv by (simp_all add: tail_inv_def)
  note bits = tail_acc [OF inv fit width, folded acc']
  let ?out = "out @ le_bytes 8 (ucast acc' :: u64)"
  have len: "8 * length ?out = 8 * length out + 64" by simp
  have "bit (drop_bit 64 acc') i \<longleftrightarrow> i < filled + width - 64 \<and> value_bit ((!) vs) width (8 * length ?out + i)" for i
  proof -
    have "8 * length out + (64 + i) = 8 * length ?out + i" "64 + i < filled + width \<longleftrightarrow> i < filled + width - 64"
      using full by auto
    then show ?thesis unfolding bit_drop_bit_eq comp_def bits [of "64 + i"] by (simp only:)
  qed
  moreover have "byte_bit ?out b \<longleftrightarrow> value_bit ((!) vs) width b" if "b < 8 * length ?out" for b
  proof (cases "b < 8 * length out")
    case False
    then have "b - 8 * length out < 64" "8 * length out + (b - 8 * length out) = b" using that by simp_all
    then show ?thesis
      using False full bits [of "b - 8 * length out"] by (simp add: byte_bit_append byte_bit_le_bytes bit_ucast_iff)
  qed (simp add: byte_bit_append old)
  moreover have "8 * length ?out + (filled + width - 64) = Suc r * width" "filled + width - 64 < 64"
    using at full width by simp_all
  ultimately show ?thesis by (simp add: tail_inv_def)
qed

lemma pack_values_inv:
  assumes width: "width \<le> 64" and fit: "\<forall>v \<in> set vs. fits width v"
  shows "r \<le> length vs \<Longrightarrow> tail_inv vs width r (acc, filled, out) \<Longrightarrow>
    \<exists>acc' filled' out'. pack_values width (drop r vs) (acc, filled, pre @ out) = Inr (acc', filled', pre @ out')
      \<and> tail_inv vs width (length vs) (acc', filled', out')"
proof (induction r arbitrary: acc filled out rule: inc_induct)
  case base
  then show ?case by auto
next
  case (step r)
  have v: "drop r vs = vs ! r # drop (Suc r) vs" using step.hyps(2) by (simp add: Cons_nth_drop_Suc)
  have f: "fits width (vs ! r)" using fit step.hyps(2) by simp
  let ?acc = "acc OR push_bit filled (ucast (vs ! r)) :: u128"
  show ?case
  proof (cases "64 \<le> filled + width")
    case True
    then show ?thesis
      using step.IH [OF tail_flush [OF step.prems f width refl True]] f unfolding v by (simp add: Let_def fits_def)
  next
    case False
    have "tail_inv vs width (Suc r) (?acc, filled + width, out)"
      using step.prems tail_acc [OF step.prems f width] False by (auto simp: tail_inv_def)
    then show ?thesis using step.IH f False unfolding v by (simp add: Let_def fits_def)
  qed
qed

lemma push_rest_bytes: "push_rest acc filled out = out @ le_bytes (div_ceil8 filled) acc"
proof (induction acc filled out rule: push_rest.induct)
  case (1 acc filled out)
  have byte: "ucast (acc AND 0xff) = (ucast acc :: u8)"
    by (rule bit_word_eqI) (auto simp: bit_ucast_iff bit_and_iff bit_numeral_word_iff less_Suc_eq numeral_eq_Suc)
  show ?case
  proof (cases "8 \<le> filled")
    case True
    then have "div_ceil8 filled = Suc (div_ceil8 (filled - 8))" unfolding div_ceil8_def by linarith
    then have "le_bytes (div_ceil8 filled) acc = ucast acc # le_bytes (div_ceil8 (filled - 8)) (drop_bit 8 acc)"
      by (simp add: le_bytes_def upt_conv_Cons map_Suc_upt [symmetric] add.commute del: upt_Suc)
    then show ?thesis using True 1 byte by (subst push_rest.simps) simp
  next
    case False
    then have "div_ceil8 filled = (if filled = 0 then 0 else 1)" unfolding div_ceil8_def by (simp, linarith)
    then show ?thesis using False byte by (subst push_rest.simps) (simp add: le_bytes_def)
  qed
qed

lemma pack_values_fit: "pack_values width vs s = Inr s' \<Longrightarrow> v \<in> set vs \<Longrightarrow> fits width v"
  by (induction vs arbitrary: s) (auto simp: fits_def Let_def split: if_splits prod.splits)

text \<open>What a packed run is: the fields of its bytes are its values, and it has no byte more than they need.\<close>

definition tail_of :: "u64 list \<Rightarrow> nat \<Rightarrow> bytes \<Rightarrow> bool" where
  "tail_of vs width bs \<longleftrightarrow> length bs = tail_len (length vs) width
     \<and> (\<forall>i < length vs. field (byte_bit bs) (i * width) width (vs ! i))"

lemma pack_linear_ok:
  assumes "width \<le> 64" and "\<forall>v \<in> set vs. fits width v"
  shows "\<exists>bs. pack_linear vs width pre = Inr (pre @ bs) \<and> tail_of vs width bs"
proof (cases "width = 0")
  case True
  then have "\<forall>v \<in> set vs. v = 0" using assms(2) by (simp add: fits_0)
  then show ?thesis
    using True by (auto simp: pack_linear_def check_all_zero_def position_nonzero_none to_u64_def tail_of_def tail_len_def div_ceil8_def field_0)
next
  case False
  have "tail_inv vs width 0 (0, 0, [])" by (simp add: tail_inv_def)
  then obtain acc filled out where p: "pack_values width vs (0, 0, pre) = Inr (acc, filled, pre @ out)"
    and inv: "tail_inv vs width (length vs) (acc, filled, out)"
    using pack_values_inv [OF assms, of 0 0 0 "[]" pre] by auto
  let ?bs = "out @ le_bytes (div_ceil8 filled) acc"
  have at: "8 * length out + filled = length vs * width" using inv by (simp add: tail_inv_def)
  then have len: "length ?bs = tail_len (length vs) width" unfolding tail_len_def div_ceil8_def by simp
  have bits: "byte_bit ?bs b \<longleftrightarrow> value_bit ((!) vs) width b" if "b < length vs * width" for b
  proof (cases "b < 8 * length out")
    case True
    then show ?thesis using inv by (simp add: byte_bit_append tail_inv_def)
  next
    case False
    then have "b - 8 * length out < filled" "8 * length out + (b - 8 * length out) = b" using that at by simp_all
    moreover have "filled \<le> 8 * div_ceil8 filled" unfolding div_ceil8_def by linarith
    ultimately show ?thesis using False inv by (simp add: byte_bit_append byte_bit_le_bytes tail_inv_def)
  qed
  have "field (byte_bit ?bs) (i * width) width (vs ! i)" if i: "i < length vs" for i
    unfolding field_def
  proof
    fix j
    have "fits width (vs ! i)" using assms(2) i by simp
    then have "bit (vs ! i) j \<Longrightarrow> j < width" by (simp add: fits_iff)
    moreover have "j < width \<Longrightarrow> i * width + j < length vs * width" using i by (intro cell_bound [of i "length vs"]) simp_all
    ultimately show "bit (vs ! i) j \<longleftrightarrow> j < width \<and> byte_bit ?bs (i * width + j)"
      using bits value_bit_at [of j width "(!) vs" i] by auto
  qed
  then have "tail_of vs width ?bs" using len by (simp add: tail_of_def)
  moreover have "pack_linear vs width pre = Inr (pre @ ?bs)"
    using p False assms(1) by (simp add: pack_linear_def push_rest_bytes)
  ultimately show ?thesis by blast
qed

section \<open>What is read\<close>

lemma div_ceil8_le: "div_ceil8 n \<le> k \<longleftrightarrow> n \<le> 8 * k"
  unfolding div_ceil8_def by linarith

lemma byte_place: "8 * (start div 8) + start mod 8 = (start :: nat)"
  by simp

lemma first_field:
  assumes "start + WINDOW * 8 \<le> 8 * length input + 7" and "width \<le> 64"
  shows "width \<le> NARROW \<Longrightarrow> field (byte_bit input) start width (drop_bit (start mod 8) (word_at input (start div 8)) AND low_mask width)"
    and "field (byte_bit input) start width
      (read_window (low_mask width) (le_word (slice input (start div 8) (start div 8 + WINDOW))) (start mod 8))"
proof -
  have a: "start div 8 + 16 \<le> length input" using assms(1) unfolding WINDOW_def by linarith
  then show "width \<le> NARROW \<Longrightarrow> field (byte_bit input) start width (drop_bit (start mod 8) (word_at input (start div 8)) AND low_mask width)"
    using load_field [of "start mod 8" width "start div 8" input] unfolding byte_place NARROW_def by simp
  show "field (byte_bit input) start width
      (read_window (low_mask width) (le_word (slice input (start div 8) (start div 8 + WINDOW))) (start mod 8))"
  proof (rule window_read_field)
    fix i assume "i < width"
    then have "start mod 8 + i < 8 * (start div 8 + WINDOW - start div 8)"
      using assms(2) mod_less_divisor [of 8 start] unfolding WINDOW_def by linarith
    then show "byte_bit (slice input (start div 8) (start div 8 + WINDOW)) (start mod 8 + i) = byte_bit input (start + i)"
      using byte_bit_slice [of "start mod 8 + i" "start div 8 + WINDOW" "start div 8" input] a
      by (simp add: WINDOW_def add.assoc [symmetric])
  qed (use assms(2) mod_less_divisor [of 8 start] in linarith)+
qed

lemma last_field:
  assumes "base \<le> length input" and "8 * base \<le> start" and "start + width \<le> 8 * length input" and "width \<le> 64"
    and "length input \<le> base + WINDOW"
  shows "field (byte_bit input) start width (read_window (low_mask width) (le_word (drop base input)) (start - base * 8))"
proof (rule window_read_field)
  show "start - base * 8 + width \<le> 128" using assms unfolding WINDOW_def by linarith
  show "byte_bit (drop base input) (start - base * 8 + i) = byte_bit input (start + i)" for i
    using assms(2) by (simp add: byte_bit_drop mult.commute)
qed (rule assms(4))

lemma nth_two_parts:
  "i < n \<Longrightarrow> m \<le> n \<Longrightarrow> (map f [0..<m] @ map g [0..<n - m]) ! i = (if i < m then f i else g (i - m))"
  by (simp add: nth_append)

lemma unpack_tail_into_fields:
  assumes width: "width \<le> 64" and n: "length out < VALUES" and len: "tail_len (length out) width \<le> length input"
  shows "\<exists>vs. length vs = length out \<and> unpack_tail_into input width out val = Inr (map val vs)
    \<and> (\<forall>i < length out. field (byte_bit input) (i * width) width (vs ! i))"
proof -
  let ?n = "length out" let ?msk = "low_mask width"
  have bits: "i * width + width \<le> 8 * length input" if "i < ?n" for i
  proof -
    have "i * width + width \<le> ?n * width" using that mult_le_mono1 [of "Suc i" ?n width] by (simp add: add.commute)
    also have "\<dots> \<le> 8 * length input" using len by (simp add: tail_len_def div_ceil8_le)
    finally show ?thesis .
  qed
  consider "width = 0" | "0 < width" "length input < WINDOW" | "0 < width" "WINDOW \<le> length input" by linarith
  then show ?thesis
  proof cases
    case 1
    then show ?thesis
      using n by (intro exI [of _ "replicate ?n 0"]) (simp add: unpack_tail_into_def check_tail_def field_0)
  next
    case 2
    let ?word = "le_word (input @ replicate (WINDOW - length input) 0) :: u128"
    have "field (byte_bit input) (i * width) width (read_window ?msk ?word (i * width))" if "i < ?n" for i
      using bits [OF that] 2(2) width by (intro window_read_field) (simp_all add: byte_bit_zeros WINDOW_def)
    then show ?thesis
      using 2 n width len
      by (intro exI [of _ "map (\<lambda>i. read_window ?msk ?word (i * width)) [0..<?n]"])
        (simp add: unpack_tail_into_def check_tail_def Let_def)
  next
    case 3
    let ?whole = "min ((length input - WINDOW) * 8 div width + 1) ?n" let ?base = "length input - WINDOW"
    let ?first = "\<lambda>i. if width \<le> NARROW then drop_bit (i * width mod 8) (word_at input (i * width div 8)) AND ?msk
        else read_window ?msk (le_word (slice input (i * width div 8) (i * width div 8 + WINDOW))) (i * width mod 8)"
    let ?last = "\<lambda>k. read_window ?msk (le_word (drop ?base input)) ((?whole + k) * width - ?base * 8)"
    let ?vs = "map ?first [0..<?whole] @ map ?last [0..<?n - ?whole]"
    have first: "field (byte_bit input) (i * width) width (?first i)" if "i < ?whole" for i
    proof -
      have "i \<le> ?base * 8 div width" using that by simp
      then have "i * width \<le> ?base * 8 div width * width" by (rule mult_le_mono1)
      also have "\<dots> \<le> ?base * 8" by (rule div_times_less_eq_dividend)
      finally have "i * width + WINDOW * 8 \<le> 8 * length input + 7" using 3(2) by linarith
      then show ?thesis using first_field [of "i * width" input width] width by simp
    qed
    have last: "field (byte_bit input) ((?whole + k) * width) width (?last k)" if "?whole + k < ?n" for k
    proof (rule last_field)
      have "?base * 8 < (?base * 8 div width + 1) * width" using 3(1) dividend_less_times_div [of width "?base * 8"]
        by (simp add: algebra_simps)
      also have "\<dots> \<le> (?whole + k) * width" using that by (intro mult_le_mono1) simp
      finally show "8 * ?base \<le> (?whole + k) * width" by simp
    qed (use bits [OF that] width 3(2) in simp_all)
    have "field (byte_bit input) (i * width) width (?vs ! i)" if i: "i < ?n" for i
    proof (cases "i < ?whole")
      case True
      then show ?thesis unfolding nth_two_parts [OF i min.cobounded2] if_P [OF True] by (rule first)
    next
      case False
      then have k: "?whole + (i - ?whole) = i" by linarith
      have "?whole + (i - ?whole) < ?n" unfolding k by (rule i)
      from last [OF this] show ?thesis unfolding nth_two_parts [OF i min.cobounded2] if_not_P [OF False] unfolding k .
    qed
    moreover have "unpack_tail_into input width out val = Inr (map val ?vs)"
      using 3 n width len by (simp add: unpack_tail_into_def check_tail_def Let_def comp_def)
    ultimately show ?thesis by (intro exI [of _ ?vs]) simp
  qed
qed

lemma tail_at_field:
  assumes width: "width \<le> 64" and inside: "index * width + width \<le> 8 * length input"
  shows "\<exists>v. tail_at input width index = Inr v \<and> field (byte_bit input) (index * width) width v"
proof -
  let ?start = "index * width"
  consider "width = 0" | "width \<le> 56" "index \<le> (2 ^ 64 - 1) div 64" "?start mod 2 ^ 64 div 8 + 8 \<le> length input"
    | "0 < width" "\<not> (width \<le> 56 \<and> index \<le> (2 ^ 64 - 1) div 64 \<and> ?start mod 2 ^ 64 div 8 + 8 \<le> length input)"
    by blast
  then show ?thesis
  proof cases
    case 1
    then show ?thesis by (auto simp: tail_at_def tail_at_rest_def field_0 low_mask_def)
  next
    case 2
    have "?start \<le> (2 ^ 64 - 1) div 64 * 56" using 2(1,2) by (intro mult_le_mono)
    then have "?start < 2 ^ 64" by simp
    then have wrap: "?start mod 2 ^ 64 = ?start" by simp
    have "field (byte_bit input) ?start width (drop_bit (?start mod 8) (word_at input (?start div 8)) AND low_mask width)"
      using load_field [of "?start mod 8" width "?start div 8" input] 2(1,3) unfolding byte_place wrap by simp
    then show ?thesis using 2 unfolding tail_at_def wrap by (simp add: Let_def)
  next
    case 3
    let ?first = "?start div 8" let ?lst = "(?start + width - 1) div 8"
    have rest: "tail_at input width index = tail_at_rest input width index"
      unfolding tail_at_def Let_def using 3(2) by (rule if_not_P)
    have room: "\<not> length input < div_ceil8 (?start + width)" using inside by (simp add: not_less div_ceil8_le)
    have lst: "?first \<le> ?lst" "?lst < length input" using 3(1) inside by linarith+
    show ?thesis
    proof (cases "?first + 8 \<le> length input \<and> ?lst - ?first < 8")
      case True
      then have "?start mod 8 + width \<le> 64" using byte_place [of ?start] 3(1) by linarith
      then have "field (byte_bit input) ?start width (drop_bit (?start mod 8) (word_at input ?first) AND low_mask width)"
        using load_field [of "?start mod 8" width ?first input] True unfolding byte_place by simp
      then show ?thesis
        unfolding rest using True 3(1) width room by (simp add: tail_at_rest_def Let_def)
    next
      case False
      let ?window = "slice input ?first (?lst + 1) @ replicate (WINDOW - (?lst + 1 - ?first)) 0"
      have "field (byte_bit input) ?start width (read_window (low_mask width) (le_word ?window) (?start mod 8))"
      proof (rule window_read_field)
        fix i assume "i < width"
        then have "?start mod 8 + i < 8 * (?lst + 1 - ?first)" using byte_place [of ?start] 3(1) by linarith
        then show "byte_bit ?window (?start mod 8 + i) = byte_bit input (?start + i)"
          using byte_bit_slice [of "?start mod 8 + i" "?lst + 1" ?first input] lst
          by (simp add: byte_bit_zeros add.assoc [symmetric])
      qed (use width mod_less_divisor [of 8 ?start] in linarith)+
      then show ?thesis
        unfolding rest using False 3(1) width room by (auto simp: tail_at_rest_def Let_def)
    qed
  qed
qed

lemma tail_pair_field:
  assumes width: "width \<le> 64" and inside: "Suc index * width + width \<le> 8 * length input"
  shows "\<exists>a b. tail_pair input width (Suc index) = Inr (a, b)
    \<and> field (byte_bit input) (index * width) width a \<and> field (byte_bit input) (Suc index * width) width b"
proof -
  let ?start = "index * width" let ?word = "drop_bit (?start mod 8) (word_at input (?start div 8))"
  consider "width = 0" | "0 < width" "?start mod 8 + 2 * width \<le> 64 \<and> ?start div 8 + 8 \<le> length input"
    | "0 < width" "\<not> (?start mod 8 + 2 * width \<le> 64 \<and> ?start div 8 + 8 \<le> length input)" by blast
  then show ?thesis
  proof cases
    case 1
    then show ?thesis by (simp add: tail_pair_def field_0)
  next
    case 2
    have "field (byte_bit input) ?start width (?word AND low_mask width)"
      using load_field [of "?start mod 8" width "?start div 8" input] 2 unfolding byte_place by simp
    moreover have "8 * (?start div 8) + (?start mod 8 + width) = Suc index * width" by simp
    then have "field (byte_bit input) (Suc index * width) width (drop_bit width ?word AND low_mask width)"
      using load_field [of "?start mod 8 + width" width "?start div 8" input] 2 by (simp add: add.commute)
    ultimately show ?thesis using 2 by (simp add: tail_pair_def Let_def)
  next
    case 3
    obtain a where a: "tail_at input width index = Inr a" "field (byte_bit input) ?start width a"
      using tail_at_field [OF width, of index input] inside by auto
    obtain b where b: "tail_at input width (Suc index) = Inr b" "field (byte_bit input) (Suc index * width) width b"
      using tail_at_field [OF width inside] by blast
    show ?thesis using 3 a b by (auto simp: tail_pair_def Let_def)
  qed
qed

section \<open>Runs\<close>

lemma byte_bit_prefix: "b < 8 * length bs \<Longrightarrow> byte_bit (bs @ rest) b = byte_bit bs b"
  by (simp add: byte_bit_append)

lemma tail_field_prefix:
  assumes "tail_of vs width bs" and "i < length vs"
  shows "field (byte_bit (bs @ rest)) (i * width) width (vs ! i)" and "i * width + width \<le> 8 * length (bs @ rest)"
proof -
  have "i * width + width \<le> length vs * width"
    using assms(2) mult_le_mono1 [of "Suc i" "length vs" width] by (simp add: add.commute)
  also have "\<dots> \<le> 8 * length bs" using assms(1) div_ceil8_le [of "length vs * width" "length bs"] by (simp add: tail_of_def tail_len_def)
  finally have room: "i * width + width \<le> 8 * length bs" .
  have "field (byte_bit bs) (i * width) width (vs ! i)" using assms by (simp add: tail_of_def)
  then show "field (byte_bit (bs @ rest)) (i * width) width (vs ! i)"
    by (rule field_cong) (use room in \<open>simp add: byte_bit_prefix\<close>)
  show "i * width + width \<le> 8 * length (bs @ rest)" using room by simp
qed

lemma tail_read:
  assumes "tail_of vs width bs" and "width \<le> 64"
  shows "length vs < VALUES \<Longrightarrow> unpack_tail (bs @ rest) width (length vs) = Inr vs"
    and "i < length vs \<Longrightarrow> tail_at (bs @ rest) width i = Inr (vs ! i)"
    and "Suc i < length vs \<Longrightarrow> tail_pair (bs @ rest) width (Suc i) = Inr (vs ! i, vs ! Suc i)"
proof -
  note f = tail_field_prefix [OF assms(1)]
  show "tail_at (bs @ rest) width i = Inr (vs ! i)" if "i < length vs"
    using tail_at_field [OF assms(2) f(2) [OF that]] field_unique f(1) [OF that] by metis
  show "tail_pair (bs @ rest) width (Suc i) = Inr (vs ! i, vs ! Suc i)" if i: "Suc i < length vs"
    using tail_pair_field [OF assms(2) f(2) [OF i]] field_unique f(1) [OF Suc_lessD [OF i]] f(1) [OF i] by metis
  show "unpack_tail (bs @ rest) width (length vs) = Inr vs" if n: "length vs < VALUES"
  proof -
    let ?out = "replicate (length vs) (0 :: u64)"
    have "tail_len (length ?out) width \<le> length (bs @ rest)" using assms(1) by (simp add: tail_of_def)
    then obtain us where us: "length us = length vs" "unpack_tail_into (bs @ rest) width ?out (\<lambda>b. b) = Inr us"
        "\<forall>i < length vs. field (byte_bit (bs @ rest)) (i * width) width (us ! i)"
      using unpack_tail_into_fields [OF assms(2), of ?out "bs @ rest" "\<lambda>b. b"] n by auto
    have "us = vs" using us(1,3) f(1) field_unique by (intro nth_equalityI) metis+
    then show ?thesis using us(2) n assms(2) by (simp add: unpack_tail_def check_tail_def)
  qed
qed

definition tail_accepted :: "u64 list \<Rightarrow> nat \<Rightarrow> bool" where
  "tail_accepted vs width \<longleftrightarrow> length vs < VALUES \<and> width \<le> 64 \<and> (\<forall>v \<in> set vs. fits width v)"

lemma pack_tail_accepts: "pack_tail vs width pre = Inr packed \<Longrightarrow> tail_accepted vs width"
  by (auto simp: pack_tail_def pack_linear_def check_tail_def tail_accepted_def check_all_zero_def fits_0 to_u64_def
      dest: pack_values_fit position_nonzero_all split: if_splits sum.splits option.splits)

text \<open>
  C17. A run shorter than a unit is packed, behind what the output holds, just when its values fit the
  width. The bytes it takes are as many as \<open>tail_len\<close> says, and with anything behind them they read
  back, all at once, one value at a time, and in neighbouring pairs.
\<close>

theorem tail_read_back:
  "case pack_tail vs width pre of
     Inl e \<Rightarrow> \<not> tail_accepted vs width
   | Inr packed \<Rightarrow> tail_accepted vs width \<and> (\<exists>bs. packed = pre @ bs \<and> length bs = tail_len (length vs) width
       \<and> unpack_tail (bs @ rest) width (length vs) = Inr vs
       \<and> map (tail_at (bs @ rest) width) [0..<length vs] = map Inr vs
       \<and> map (tail_pair (bs @ rest) width) [1..<length vs] = map Inr (zip (butlast vs) (tl vs)))"
proof (cases "tail_accepted vs width")
  case True
  then have ok: "width \<le> 64" "\<forall>v \<in> set vs. fits width v" "length vs < VALUES" by (auto simp: tail_accepted_def)
  obtain bs where bs: "pack_linear vs width pre = Inr (pre @ bs)" "tail_of vs width bs"
    using pack_linear_ok [OF ok(1,2)] by blast
  note read = tail_read [OF bs(2) ok(1), where rest = rest]
  have "map (tail_at (bs @ rest) width) [0..<length vs] = map Inr vs"
    using read(2) by (intro nth_equalityI) simp_all
  moreover have "map (tail_pair (bs @ rest) width) [1..<length vs] = map Inr (zip (butlast vs) (tl vs))"
    using read(3) by (intro nth_equalityI) (simp_all add: nth_butlast nth_tl)
  ultimately show ?thesis
    using read(1) [OF ok(3)] bs True ok by (simp add: pack_tail_def check_tail_def tail_of_def)
next
  case False
  then show ?thesis using pack_tail_accepts [of vs width pre] by (auto split: sum.split)
qed

section \<open>The width a unit needs\<close>

lemma fits_unat: "fits width v \<longleftrightarrow> unat v < 2 ^ width"
proof -
  have "take_bit width (unat v) = unat v \<longleftrightarrow> (\<forall>j. bit (unat v) j \<longrightarrow> j < width)"
    by (auto simp: bit_eq_iff bit_take_bit_iff)
  then show ?thesis by (simp add: fits_iff bit_unsigned_iff take_bit_nat_eq_self_iff)
qed

lemma fits_leading: "fits width v \<longleftrightarrow> 64 - leading_zeros v \<le> width"
proof -
  let ?P = "\<lambda>i. \<not> bit v (63 - i)" let ?n = "leading_zeros v"
  have n: "?n \<le> 64" unfolding leading_zeros_def using length_takeWhile_le [of ?P "[0..<64]"] by simp
  have zero: "\<not> bit v (63 - i)" if "i < ?n" for i
    using that nth_mem [of i "takeWhile ?P [0..<64]"] takeWhile_nth [of i ?P "[0..<64]"] n
    unfolding leading_zeros_def by (auto dest: set_takeWhileD)
  have one: "bit v (63 - ?n)" if "?n < 64"
    using that nth_length_takeWhile [of ?P "[0..<64]"] unfolding leading_zeros_def by simp
  show ?thesis
  proof
    assume "fits width v"
    then show "64 - ?n \<le> width" using one by (cases "?n < 64") (auto simp: fits_iff Suc_diff_le Suc_leI)
  next
    assume le: "64 - ?n \<le> width"
    have "j < width" if "bit v j" for j
    proof -
      have "j < 64" using bit_imp_le_length [OF that] by simp
      then have "63 - (63 - j) = j" by simp
      then have "\<not> 63 - j < ?n" using zero [of "63 - j"] that by auto
      then show ?thesis using le \<open>j < 64\<close> by linarith
    qed
    then show "fits width v" by (simp add: fits_iff)
  qed
qed

lemma foldl_max_bound: "foldl max a xs \<le> (b :: 'a::linorder) \<longleftrightarrow> a \<le> b \<and> (\<forall>x \<in> set xs. x \<le> b)"
  by (induction xs arbitrary: a) auto

lemma foldl_max_in: "foldl max a xs \<in> insert a (set xs)"
proof (induction xs arbitrary: a)
  case (Cons x xs)
  then show ?case using Cons.IH [of "max a x"] by (auto simp: max_def split: if_splits)
qed simp

lemma unat_to_u64: "LENGTH('a) \<le> 64 \<Longrightarrow> unat (to_u64 (v :: 'a::len word)) = unat v"
proof -
  assume "LENGTH('a) \<le> 64"
  then have "(2::nat) ^ LENGTH('a) \<le> 2 ^ 64" by (intro power_increasing) simp_all
  then have "unat v < 2 ^ 64" using unsigned_less [of v, where 'a = nat] by linarith
  then show ?thesis by (simp add: to_u64_def unsigned_ucast_eq take_bit_nat_eq_self_iff)
qed

text \<open>
  C19. The width worked out for a slice of values is the smallest one that all of them fit, and so never
  more than the type's own.
\<close>

theorem required_width_least:
  fixes vs :: "'a::len word list"
  assumes "LENGTH('a) \<le> 64"
  shows "(required_width vs \<le> width \<longleftrightarrow> (\<forall>v \<in> set vs. fits width (to_u64 v))) \<and> required_width vs \<le> LENGTH('a)"
proof -
  have "required_width vs \<le> width \<longleftrightarrow> (\<forall>v \<in> set vs. fits width (to_u64 v))" for width
  proof (cases vs)
    case Nil
    then show ?thesis using fits_leading [of width 0] by (simp add: required_width_def fits_def)
  next
    case (Cons v rest)
    let ?m = "foldl max v rest"
    have most: "unat u \<le> unat ?m" if "u \<in> set vs" for u
      using that foldl_max_bound [of v rest ?m] Cons by (auto simp: word_le_nat_alt)
    have "?m \<in> set vs" using foldl_max_in [of v rest] Cons by simp
    then have "fits width (to_u64 ?m) \<longleftrightarrow> (\<forall>u \<in> set vs. fits width (to_u64 u))"
      using most assms by (auto simp: fits_unat unat_to_u64 dest: le_less_trans)
    moreover have "required_width vs \<le> width \<longleftrightarrow> fits width (to_u64 ?m)"
      using Cons fits_leading [of width "to_u64 ?m"] by (simp add: required_width_def)
    ultimately show ?thesis by simp
  qed
  then show ?thesis using fits_to_u64 [OF assms] by simp
qed

theorem required_width_least_witness:
  "(required_width [5 :: 16 word, 9] \<le> 4 \<longleftrightarrow> fits 4 (to_u64 (5 :: 16 word)) \<and> fits 4 (to_u64 (9 :: 16 word)))
    \<and> required_width [5 :: 16 word, 9] \<le> 16"
  using required_width_least [of "[5 :: 16 word, 9]" 4] by simp

end
