(* ===== verification/Spec2Isabelle.thy ===== *)
theory Spec2Isabelle
  imports Crc LogBlock Cut SegmentNames LaneRun Pool Bloom IndexKey Sequences FsstTrain Patterns Lz BitpackTail
begin

text \<open>
  \<^bold>\<open>The write-ahead log of rudb and what it stands on, and the codecs of its columns.\<close>

  rudb is an embedded analytical database. A transaction commits by appending a block of records to
  one of the lanes of the log; a lane is a sequence of segment files, and after a crash the lanes are
  read back and the transactions in them applied again. This development models that path, from the
  checksum of a record's bytes to the simulated filesystem the repository runs its crash tests on. It
  also models the codecs a column's values go through on their way to a file: strings by a trained
  table of symbols, bytes by copies of earlier bytes, integers by the bits they need.

  \<^bold>\<open>The parts and the theories.\<close> Sources are under \<open>src/crates/\<close>.

  \<^item> \<open>Prelude\<close>: machine words, byte lists and slices, and a monad of a state and an error
    (\<open>st_bind\<close>), which is how every fallible operation that changes state is written.
  \<^item> \<open>Interfaces\<close>: what the format relies on of a checksum, as the locale \<open>checksum\<close>.
  \<^item> \<open>Crc\<close>: \<open>rudb-txn/src/log/crc.rs\<close> and \<open>rudb-io/src/crc.rs\<close>. \<open>extend m\<close> is the checksum
    on machine \<open>m\<close>; it interprets \<open>checksum\<close> as \<open>crc\<close>.
  \<^item> \<open>LogFormat\<close>: \<open>rudb-txn/src/log/format.rs\<close>, segment headers, records and payloads. A panic is
    \<open>None\<close>.
  \<^item> \<open>LogBlock\<close>: \<open>Block\<close> of \<open>lane.rs\<close> and \<open>read_blocks\<close> of \<open>replay.rs\<close>.
  \<^item> \<open>Cut\<close>: \<open>cut.rs\<close>, the timestamp every lane has reached.
  \<^item> \<open>SimFs\<close>: \<open>rudb-io/src/sim.rs\<close>, the filesystem with its unsynced writes and names, injected
    failures and crashes; \<open>Durability\<close> says what each operation does to what a crash can leave.
  \<^item> \<open>Segments\<close>, \<open>SegmentNames\<close>: the names of segments and spares, listing them, \<open>replay\<close>.
  \<^item> \<open>Lane\<close>: \<open>lane.rs\<close>, queueing, leading, switching segments, retiring, spares and opening, over
    \<open>World\<close>, which is the filesystem and the lane's state. \<open>LaneDisk\<close> and \<open>LaneSegment\<close> carry the
    invariant of what is on the disk through the lane's writes. \<open>LaneRun\<close> is the lane shared by threads:
    \<open>lane_step\<close> has a rule for each thing a thread does while it holds the lock.
  \<^item> \<open>Submit\<close>: \<open>rudb-io/src/submit.rs\<close>, batches of reads; \<open>Completion_take\<close> and
    \<open>Completion_wait\<close> answer \<open>Blocks\<close> where the code sleeps. \<open>Pool\<close>: \<open>pool.rs\<close>, which merges the
    reads of a batch and runs them on threads.
  \<^item> \<open>IndexKey\<close> and \<open>Bloom\<close>: \<open>rudb-index/src/key.rs\<close> and \<open>bloom.rs\<close>, the bytes a row is indexed
    under and the filter of a run.
  \<^item> \<open>Sequences\<close>: \<open>rudb-common/src/sequence.rs\<close>, the counters of sequences and the records the log
    carries of them.
  \<^item> \<open>Fsst\<close> and \<open>FsstTrain\<close>: \<open>rudb-vector/src/fsst.rs\<close>, symbol tables, compressing with them and
    training them. \<open>Patterns\<close>: \<open>rudb-encoding/src/sequence.rs\<close>, the automaton of a pattern over
    strings and over their codes.
  \<^item> \<open>Lz\<close>: \<open>rudb-encoding/src/lz.rs\<close>, the match finder and the replay of its tokens.
  \<^item> \<open>Bitpack\<close>, \<open>BitpackRead\<close> and \<open>BitpackTail\<close>: \<open>rudb-encoding/src/bitpack.rs\<close>, packing integers by
    lanes and in sequence, and the readers. A packed buffer is read as a stream of bits, a value as a \<open>field\<close> of it.

  \<^bold>\<open>Correspondence.\<close> A Rust function is the definition of its name, a method the name of its type and
  its own (\<open>Block::push\<close> is \<open>Block_push\<close>) where the name alone would clash. A \<open>Mutex\<close> around a state
  is the state itself, passed in and returned: what the lock makes one step is one definition. Offsets
  and lengths in memory are \<open>nat\<close>; what is written to disk or can wrap is a word.

  \<^bold>\<open>What is shown.\<close> Encoding is undone by decoding on every machine, damaged and left over
  records are refused, and what is read is whole (root theory); synced contents survive every crash
  (\<open>Durability\<close>); the queue of a lane has no gap, and a waiter returns (\<open>LaneRun\<close>); the cut is exact (\<open>Cut\<close>); a batch is answered in order, never waits for a
  backend that is gone, and merging its reads does not show (\<open>Submit\<close>, \<open>Pool\<close>); keys order as
  their columns do and the filter has no false negative; a recovered sequence hands no value out
  twice. What is compressed, taken apart or packed is read back, a pattern says yes to just the strings
  that hold its pieces, over their codes as over themselves, and the fast readers agree with the plain
  ones (\<open>FsstTrain\<close>, \<open>Fsst\<close>, \<open>Patterns\<close>, \<open>Lz\<close>,
  \<open>BitpackRead\<close>, \<open>BitpackTail\<close>). Three lemmas state where the code falls short of its comments: a nested request cuts a
  merged read short, a read that was taken can fail afterwards, and a sequence at its end can stage a
  record its replay refuses.

  \<^bold>\<open>Loops.\<close> A loop is a total function, or a partial one whose \<open>None\<close> is not returning and
  which is shown to return (\<open>compress_loop\<close>, \<open>count_loop\<close>). The loop of \<open>read_blocks\<close> ends because a record is never
  empty. \<open>wait_loop\<close> of the lane has fuel 2: with no other thread between its rounds a waiter leads
  once and then finds its position reached or the lane failed, as \<open>LaneRun\<close> proves. \<open>make_spares\<close> takes the number of
  rounds it is run for.

  \<^bold>\<open>Not modelled.\<close> Threads and condition variables as such, clocks, the real filesystem's system
  calls, and the engine above the log and the codecs (SQL, planner, executor, file format); each is listed as a
  component of the manifest.
\<close>

section \<open>Records on disk\<close>

lemmas crc_other_seed = checksum.decode_record_other_seed [OF crc.checksum_axioms]
lemmas crc_one_byte = checksum.record_image_one_byte [OF crc.checksum_axioms]

text \<open>
  C1. A record written on one machine, with whatever came before it in the buffer, is read back on
  any machine from its first byte, whatever follows it: its header, its payload and its length.
\<close>

theorem record_read_back:
  assumes "encode_record (Crc.extend m) out h p sd = Some out'"
  shows "decode_record (Crc.extend m') (drop (length out) out' @ rest) sd
           = Some (h, p, length out' - length out)"
proof -
  have small: "length p < 2 ^ 32" using assms by (auto simp: encode_record_def split: if_splits)
  then have "out' = out @ record_image (Crc.extend m') h p sd"
    using assms by (simp add: encode_record_eq extend_machine [of m m'])
  then show ?thesis using decode_record_image [OF small] by simp
qed

definition example_header :: RecordHeader where
  "example_header = \<lparr>rh_kind = Insert, rh_lane = 3, rh_flags = 0, rh_gsn = 41\<rparr>"

lemma record_read_back_witness:
  "\<exists>out'. encode_record (Crc.extend (X86_64 True)) [9] example_header [1, 2, 3] 7 = Some out'
     \<and> decode_record (Crc.extend (Aarch64 False)) (drop (length [9::u8]) out' @ [5]) 7
         = Some (example_header, [1, 2, 3], length out' - length [9::u8])"
proof -
  have e: "encode_record (Crc.extend (X86_64 True)) [9] example_header [1, 2, 3] 7
      = Some ([9] @ record_image (Crc.extend (X86_64 True)) example_header [1, 2, 3] 7)"
    by (rule encode_record_eq) simp
  show ?thesis using record_read_back [OF e, where m' = "Aarch64 False" and rest = "[5]"] e by blast
qed



text \<open>
  C23. Damage to one byte of a record, its length apart, is always noticed: the header, the checksum
  itself, the payload and the zeros after it.
\<close>

theorem damaged_record_refused:
  assumes "encode_record (Crc.extend m) [] h p sd = Some out"
    and "4 \<le> i" and "i < length out" and "b \<noteq> out ! i"
  shows "decode_record (Crc.extend m) (out[i := b] @ rest) sd = None"
proof -
  have small: "length p < 2 ^ 32" using assms(1) by (auto simp: encode_record_def split: if_splits)
  then have "out = record_image (Crc.extend m) h p sd" using assms(1) by (simp add: encode_record_eq)
  then show ?thesis using crc_one_byte [OF small] assms by simp
qed

lemma damaged_record_refused_witness:
  "decode_record (Crc.extend (X86_64 True)) ((record_image (Crc.extend (X86_64 True)) example_header [1, 2, 3] 7)[22 := 4] @ []) 7 = None"
  by (rule damaged_record_refused [where p = "[1, 2, 3]" and h = example_header])
    (simp_all add: encode_record_eq record_bytes_def next_multiple_of_def RECORD_HEADER_def
      RECORD_ALIGN_def record_image_def Let_def nth_append)

text \<open>
  C32. A segment's header is accepted just when its first 4 KiB are the bytes written for it, whichever
  machine wrote them: every bit of the header counts, the zeros included.
\<close>

theorem segment_header_exact:
  "SegmentHeader_decode (Crc.extend m) bs = Some h \<longleftrightarrow>
     SEGMENT_HEADER \<le> length bs \<and> take SEGMENT_HEADER bs = SegmentHeader_encode (Crc.extend m') h"
  by (simp add: SegmentHeader_decode_iff extend_machine [of m m'])

section \<open>Blocks on disk\<close>

text \<open>A block built by pushing these records in turn.\<close>

fun push_all :: "Block \<Rightarrow> (Kind \<times> u16 \<times> bytes) list \<Rightarrow> block_error + Block" where
  "push_all b [] = Inr b"
| "push_all b ((kind, flags, payload) # rs) =
     (case Block_push b kind flags payload of Inl e \<Rightarrow> Inl e | Inr b \<Rightarrow> push_all b rs)"

lemma Block_push_fields:
  "Block_push b kind flags payload = Inr b' \<Longrightarrow>
     b_txn b' = b_txn b \<and> b_commit_ts b' = b_commit_ts b \<and> b_dep_ts b' = b_dep_ts b
     \<and> length (b_records b') = Suc (length (b_records b))"
  by (auto simp: Block_push_def Let_def split: if_splits)

lemma push_all_Inr:
  assumes "Block_ok b" and "push_all b rs = Inr b'"
  shows "Block_ok b' \<and> Block_payloads b' = Block_payloads b @ rs
    \<and> b_txn b' = b_txn b \<and> b_commit_ts b' = b_commit_ts b \<and> b_dep_ts b' = b_dep_ts b
    \<and> length (b_records b') = length (b_records b) + length rs"
  using assms
proof (induction b rs rule: push_all.induct)
  case (2 b kind flags payload rs)
  obtain b1 where b1: "Block_push b kind flags payload = Inr b1" "push_all b1 rs = Inr b'"
    using 2(3) by (cases "Block_push b kind flags payload") simp_all
  have ok: "Block_ok b1" using 2(2) b1(1) by (rule Block_ok_push)
  show ?case
    using 2(1) [OF b1(1) ok b1(2)] unfolding Block_push_payloads [OF 2(2) b1(1)]
    using Block_push_fields [OF b1(1)] by (elim conjE, intro conjI) simp_all
qed simp

text \<open>The transaction a reader makes of the records of one.\<close>

definition transaction :: "Committed \<Rightarrow> u64 \<times> u64 \<times> u64 \<times> (Kind \<times> u16 \<times> bytes) list" where
  "transaction cm =
     (c_txn (cm_commit cm), c_commit_ts (cm_commit cm), c_dep_ts (cm_commit cm),
      map (\<lambda>r. (rh_kind (r_header r), rh_flags (r_header r), r_payload r)) (cm_records cm))"

lemma transaction_Committed_of:
  "transaction (Committed_of lane sequence b) = (b_txn b, b_commit_ts b, b_dep_ts b, Block_payloads b)"
  by (auto simp: transaction_def Committed_of_def record_of_def comp_def case_prod_beta)

lemma read_blocks_end:
  "pos \<le> length segment \<Longrightarrow> decode_record ext (drop pos segment) (seed sequence) = None \<Longrightarrow>
     read_blocks ext segment pos lane sequence out = out"
  by (simp add: read_blocks_def read_blocks_loop.simps read_blocks_step_def)

text \<open>
  C2. A transaction's records are logged whole and read back whole. A block built by pushing records
  and encoded at the end of a segment that reads on to there, on any machine, is read as one
  transaction with those records in that order, under its transaction, timestamp and dependency, and
  takes the length the lane reserved for it. What follows it is read from where it ends.
\<close>

theorem block_read_back:
  assumes "push_all (Block_new txn ts dep) rs = Inr b" and "length rs < 2 ^ 32" and "b_bytes b < 2 ^ 64"
  shows "\<exists>bs cm. Block_encode (Crc.extend m) b lane (seed sequence) out = Some (out @ bs)
     \<and> length bs = Block_len b \<and> transaction cm = (txn, ts, dep, rs)
     \<and> read_blocks (Crc.extend m') (out @ bs @ rest) (length out) lane sequence acc
         = read_blocks (Crc.extend m') (out @ bs @ rest) (length out + Block_len b) lane sequence (acc @ [cm])"
proof -
  note b = push_all_Inr [OF Block_ok_new assms(1)]
  let ?bs = "Block_image (Crc.extend m') lane (seed sequence) b"
  have small: "Block_small b" using b assms by (simp add: Block_small_def Block_new_def)
  have enc: "Block_encode (Crc.extend m) b lane (seed sequence) out = Some (out @ ?bs)"
    using Block_encode_eq [of b] b by (simp add: extend_machine [of m m'])
  show ?thesis
  proof (intro exI conjI)
    show "Block_encode (Crc.extend m) b lane (seed sequence) out = Some (out @ ?bs)" by (rule enc)
    show "length ?bs = Block_len b" using b by (simp add: length_Block_image)
    show "transaction (Committed_of lane sequence b) = (txn, ts, dep, rs)"
      using b by (simp add: transaction_Committed_of Block_new_def Block_payloads_def)
    show "read_blocks (Crc.extend m') (out @ ?bs @ rest) (length out) lane sequence acc
         = read_blocks (Crc.extend m') (out @ ?bs @ rest) (length out + Block_len b) lane sequence
             (acc @ [Committed_of lane sequence b])"
      using b small read_blocks_image [of b "length out" "out @ ?bs @ rest"] by simp
  qed
qed

lemma block_read_back_witness:
  "\<exists>b. push_all (Block_new 5 9 7) [(Insert, 0, [1, 2]), (Delete, 1, [])] = Inr b \<and>
    (\<exists>bs cm. Block_encode (Crc.extend (X86_64 True)) b 3 (seed 4) [] = Some ([] @ bs)
     \<and> length bs = Block_len b \<and> transaction cm = (5, 9, 7, [(Insert, 0, [1, 2]), (Delete, 1, [])])
     \<and> read_blocks (Crc.extend Other_arch) ([] @ bs @ [0]) (length ([]::bytes)) 3 4 []
         = read_blocks (Crc.extend Other_arch) ([] @ bs @ [0]) (length ([]::bytes) + Block_len b) 3 4 ([] @ [cm]))"
proof -
  define b where "b = projr (push_all (Block_new 5 9 7) [(Insert, 0, [1, 2]), (Delete, 1, [])])"
  have b: "push_all (Block_new 5 9 7) [(Insert, 0, [1, 2]), (Delete, 1, [])] = Inr b"
    by (simp add: b_def Block_push_def Block_new_def Let_def)
  moreover have "b_bytes b < 2 ^ 64"
    by (simp add: b_def Block_push_def Block_new_def Let_def record_bytes_def next_multiple_of_def
        RECORD_HEADER_def RECORD_ALIGN_def)
  ultimately show ?thesis
    using block_read_back [OF b, of "X86_64 True" 3 4 "[]" Other_arch "[0]" "[]"]
    by (intro exI [of _ b] conjI) simp_all
qed

text \<open>
  C22. Nothing is read that was not written whole. Whatever the bytes of a segment, the blocks read from
  it lie there one after the other, each with exactly the records and the bytes its Commit counts, none
  of them another lane's and none a Commit.
\<close>

theorem read_blocks_whole:
  "\<exists>cms. read_blocks (Crc.extend m) segment pos lane sequence out = out @ cms
     \<and> holds_blocks (Crc.extend m) lane sequence cms (drop pos segment)"
  by (rule read_blocks_sound)

text \<open>
  C25. The checksum is the same on every machine. With the instructions of an x86-64 or an arm64 and with
  the tables of the software, eight bytes at a time or one, continuing a checksum computes the CRC-32C
  of the bytes, bit by bit.
\<close>

theorem extend_every_machine:
  "Crc.extend m c bs = crc_ref c bs"
  by (rule extend_ref)

section \<open>Payloads and names\<close>

text \<open>
  C33. A Commit's payload is accepted just when it is the bytes written for it.
\<close>

theorem commit_payload_exact: "Commit_decode bs = Some c \<longleftrightarrow> bs = Commit_encode c"
  by (rule Commit_decode_iff)

text \<open>
  C34. A Checkpoint's payload is read back as the tables it was written for.
\<close>

theorem checkpoint_payload_read_back:
  assumes "Checkpointed_encode es = Some bs"
  shows "Checkpointed_decode bs = Some es"
  using assms by (rule Checkpointed_round_trip)

definition example_table :: Checkpointed where
  "example_table = \<lparr>ck_table = 3, ck_stripe = 1, ck_c_s = 9, ck_root = 40, ck_generation = 2\<rparr>"

lemma checkpoint_payload_read_back_witness:
  "\<exists>bs. Checkpointed_encode [example_table] = Some bs \<and> Checkpointed_decode bs = Some [example_table]"
proof -
  define bs where "bs = the (Checkpointed_encode [example_table])"
  have bs: "Checkpointed_encode [example_table] = Some bs" by (simp add: bs_def Checkpointed_encode_def)
  then show ?thesis using checkpoint_payload_read_back [OF bs] by blast
qed



end
